(* ===== verification/Prelude.thy ===== *)
theory Prelude
  imports Main "HOL-Library.Word" "HOL-Library.Multiset" "HOL-Library.AList"
begin

text \<open>
  Shared vocabulary of the development.

  \<^item> The protocol-buffer messages the schedulers exchange (transactions, read and write
    records, results, blocks), as records with the message's field names, prefixed where two
    messages share a name.
  \<^item> The state view a transaction executes on, and the effect of writes on a view.
  \<^item> The choices the Go runtime makes (map iteration order, interleaving of goroutines,
    clock), collected in one record, so that every definition that depends on one of them
    takes it as an argument.
  \<^item> Generic lemmas on association lists and folds which the components share.
\<close>

named_theorems view_simps \<open>how views change under writes\<close>
named_theorems table_simps \<open>lookup in tables after bulk updates\<close>

section \<open>Messages\<close>

text \<open>A Go byte slice: \<open>None\<close> is the nil slice.\<close>

type_synonym bytes = "string option"

record TxRead =
  r_ContractName :: string
  r_Key :: string
  r_Value :: bytes

record TxWrite =
  w_ContractName :: string
  w_Key :: string
  w_Value :: bytes

record TxRWSet =
  rw_TxId :: string
  TxReads :: "TxRead list"
  TxWrites :: "TxWrite list"

datatype TxStatusCode =
    SUCCESS | INVALID_PARAMETER | CONTRACT_FAIL | INTERNAL_ERROR
  | GAS_BALANCE_NOT_ENOUGH_FAILED | GAS_LIMIT_NOT_SET | CONTRACT_INVOKE_METHOD_FAILED
  | GET_ACCOUNT_BALANCE_FAILED | PARSE_ACCOUNT_BALANCE_FAILED | GET_ACCOUNT_STATUS_FAILED
  | ACCOUNT_STATUS_FROZEN | CONTRACT_TOO_DEEP_FAILED | OtherStatus nat

datatype TxType = INVOKE_CONTRACT | QUERY_CONTRACT | OtherTxType nat

datatype ExecOrderTxType =
    ExecOrderTxTypeNormal | ExecOrderTxTypeSpecial | ExecOrderTxTypeChargeGas

record ContractEvent =
  ev_Topic :: string
  ev_ContractName :: string
  ev_ContractVersion :: string
  ev_EventData :: "string list"

record ContractResult =
  cr_Code :: "32 word"
  cr_Result :: bytes
  cr_Message :: string
  cr_GasUsed :: "64 word"
  cr_ContractEvent :: "ContractEvent list"

record Result =
  res_Code :: TxStatusCode
  res_ContractResult :: ContractResult
  res_Message :: string

record Payload =
  p_TxId :: string
  p_TxType :: TxType
  p_ContractName :: string
  p_Method :: string
  p_Parameters :: "(string \<times> bytes) list"
  p_Limit :: "64 word option"

record Transaction =
  tx_Payload :: Payload
  tx_Result :: "Result option"

abbreviation TxId :: "Transaction \<Rightarrow> string" where
  "TxId t \<equiv> p_TxId (tx_Payload t)"

section \<open>State views\<close>

text \<open>
  What a transaction sees of the state: a contract name and a key give a value, or the error of
  the store. Writes reach the view through the concatenated key of the snapshot's tables.
\<close>

type_synonym view = "string \<Rightarrow> string \<Rightarrow> string + bytes"

definition constructKey :: "string \<Rightarrow> string \<Rightarrow> string" where
  "constructKey contractName key = contractName @ key"

abbreviation rkey :: "TxRead \<Rightarrow> string" where
  "rkey r \<equiv> constructKey (r_ContractName r) (r_Key r)"

abbreviation wkey :: "TxWrite \<Rightarrow> string" where
  "wkey w \<equiv> constructKey (w_ContractName w) (w_Key w)"

abbreviation wkv :: "TxWrite \<Rightarrow> string \<times> bytes" where
  "wkv w \<equiv> (wkey w, w_Value w)"

definition apply_writes :: "view \<Rightarrow> TxWrite list \<Rightarrow> view" where
  "apply_writes v ws =
     (\<lambda>c k. case map_of (rev (map wkv ws)) (constructKey c k) of
              Some b \<Rightarrow> Inr b
            | None \<Rightarrow> v c k)"

definition total_view :: "view \<Rightarrow> bool" where
  "total_view v \<longleftrightarrow> (\<forall>c k. \<exists>b. v c k = Inr b)"

lemma apply_writes_Nil [simp]: "apply_writes v [] = v"
  by (simp add: apply_writes_def)

lemma apply_writes_append [view_simps]:
  "apply_writes v (ws @ us) = apply_writes (apply_writes v ws) us"
  by (auto simp: apply_writes_def map_add_def fun_eq_iff split: option.splits)

lemma apply_writes_total [intro]: "total_view v \<Longrightarrow> total_view (apply_writes v ws)"
  by (auto simp: total_view_def apply_writes_def split: option.splits)

lemma apply_writes_other:
  assumes "constructKey c k \<notin> wkey ` set ws"
  shows "apply_writes v ws c k = v c k"
proof -
  have "map_of (rev (map wkv ws)) (constructKey c k) = None"
    using assms by (auto simp: map_of_eq_None_iff image_iff)
  then show ?thesis by (simp add: apply_writes_def)
qed

lemma apply_writes_miss:
  "\<forall>w\<in>set ws. wkey w \<noteq> constructKey c k \<Longrightarrow> apply_writes v ws c k = v c k"
  by (rule apply_writes_other) auto

section \<open>Choices of the Go runtime\<close>

text \<open>
  \<open>map_order\<close> is the order in which ranging over a map of pending writes visits them;
  \<open>interleave\<close> is the order in which the puts of concurrent workers, one list per worker,
  take effect; \<open>timed_out n\<close> says whether the clock has passed the scheduling limit when
  round \<open>n\<close> starts.
\<close>

record go_runtime =
  map_order :: "TxWrite list \<Rightarrow> TxWrite list"
  interleave :: "TxWrite list list \<Rightarrow> TxWrite list"
  timed_out :: "nat \<Rightarrow> bool"

definition wf_runtime :: "go_runtime \<Rightarrow> bool" where
  "wf_runtime rt \<longleftrightarrow>
     (\<forall>ws. mset (map_order rt ws) = mset ws) \<and>
     (\<forall>wss. mset (interleave rt wss) = mset (concat wss))"

definition default_runtime :: go_runtime where
  "default_runtime = \<lparr>map_order = (\<lambda>ws. ws), interleave = concat, timed_out = (\<lambda>_. False)\<rparr>"

lemma wf_default_runtime [simp]: "wf_runtime default_runtime"
  by (simp add: wf_runtime_def default_runtime_def)

section \<open>Generic lemmas\<close>

lemma map_of_mset_eq:
  assumes "mset xs = mset ys" and "distinct (map fst xs)"
  shows "map_of xs = map_of ys"
proof -
  have "mset (map fst xs) = mset (map fst ys)"
    using assms(1) by simp
  then have "distinct (map fst ys)"
    using assms(2) by (metis mset_eq_imp_distinct_iff)
  moreover have "set xs = set ys"
    using assms(1) by (rule mset_eq_setD)
  ultimately show ?thesis
    using assms(2) by (simp add: map_of_inject_set)
qed

lemma map_of_rev_distinct:
  "distinct (map fst xs) \<Longrightarrow> map_of (rev xs) = map_of xs"
  by (rule map_of_mset_eq) (simp_all add: rev_map [symmetric])

text \<open>Bulk map updates: the last binding of a key wins.\<close>

lemma fold_map_upd [table_simps]:
  "fold (\<lambda>(k, v) m. m(k \<mapsto> v)) kvs m = m ++ map_of (rev kvs)"
  by (induction kvs arbitrary: m) (auto simp: map_add_def fun_eq_iff split: option.splits)

lemma apply_writes_perm:
  assumes "mset ws = mset us" and "distinct (map wkey ws)"
  shows "apply_writes v ws = apply_writes v us"
proof -
  have "mset (rev (map wkv ws)) = mset (rev (map wkv us))"
    using assms(1) by simp
  moreover have "distinct (map fst (rev (map wkv ws)))"
    using assms(2) by (simp add: comp_def rev_map [symmetric])
  ultimately have "map_of (rev (map wkv ws)) = map_of (rev (map wkv us))"
    by (rule map_of_mset_eq)
  then show ?thesis by (simp add: apply_writes_def)
qed

lemma filter_zip_idx:
  assumes "length xs = length ys"
  shows "filter P (zip xs ys) = map (\<lambda>i. (xs ! i, ys ! i)) (filter (\<lambda>i. P (xs ! i, ys ! i)) [0..<length xs])"
proof -
  have "zip xs ys = map (\<lambda>i. (xs ! i, ys ! i)) [0..<length xs]"
    using assms by (intro nth_equalityI) auto
  then show ?thesis by (simp add: filter_map comp_def)
qed

lemma mset_idx:
  "mset (map ((!) xs) (filter P [0..<length xs])) + mset (map ((!) xs) (filter (\<lambda>i. \<not> P i) [0..<length xs]))
     = mset xs"
proof -
  have "mset (map ((!) xs) (filter P [0..<length xs])) + mset (map ((!) xs) (filter (\<lambda>i. \<not> P i) [0..<length xs]))
      = image_mset ((!) xs) (mset [0..<length xs])"
    by (simp only: mset_map mset_filter image_mset_union [symmetric] multiset_partition [symmetric])
  also have "\<dots> = mset xs"
    by (metis map_nth mset_map)
  finally show ?thesis .
qed

lemma map_of_fold_update:
  "map_of (fold (\<lambda>x m. AList.update (f x) (g x) m) xs m) = map_of m ++ map_of (rev (map (\<lambda>x. (f x, g x)) xs))"
  by (induction xs arbitrary: m) (auto simp: update_conv' map_add_def fun_eq_iff split: option.splits)

lemma distinct_fold_update:
  "distinct (map fst m) \<Longrightarrow> distinct (map fst (fold (\<lambda>x m. AList.update (f x) (g x) m) xs m))"
  by (induction xs arbitrary: m) (auto simp: distinct_update)

end
