(* ===== verification/Executor.thy ===== *)
theory Executor
  imports Prelude
begin

text \<open>
  The interface between the schedulers and the execution of one transaction
  (\<^verbatim>\<open>CommonVMHelper.ExecuteTx\<close>): running a transaction on a view of the state gives its
  read-write set and its result. The locale \<open>executor\<close> states what the schedulers rely on: the
  outcome depends on the view only through the recorded reads. Serial execution in a given order is
  the reference every scheduler is measured against.
\<close>

type_synonym outcome = "TxRWSet \<times> Result option"

type_synonym exec_fun = "view \<Rightarrow> Transaction \<Rightarrow> outcome"

abbreviation reads_of :: "outcome \<Rightarrow> TxRead list" where
  "reads_of out \<equiv> TxReads (fst out)"

abbreviation writes_of :: "outcome \<Rightarrow> TxWrite list" where
  "writes_of out \<equiv> TxWrites (fst out)"

section \<open>Serial execution\<close>

fun serial_run :: "exec_fun \<Rightarrow> view \<Rightarrow> Transaction list \<Rightarrow> outcome list \<times> view" where
  "serial_run ex v [] = ([], v)"
| "serial_run ex v (t # ts) =
     (let out = ex v t;
          (outs, v') = serial_run ex (apply_writes v (writes_of out)) ts
      in (out # outs, v'))"

lemma serial_run_append:
  "serial_run ex v (ts @ us) =
     (let (outs, v') = serial_run ex v ts; (outs', v'') = serial_run ex v' us
      in (outs @ outs', v''))"
  by (induction ts arbitrary: v) (auto simp: Let_def split: prod.splits)

lemma length_serial_run: "length (fst (serial_run ex v ts)) = length ts"
  by (induction ts arbitrary: v) (simp_all add: Let_def split_beta)

lemma serial_run_nth:
  "i < length ts \<Longrightarrow> \<exists>v'. fst (serial_run ex v ts) ! i = ex v' (ts ! i)"
proof (induction ts arbitrary: v i)
  case (Cons t ts)
  then show ?case
    by (cases i) (auto simp: Let_def split_beta)
qed simp

lemma serial_run_total:
  "total_view v \<Longrightarrow> total_view (snd (serial_run ex v ts))"
  by (induction ts arbitrary: v) (simp_all add: Let_def split_beta apply_writes_total)

text \<open>\<open>feeds o1 o2\<close>: a write of the outcome \<open>o1\<close> hits a recorded read of \<open>o2\<close>.\<close>

definition feeds :: "outcome \<Rightarrow> outcome \<Rightarrow> bool" where
  "feeds o1 o2 \<longleftrightarrow> list_ex (\<lambda>w. list_ex (\<lambda>r. wkey w = rkey r) (reads_of o2)) (writes_of o1)"

lemma feeds_iff: "feeds o1 o2 \<longleftrightarrow> (\<exists>w\<in>set (writes_of o1). \<exists>r\<in>set (reads_of o2). wkey w = rkey r)"
  by (simp add: feeds_def list_ex_iff)

section \<open>The contract\<close>

locale executor =
  fixes ex :: exec_fun
    and covered :: "Transaction \<Rightarrow> bool"
  assumes exec_local:
    "covered t \<Longrightarrow> total_view v \<Longrightarrow> total_view v' \<Longrightarrow>
     (\<And>r. r \<in> set (reads_of (ex v t)) \<Longrightarrow>
        v' (r_ContractName r) (r_Key r) = v (r_ContractName r) (r_Key r)) \<Longrightarrow>
     ex v' t = ex v t"
begin

lemma exec_after_writes:
  assumes "covered t" and "total_view v"
    and "\<forall>w\<in>set ws. \<forall>r\<in>set (reads_of (ex v t)). wkey w \<noteq> rkey r"
  shows "ex (apply_writes v ws) t = ex v t"
  using assms by (intro exec_local apply_writes_total apply_writes_other) (auto, metis)

text \<open>
  Transactions executed all on one view give the same outcomes as their serial execution in an
  order in which no transaction writes what a later one has read.
\<close>

lemma parallel_is_serial:
  assumes "\<forall>t\<in>set ts. covered t" and "total_view v"
    and "sorted_wrt (\<lambda>t u. \<not> feeds (ex v t) (ex v u)) ts"
  shows "serial_run ex v ts = (map (ex v) ts, apply_writes v (concat (map (\<lambda>t. writes_of (ex v t)) ts)))"
  using assms
proof (induction ts arbitrary: v)
  case (Cons t ts)
  let ?v = "apply_writes v (writes_of (ex v t))"
  have same: "ex ?v u = ex v u" if "u \<in> set ts" for u
    using Cons.prems that by (intro exec_after_writes) (auto simp: feeds_iff)
  have "sorted_wrt (\<lambda>t u. \<not> feeds (ex ?v t) (ex ?v u)) ts"
    using Cons.prems(3) by (auto simp: same intro: sorted_wrt_mono_rel [rotated])
  then have "serial_run ex ?v ts =
      (map (ex ?v) ts, apply_writes ?v (concat (map (\<lambda>t. writes_of (ex ?v t)) ts)))"
    using Cons.prems by (intro Cons.IH) auto
  also have "map (ex ?v) ts = map (ex v) ts"
    using same by simp
  also have "map (\<lambda>t. writes_of (ex ?v t)) ts = map (\<lambda>t. writes_of (ex v t)) ts"
    using same by simp
  finally show ?case
    by (simp add: Let_def apply_writes_append)
qed simp

end

text \<open>An executor whose recorded reads carry the values of the view.\<close>

locale read_executor = executor +
  assumes exec_values:
    "covered t \<Longrightarrow> total_view v \<Longrightarrow> r \<in> set (reads_of (ex v t)) \<Longrightarrow>
     v (r_ContractName r) (r_Key r) = Inr (r_Value r)"

end
