(* ===== verification/ShardMap.thy ===== *)
theory ShardMap
  imports Prelude
begin

unbundle bit_operations_syntax

text \<open>
  The sharded table of \<^verbatim>\<open>module/snapshot/shard_map.go\<close>, which holds the read and the write
  table of a snapshot: 64 maps, a key going to the shard its FNV hash selects.

  The locale \<open>kv_table\<close> is the contract the snapshot relies on; its lemmas cover bulk puts and
  the order in which concurrent puts take effect. The interpretation discharges the contract
  for the sharded table.
\<close>

section \<open>The contract of a key-value table\<close>

locale kv_table =
  fixes empty :: 't
    and get :: "'t \<Rightarrow> 'k \<Rightarrow> 'v option"
    and put :: "'k \<Rightarrow> 'v \<Rightarrow> 't \<Rightarrow> 't"
    and inv :: "'t \<Rightarrow> bool"
  assumes inv_empty: "inv empty"
    and get_empty: "get empty k = None"
    and inv_put: "inv t \<Longrightarrow> inv (put k v t)"
    and get_put: "inv t \<Longrightarrow> get (put k v t) k' = (if k' = k then Some v else get t k')"
begin

lemma inv_put_all: "inv t \<Longrightarrow> inv (fold (\<lambda>(k, v). put k v) kvs t)"
  by (induction kvs arbitrary: t) (auto simp: inv_put)

lemma get_put_all:
  "inv t \<Longrightarrow> get (fold (\<lambda>(k, v). put k v) kvs t) = get t ++ map_of (rev kvs)"
proof (induction kvs arbitrary: t)
  case Nil
  then show ?case by simp
next
  case (Cons kv kvs)
  obtain k v where kv: "kv = (k, v)" by force
  have "get (fold (\<lambda>(k, v). put k v) kvs (put k v t)) = get (put k v t) ++ map_of (rev kvs)"
    using Cons.prems by (intro Cons.IH inv_put)
  then show ?case
    using Cons.prems kv by (auto simp: get_put fun_eq_iff map_add_def split: option.splits)
qed

lemma put_all_order:
  assumes "inv t" and "mset kvs = mset kvs'" and "distinct (map fst kvs)"
  shows "get (fold (\<lambda>(k, v). put k v) kvs t) = get (fold (\<lambda>(k, v). put k v) kvs' t)"
proof -
  have "map_of (rev kvs) = map_of (rev kvs')"
    using assms by (intro map_of_mset_eq) (simp_all add: rev_map [symmetric])
  with assms(1) show ?thesis by (simp add: get_put_all)
qed

end

section \<open>The sharded table\<close>

record sv =
  seq :: nat
  sv_value :: bytes

definition Prime32 :: "32 word" where
  "Prime32 = 16777619"

definition ShardNum :: nat where
  "ShardNum = 64"

type_synonym Shard = "string \<rightharpoonup> sv"

record ShardSet =
  shardNum_of :: nat
  shards :: "Shard list"

definition newShard :: Shard where
  "newShard = Map.empty"

definition newShardSet :: ShardSet where
  "newShardSet = \<lparr>shardNum_of = ShardNum, shards = replicate ShardNum newShard\<rparr>"

definition fnv32 :: "string \<Rightarrow> 32 word" where
  "fnv32 key = foldl (\<lambda>h c. (h * Prime32) XOR of_char c) 2166136261 key"

definition shardNum :: "string \<Rightarrow> nat \<Rightarrow> nat" where
  "shardNum key shardedNum = unat (fnv32 key mod of_nat shardedNum)"

definition shard_put :: "Shard \<Rightarrow> string \<Rightarrow> sv \<Rightarrow> Shard" where
  "shard_put s k kv = s(k \<mapsto> kv)"

definition getByLock :: "ShardSet \<Rightarrow> string \<Rightarrow> sv option" where
  "getByLock s k = (shards s ! shardNum k (shardNum_of s)) k"

definition putByLock :: "string \<Rightarrow> sv \<Rightarrow> ShardSet \<Rightarrow> ShardSet" where
  "putByLock k kv s =
     (let i = shardNum k (shardNum_of s)
      in s\<lparr>shards := (shards s)[i := shard_put (shards s ! i) k kv]\<rparr>)"

definition shard_inv :: "ShardSet \<Rightarrow> bool" where
  "shard_inv s \<longleftrightarrow> shardNum_of s = ShardNum \<and> length (shards s) = ShardNum"

lemma shardNum_less: "shardNum k ShardNum < ShardNum"
proof -
  have "fnv32 k mod 64 < (64 :: 32 word)"
    by (rule word_mod_less_divisor) simp
  then show ?thesis
    by (simp add: shardNum_def ShardNum_def word_less_nat_alt)
qed

interpretation shard_kv: kv_table newShardSet getByLock putByLock shard_inv
proof unfold_locales
  show "shard_inv newShardSet"
    by (simp add: shard_inv_def newShardSet_def)
  show "getByLock newShardSet k = None" for k
    using shardNum_less [of k] by (simp add: getByLock_def newShardSet_def newShard_def)
  show "shard_inv (putByLock k v t)" if "shard_inv t" for k v t
    using that by (simp add: shard_inv_def putByLock_def Let_def)
  show "getByLock (putByLock k v t) k' = (if k' = k then Some v else getByLock t k')"
    if "shard_inv t" for k v t k'
    using that shardNum_less [of k] shardNum_less [of k']
    by (auto simp: shard_inv_def getByLock_def putByLock_def shard_put_def Let_def nth_list_update)
qed

end
