(* ===== verification/Snapshot.thy ===== *)
theory Snapshot
  imports ShardMap "HOL-Library.AList"
begin

text \<open>
  The block snapshot of \<^verbatim>\<open>module/snapshot/snapshot_impl.go\<close>: the state a block's transactions
  execute on. A snapshot keeps the writes and reads applied so far in two sharded tables, the
  applied transactions with their read-write sets and results, and a link to the snapshot of the
  previous block; what no table holds is read from the blockchain store, which is a parameter.

  Every operation that changes the snapshot is a function on \<open>SnapshotImpl\<close>. The parts of an
  operation that run under the snapshot's lock are functions of their own, so that interleavings
  of concurrent transactions are sequences of them.
\<close>

section \<open>State\<close>

record BlockchainStore =
  ReadObject :: view
  ReadObjects :: "string \<Rightarrow> string list \<Rightarrow> string + bytes list"

record snap_data =
  blockchainStore :: BlockchainStore
  sealed :: bool
  blockVersion :: nat
  txRWSetTable :: "TxRWSet list"
  txTable :: "Transaction list"
  specialTxTable :: "Transaction list"
  txResultMap :: "string \<rightharpoonup> Result option"
  readTable :: ShardSet
  writeTable :: ShardSet

datatype SnapshotImpl =
  SnapshotImpl (snap: snap_data) (preSnapshot: "SnapshotImpl option")

definition map_snap :: "(snap_data \<Rightarrow> snap_data) \<Rightarrow> SnapshotImpl \<Rightarrow> SnapshotImpl" where
  "map_snap f s = SnapshotImpl (f (snap s)) (preSnapshot s)"

text \<open>The simulation context of a transaction, as far as the snapshot uses it.\<close>

record TxSimContext =
  sim_tx :: Transaction
  sim_txExecSeq :: nat
  sim_GetTxRWSet :: "bool \<Rightarrow> TxRWSet"
  sim_GetTxResult :: "Result option"

definition makeSnapshotImpl :: "BlockchainStore \<Rightarrow> nat \<Rightarrow> SnapshotImpl" where
  "makeSnapshotImpl store version = SnapshotImpl
     \<lparr>blockchainStore = store, sealed = False, blockVersion = version,
      txRWSetTable = [], txTable = [], specialTxTable = [], txResultMap = Map.empty,
      readTable = newShardSet, writeTable = newShardSet\<rparr> None"

definition SetPreSnapshot :: "SnapshotImpl option \<Rightarrow> SnapshotImpl \<Rightarrow> SnapshotImpl" where
  "SetPreSnapshot pre s = SnapshotImpl (snap s) pre"

definition GetSnapshotSize :: "SnapshotImpl \<Rightarrow> nat" where
  "GetSnapshotSize s = length (txTable (snap s))"

definition GetTxTable :: "SnapshotImpl \<Rightarrow> Transaction list" where
  "GetTxTable s = txTable (snap s)"

definition GetSpecialTxTable :: "SnapshotImpl \<Rightarrow> Transaction list" where
  "GetSpecialTxTable s = specialTxTable (snap s)"

definition GetTxResultMap :: "SnapshotImpl \<Rightarrow> string \<rightharpoonup> Result option" where
  "GetTxResultMap s = txResultMap (snap s)"

definition GetTxRWSetTable :: "SnapshotImpl \<Rightarrow> TxRWSet list" where
  "GetTxRWSetTable s = txRWSetTable (snap s)"

definition IsSealed :: "SnapshotImpl \<Rightarrow> bool" where
  "IsSealed s = sealed (snap s)"

definition Seal :: "SnapshotImpl \<Rightarrow> SnapshotImpl" where
  "Seal = map_snap (\<lambda>d. d\<lparr>sealed := True\<rparr>)"

section \<open>Reads\<close>

text \<open>
  A key is looked up in the write table, the read table, the chain of previous snapshots (each
  of which falls back to its own store; the walk goes on only past an error) and the store.
\<close>

lemma size_preSnapshot [termination_simp]: "size_option size (preSnapshot p) < size p"
  by (cases p) simp

fun GetKey :: "SnapshotImpl \<Rightarrow> view"
  and GetKey_iter :: "SnapshotImpl option \<Rightarrow> string \<Rightarrow> string \<Rightarrow> bytes option" where
  "GetKey (SnapshotImpl d pre) contractName key =
     (let finalKey = constructKey contractName key in
      case getByLock (writeTable d) finalKey of
        Some e \<Rightarrow> Inr (sv_value e)
      | None \<Rightarrow>
          (case getByLock (readTable d) finalKey of
             Some e \<Rightarrow> Inr (sv_value e)
           | None \<Rightarrow>
               (case GetKey_iter pre contractName key of
                  Some v \<Rightarrow> Inr v
                | None \<Rightarrow> ReadObject (blockchainStore d) contractName key)))"
| "GetKey_iter None contractName key = None"
| "GetKey_iter (Some p) contractName key =
     (case GetKey p contractName key of
        Inr v \<Rightarrow> Some v
      | Inl _ \<Rightarrow> GetKey_iter (preSnapshot p) contractName key)"

text \<open>Batch reads.\<close>

record BatchKey =
  bk_Key :: string
  bk_Field :: string
  bk_Value :: bytes
  bk_ContractName :: string

definition GetKeyStr :: "string \<Rightarrow> string \<Rightarrow> string" where
  "GetKeyStr key field = (if field = [] then key else key @ ''#'' @ field)"

abbreviation bkey :: "BatchKey \<Rightarrow> string" where
  "bkey k \<equiv> GetKeyStr (bk_Key k) (bk_Field k)"

fun getBatchFromTable :: "ShardSet \<Rightarrow> BatchKey list \<Rightarrow> BatchKey list \<times> BatchKey list" where
  "getBatchFromTable t [] = ([], [])"
| "getBatchFromTable t (k # ks) =
     (let (found, missing) = getBatchFromTable t ks in
      case getByLock t (constructKey (bk_ContractName k) (bkey k)) of
        Some e \<Rightarrow> (k\<lparr>bk_Value := sv_value e\<rparr> # found, missing)
      | None \<Rightarrow> (found, k # missing))"

definition getBatchFromWriteSet ::
    "snap_data \<Rightarrow> BatchKey list \<Rightarrow> BatchKey list \<times> BatchKey list \<times> bool" where
  "getBatchFromWriteSet d keys =
     (let (found, missing) = getBatchFromTable (writeTable d) keys
      in (found, missing, missing = []))"

definition getBatchFromReadSet ::
    "snap_data \<Rightarrow> BatchKey list \<Rightarrow> BatchKey list \<times> BatchKey list \<times> bool" where
  "getBatchFromReadSet d keys =
     (let (found, missing) = getBatchFromTable (readTable d) keys
      in (found, missing, missing = []))"

definition getObjects :: "snap_data \<Rightarrow> BatchKey list \<Rightarrow> string + BatchKey list" where
  "getObjects d keys =
     (let contractName = (case keys of [] \<Rightarrow> [] | k # _ \<Rightarrow> bk_ContractName k) in
      case ReadObjects (blockchainStore d) contractName (map bkey keys) of
        Inl e \<Rightarrow> Inl e
      | Inr vals \<Rightarrow> Inr (map2 (\<lambda>k v. k\<lparr>bk_Value := v\<rparr>) keys vals))"

fun GetKeys :: "SnapshotImpl \<Rightarrow> BatchKey list \<Rightarrow> string + BatchKey list"
  and GetKeys_iter :: "SnapshotImpl option \<Rightarrow> BatchKey list \<Rightarrow> BatchKey list option" where
  "GetKeys (SnapshotImpl d pre) keys =
     (let (writeSetValues, emptyWriteSetKeys, done) = getBatchFromWriteSet d keys in
      if done then Inr writeSetValues
      else
       (let (readSetValues, emptyReadSetKeys, done') = getBatchFromReadSet d emptyWriteSetKeys in
        if done' then Inr (readSetValues @ writeSetValues)
        else
         (case GetKeys_iter pre emptyReadSetKeys of
            Some value \<Rightarrow> Inr (value @ readSetValues @ writeSetValues)
          | None \<Rightarrow>
              (case getObjects d emptyReadSetKeys of
                 Inl e \<Rightarrow> Inl e
               | Inr objects \<Rightarrow> Inr (objects @ readSetValues @ writeSetValues)))))"
| "GetKeys_iter None keys = None"
| "GetKeys_iter (Some p) keys =
     (case GetKeys p keys of
        Inr value \<Rightarrow> Some value
      | Inl _ \<Rightarrow> GetKeys_iter (preSnapshot p) keys)"

section \<open>Applying transactions\<close>

definition put_all :: "nat \<Rightarrow> (string \<times> bytes) list \<Rightarrow> ShardSet \<Rightarrow> ShardSet" where
  "put_all n kvs t = fold (\<lambda>(k, v). putByLock k v) (map (\<lambda>(k, b). (k, \<lparr>seq = n, sv_value = b\<rparr>)) kvs) t"

definition buildKVMaps :: "TxRWSet \<Rightarrow> (string \<times> bytes) list \<times> (string \<times> bytes) list" where
  "buildKVMaps rw =
     (fold (\<lambda>r m. AList.update (rkey r) (r_Value r) m) (TxReads rw) [],
      fold (\<lambda>w m. AList.update (wkey w) (w_Value w) m) (TxWrites rw) [])"

definition applyOptimize ::
    "Transaction \<Rightarrow> TxRWSet \<Rightarrow> Result option \<Rightarrow> bool \<Rightarrow> (string \<times> bytes) list \<Rightarrow>
     (string \<times> bytes) list \<Rightarrow> SnapshotImpl \<Rightarrow> SnapshotImpl" where
  "applyOptimize tx rw res runVmSuccess finalReadKvs finalWriteKvs = map_snap (\<lambda>d.
     let applySeq = length (txTable d) in
     d\<lparr>readTable := (if blockVersion d < 2201 \<or> runVmSuccess
                      then put_all applySeq finalReadKvs (readTable d) else readTable d),
       writeTable := put_all applySeq finalWriteKvs (writeTable d),
       txRWSetTable := txRWSetTable d @ [rw],
       txResultMap := (txResultMap d)(TxId tx \<mapsto> res),
       txTable := txTable d @ [tx]\<rparr>)"

definition apply_tx ::
    "Transaction \<Rightarrow> TxRWSet \<Rightarrow> Result option \<Rightarrow> bool \<Rightarrow> SnapshotImpl \<Rightarrow> SnapshotImpl" where
  "apply_tx tx rw res runVmSuccess = map_snap (\<lambda>d.
     let applySeq = length (txTable d) in
     d\<lparr>readTable := (if blockVersion d < 2201 \<or> runVmSuccess
                      then put_all applySeq (map (\<lambda>r. (rkey r, r_Value r)) (TxReads rw)) (readTable d)
                      else readTable d),
       writeTable := put_all applySeq (map wkv (TxWrites rw)) (writeTable d),
       txRWSetTable := txRWSetTable d @ [rw],
       txResultMap := (txResultMap d)(TxId tx \<mapsto> res),
       txTable := txTable d @ [tx]\<rparr>)"

definition SZContractList :: "string list" where
  "SZContractList = [''REAL_ESTATE'', ''RECEPIT'', ''DECLARATION'', ''EXPORT_REBATE'',
     ''SOCIAL_SECURITY'', ''ENDORSEMENT'']"

text \<open>The dependent state has been modified since the transaction started executing.\<close>

definition key_conflicted :: "SnapshotImpl \<Rightarrow> nat \<Rightarrow> string \<Rightarrow> bool" where
  "key_conflicted s txExecSeq finalKey =
     (case getByLock (writeTable (snap s)) finalKey of
        Some e \<Rightarrow> seq e \<ge> txExecSeq
      | None \<Rightarrow> False)"

definition dealSZTx ::
    "TxSimContext \<Rightarrow> ExecOrderTxType \<Rightarrow> bool \<Rightarrow> bool \<Rightarrow> Transaction \<Rightarrow> SnapshotImpl \<Rightarrow>
     (bool \<times> nat) \<times> SnapshotImpl" where
  "dealSZTx sim specialTxType runVmSuccess applySpecialTx tx s =
     (if \<not> applySpecialTx \<and> IsSealed s then ((False, GetSnapshotSize s), s)
      else if \<not> applySpecialTx \<and> specialTxType = ExecOrderTxTypeSpecial then
        (let s' = map_snap (\<lambda>d. d\<lparr>specialTxTable := specialTxTable d @ [tx]\<rparr>) s
         in ((True, GetSnapshotSize s' + length (GetSpecialTxTable s')), s'))
      else
        (let rw = sim_GetTxRWSet sim runVmSuccess;
             res = sim_GetTxResult sim;
             s' = apply_tx tx rw res runVmSuccess s
         in if specialTxType = ExecOrderTxTypeSpecial \<or> sim_txExecSeq sim \<ge> GetSnapshotSize s
            then ((True, GetSnapshotSize s'), s')
            else if list_ex (\<lambda>r. key_conflicted s (sim_txExecSeq sim) (rkey r)) (TxReads rw)
            then ((False, GetSnapshotSize s), s)
            else ((True, GetSnapshotSize s'), s')))"

text \<open>The part of \<^verbatim>\<open>applyNormalTxSimContext\<close> that runs under the snapshot's lock.\<close>

definition applyNormal_locked ::
    "Transaction \<Rightarrow> TxSimContext \<Rightarrow> bool \<Rightarrow> SnapshotImpl \<Rightarrow> (bool \<times> nat) \<times> SnapshotImpl" where
  "applyNormal_locked tx sim runVmSuccess s =
     (let rw = sim_GetTxRWSet sim runVmSuccess;
          (finalReadKvs, finalWriteKvs) = buildKVMaps rw;
          s' = applyOptimize tx rw (sim_GetTxResult sim) runVmSuccess finalReadKvs finalWriteKvs s
      in if IsSealed s then ((False, GetSnapshotSize s), s)
         else if sim_txExecSeq sim \<ge> GetSnapshotSize s
         then ((True, GetSnapshotSize s' + length (GetSpecialTxTable s')), s')
         else if list_ex (\<lambda>(k, _). key_conflicted s (sim_txExecSeq sim) k) finalReadKvs
         then ((False, GetSnapshotSize s + length (GetSpecialTxTable s)), s)
         else ((True, GetSnapshotSize s' + length (GetSpecialTxTable s')), s'))"

definition applyNormalTxSimContext ::
    "Transaction \<Rightarrow> TxSimContext \<Rightarrow> bool \<Rightarrow> SnapshotImpl \<Rightarrow> (bool \<times> nat) \<times> SnapshotImpl" where
  "applyNormalTxSimContext tx sim runVmSuccess s =
     (if p_ContractName (tx_Payload tx) \<in> set SZContractList
      then dealSZTx sim ExecOrderTxTypeNormal runVmSuccess False tx s
      else if IsSealed s then ((False, GetSnapshotSize s), s)
      else if list_ex (\<lambda>r. key_conflicted s (sim_txExecSeq sim) (rkey r))
                (TxReads (sim_GetTxRWSet sim runVmSuccess))
      then ((False, GetSnapshotSize s + length (GetSpecialTxTable s)), s)
      else applyNormal_locked tx sim runVmSuccess s)"

definition applyIteratorFirstRun ::
    "Transaction \<Rightarrow> SnapshotImpl \<Rightarrow> (bool \<times> nat) \<times> SnapshotImpl" where
  "applyIteratorFirstRun tx s =
     (if IsSealed s then ((False, GetSnapshotSize s), s)
      else
        (let s' = map_snap (\<lambda>d. d\<lparr>specialTxTable := specialTxTable d @ [tx]\<rparr>) s
         in ((True, GetSnapshotSize s' + length (GetSpecialTxTable s')), s')))"

definition applyIteratorSecondRun ::
    "Transaction \<Rightarrow> TxSimContext \<Rightarrow> bool \<Rightarrow> SnapshotImpl \<Rightarrow> (bool \<times> nat) \<times> SnapshotImpl" where
  "applyIteratorSecondRun tx sim runVmSuccess s =
     (let rw = sim_GetTxRWSet sim runVmSuccess;
          (finalReadKvs, finalWriteKvs) = buildKVMaps rw;
          s' = applyOptimize tx rw (sim_GetTxResult sim) runVmSuccess finalReadKvs finalWriteKvs s
      in ((True, GetSnapshotSize s'), s'))"

definition applyGasTxSimContext ::
    "Transaction \<Rightarrow> TxSimContext \<Rightarrow> bool \<Rightarrow> SnapshotImpl \<Rightarrow> (bool \<times> nat) \<times> SnapshotImpl" where
  "applyGasTxSimContext tx sim runVmSuccess s =
     (let rw = sim_GetTxRWSet sim runVmSuccess;
          (finalReadKvs, finalWriteKvs) = buildKVMaps rw;
          s' = applyOptimize tx rw (sim_GetTxResult sim) runVmSuccess finalReadKvs finalWriteKvs s
      in ((True, GetSnapshotSize s'), s'))"

definition ApplyTxSimContext ::
    "TxSimContext \<Rightarrow> ExecOrderTxType \<Rightarrow> bool \<Rightarrow> bool \<Rightarrow> SnapshotImpl \<Rightarrow>
     (bool \<times> nat) \<times> SnapshotImpl" where
  "ApplyTxSimContext sim specialTxType runVmSuccess applySpecialTx s =
     (let tx = sim_tx sim in
      if \<not> applySpecialTx \<and> specialTxType = ExecOrderTxTypeSpecial
      then applyIteratorFirstRun tx s
      else if applySpecialTx \<and> specialTxType = ExecOrderTxTypeSpecial
      then applyIteratorSecondRun tx sim runVmSuccess s
      else if specialTxType = ExecOrderTxTypeChargeGas
      then applyGasTxSimContext tx sim runVmSuccess s
      else applyNormalTxSimContext tx sim runVmSuccess s)"

text \<open>
  Applying a whole block. \<open>None\<close> is the nil dereference of a transaction without read-write
  set or without result.
\<close>

fun ApplyBlock_loop ::
    "Transaction list \<Rightarrow> (string \<times> TxRWSet) list \<Rightarrow> SnapshotImpl \<Rightarrow> SnapshotImpl option" where
  "ApplyBlock_loop [] m s = Some s"
| "ApplyBlock_loop (tx # txs) m s =
     (case (map_of m (TxId tx), tx_Result tx) of
        (Some rw, Some res) \<Rightarrow>
          ApplyBlock_loop txs m (apply_tx tx rw (Some res) (res_Code res = SUCCESS) s)
      | _ \<Rightarrow> None)"

definition ApplyBlock ::
    "Transaction list \<Rightarrow> (string \<times> TxRWSet) list \<Rightarrow> SnapshotImpl \<Rightarrow> SnapshotImpl option" where
  "ApplyBlock txs txRWSetMap s =
     (if length txs \<noteq> length txRWSetMap then Some s else ApplyBlock_loop txs txRWSetMap s)"

section \<open>Bulk application of writes\<close>

definition worker_batches :: "TxWrite list \<Rightarrow> TxWrite list list" where
  "worker_batches ws =
     (let n = length ws; batchSize = (n + 8 - 1) div 8
      in map (\<lambda>i. take batchSize (drop (i * batchSize) ws))
             (takeWhile (\<lambda>i. i * batchSize < n) [0..<8]))"

definition ApplyWritesToWriteTable ::
    "go_runtime \<Rightarrow> TxWrite list \<Rightarrow> SnapshotImpl \<Rightarrow> SnapshotImpl" where
  "ApplyWritesToWriteTable rt ws s =
     (if IsSealed s then s
      else map_snap (\<lambda>d.
        let applySeq = length (txTable d) in
        if length ws < 50
        then d\<lparr>writeTable := put_all applySeq (map wkv ws) (writeTable d)\<rparr>
        else d\<lparr>writeTable :=
                 put_all applySeq (map wkv (interleave rt (worker_batches ws))) (writeTable d)\<rparr>) s)"

section \<open>The view of a snapshot\<close>

lemma snap_map_snap [simp]: "snap (map_snap f s) = f (snap s)"
  by (simp add: map_snap_def)

lemma preSnapshot_map_snap [simp]: "preSnapshot (map_snap f s) = preSnapshot s"
  by (simp add: map_snap_def)

lemma shard_inv_put_all [intro]: "shard_inv t \<Longrightarrow> shard_inv (put_all n kvs t)"
  unfolding put_all_def by (rule shard_kv.inv_put_all)

lemma getByLock_put_all [table_simps]:
  "shard_inv t \<Longrightarrow> getByLock (put_all n kvs t) =
     getByLock t ++ (map_option (\<lambda>b. \<lparr>seq = n, sv_value = b\<rparr>) \<circ> map_of (rev kvs))"
proof -
  have "map_of (rev (map (\<lambda>(k, b). (k, \<lparr>seq = n, sv_value = b\<rparr>)) kvs)) =
      map_option (\<lambda>b. \<lparr>seq = n, sv_value = b\<rparr>) \<circ> map_of (rev kvs)"
    by (simp add: rev_map map_of_map [symmetric])
  then show "shard_inv t \<Longrightarrow> ?thesis"
    by (simp add: put_all_def shard_kv.get_put_all)
qed

text \<open>What a snapshot shows below its write table.\<close>

definition under_writes :: "SnapshotImpl \<Rightarrow> view" where
  "under_writes s c k =
     (case getByLock (readTable (snap s)) (constructKey c k) of
        Some e \<Rightarrow> Inr (sv_value e)
      | None \<Rightarrow>
          (case GetKey_iter (preSnapshot s) c k of
             Some v \<Rightarrow> Inr v
           | None \<Rightarrow> ReadObject (blockchainStore (snap s)) c k))"

lemma GetKey_layers:
  "GetKey s c k =
     (case getByLock (writeTable (snap s)) (constructKey c k) of
        Some e \<Rightarrow> Inr (sv_value e)
      | None \<Rightarrow> under_writes s c k)"
  by (cases s) (auto simp: under_writes_def Let_def split: option.splits)

text \<open>
  A change of the write table alone that puts \<open>kvs\<close> shows in the view as the writes \<open>ws\<close> with
  the same bindings.
\<close>

lemma GetKey_put_writes:
  assumes "shard_inv (writeTable (snap s))"
    and "writeTable (snap s') = put_all n kvs (writeTable (snap s))"
    and "map_of (rev kvs) = map_of (rev (map wkv ws))"
    and "under_writes s' = under_writes s"
  shows "GetKey s' = apply_writes (GetKey s) ws"
  using assms
  by (auto simp: fun_eq_iff GetKey_layers apply_writes_def getByLock_put_all map_add_def
      split: option.splits)

lemma under_writes_cong:
  assumes "readTable (snap s') = readTable (snap s)"
    and "preSnapshot s' = preSnapshot s"
    and "blockchainStore (snap s') = blockchainStore (snap s)"
  shows "under_writes s' = under_writes s"
  using assms by (auto simp: fun_eq_iff under_writes_def split: option.splits)

lemma worker_batches_concat: "concat (worker_batches ws) = ws"
proof -
  have chunks: "concat (map (\<lambda>i. take b (drop (i * b) ws)) [0..<m]) = take (m * b) ws" for b m
  proof (induction m)
    case (Suc m)
    then show ?case by (simp add: take_add [symmetric] add.commute)
  qed simp
  have takeW: "concat (map (\<lambda>i. take b (drop (i * b) ws)) (takeWhile (\<lambda>i. i * b < length ws) is))
      = concat (map (\<lambda>i. take b (drop (i * b) ws)) is)" if "sorted is" for b "is"
    using that
  proof (induction "is")
    case (Cons i "is")
    show ?case
    proof (cases "i * b < length ws")
      case False
      have "drop (j * b) ws = []" if "j \<in> set (i # is)" for j
      proof -
        have "i * b \<le> j * b"
          using that Cons.prems by (intro mult_le_mono1) auto
        with False have "length ws \<le> j * b" by linarith
        then show ?thesis by simp
      qed
      with False show ?thesis by simp
    qed (use Cons in simp)
  qed simp
  define b where "b = (length ws + 8 - 1) div 8"
  have "length ws \<le> 8 * b"
    unfolding b_def by linarith
  then show ?thesis
    using takeW [of "[0..<8]" b] chunks [of b 8]
    unfolding worker_batches_def Let_def b_def [symmetric]
    by (simp del: upt_rec_numeral)
qed

lemma ApplyWrites_refines:
  assumes "wf_runtime rt" and "shard_inv (writeTable (snap s))" and "\<not> IsSealed s"
    and "distinct (map wkey ws)"
  shows "GetKey (ApplyWritesToWriteTable rt ws s) = apply_writes (GetKey s) ws"
proof -
  define us where "us = (if length ws < 50 then ws else interleave rt (worker_batches ws))"
  have m: "mset us = mset ws"
    using assms(1) by (simp add: us_def wf_runtime_def worker_batches_concat)
  have "map_of (rev (map wkv us)) = map_of (rev (map wkv ws))"
    using m assms(4)
    by (intro map_of_mset_eq [symmetric]) (simp_all add: rev_map [symmetric] comp_def)
  moreover have "writeTable (snap (ApplyWritesToWriteTable rt ws s)) =
      put_all (length (txTable (snap s))) (map wkv us) (writeTable (snap s))"
    using assms(3) by (simp add: ApplyWritesToWriteTable_def us_def Let_def)
  moreover have "under_writes (ApplyWritesToWriteTable rt ws s) = under_writes s"
    using assms(3) by (intro under_writes_cong) (auto simp: ApplyWritesToWriteTable_def Let_def)
  ultimately show ?thesis
    using assms(2) by (intro GetKey_put_writes)
qed

section \<open>Invariant\<close>

definition wf_snap :: "SnapshotImpl \<Rightarrow> bool" where
  "wf_snap s \<longleftrightarrow>
     shard_inv (readTable (snap s)) \<and> shard_inv (writeTable (snap s)) \<and>
     length (txRWSetTable (snap s)) = length (txTable (snap s)) \<and>
     dom (txResultMap (snap s)) = TxId ` set (txTable (snap s)) \<and>
     (\<forall>k e. getByLock (writeTable (snap s)) k = Some e \<longrightarrow> seq e \<le> length (txTable (snap s)))"

lemma wf_makeSnapshotImpl [simp]: "wf_snap (makeSnapshotImpl st ver)"
  by (simp add: wf_snap_def makeSnapshotImpl_def shard_kv.inv_empty shard_kv.get_empty)

lemma seq_put_all:
  assumes "shard_inv t" and "\<And>e. getByLock t k = Some e \<Longrightarrow> seq e \<le> n"
    and "getByLock (put_all n kvs t) k = Some e"
  shows "seq e \<le> n"
  using assms by (auto simp: getByLock_put_all map_add_def split: option.splits)

lemma wf_applyOptimize [intro]:
  "wf_snap s \<Longrightarrow> wf_snap (applyOptimize tx rw res ok rkvs wkvs s)"
  by (auto simp: wf_snap_def applyOptimize_def Let_def dest!: seq_put_all [rotated 2] intro: le_SucI)

lemma wf_apply_tx [intro]: "wf_snap s \<Longrightarrow> wf_snap (apply_tx tx rw res ok s)"
  by (auto simp: wf_snap_def apply_tx_def Let_def dest!: seq_put_all [rotated 2] intro: le_SucI)

lemma wf_special [intro]:
  "wf_snap s \<Longrightarrow> wf_snap (map_snap (\<lambda>d. d\<lparr>specialTxTable := specialTxTable d @ [tx]\<rparr>) s)"
  by (simp add: wf_snap_def)

lemma wf_Seal [intro]: "wf_snap s \<Longrightarrow> wf_snap (Seal s)"
  by (simp add: wf_snap_def Seal_def)

lemma wf_SetPreSnapshot [intro]: "wf_snap s \<Longrightarrow> wf_snap (SetPreSnapshot pre s)"
  by (simp add: wf_snap_def SetPreSnapshot_def)

lemma wf_ApplyWrites [intro]: "wf_snap s \<Longrightarrow> wf_snap (ApplyWritesToWriteTable rt ws s)"
  by (auto simp: wf_snap_def ApplyWritesToWriteTable_def Let_def dest: seq_put_all [rotated 2])

lemmas apply_defs = ApplyTxSimContext_def applyNormalTxSimContext_def applyNormal_locked_def
  applyIteratorFirstRun_def applyIteratorSecondRun_def applyGasTxSimContext_def dealSZTx_def

lemma wf_ApplyTxSimContext:
  "wf_snap s \<Longrightarrow> wf_snap (snd (ApplyTxSimContext sim ty ok special s))"
  by (auto simp: apply_defs Let_def split: prod.splits)

lemma wf_ApplyBlock_loop:
  "wf_snap s \<Longrightarrow> ApplyBlock_loop txs m s = Some s' \<Longrightarrow> wf_snap s'"
  by (induction txs m s rule: ApplyBlock_loop.induct) (auto split: option.splits)

end
