(* ===== verification/PDCC.thy ===== *)
theory PDCC
  imports Executor Snapshot
begin

text \<open>
  The PDCC scheduler of \<^verbatim>\<open>deterministic/pdcc/pdcc_shceduler.go\<close> (type \<^verbatim>\<open>WriaScheduler\<close>). A round
  takes the first \<open>batchSize\<close> transactions of the pool, runs them all on the current snapshot,
  tags their writes with their index, aborts the transactions that read a key an earlier
  one writes, rescues those whose conflicting predecessors were all aborted, applies the merged
  writes of the committed ones and puts the aborted ones back at the head of the pool.

  The phases are definitions of their own, in the order of the code; \<open>Schedule_loop\<close> is the
  loop over rounds, \<open>None\<close> standing for a loop that never ends.
\<close>

section \<open>State\<close>

definition batchAdjustMinTxCount :: nat where
  "batchAdjustMinTxCount = 990"

definition HighBatchSizeMultiplier :: nat where
  "HighBatchSizeMultiplier = 10"

definition LowBatchSizeMultiplier :: nat where
  "LowBatchSizeMultiplier = 1"

definition batchAdjustHighToLowDiff :: int where
  "batchAdjustHighToLowDiff = 18"

definition batchAdjustLowToHighDiff :: int where
  "batchAdjustLowToHighDiff = 10"

record VersionedTxWrite =
  vw_Write :: TxWrite
  vw_Version :: nat

record txExecInfo =
  ei_tx :: Transaction
  ei_txResult :: "Result option"
  ei_txRWSet :: TxRWSet
  ei_txReadSet :: "TxRead list"
  ei_txWriteSetWithVersion :: "VersionedTxWrite list"
  ei_originalIndex :: nat
  ei_rwSetCount :: nat

type_synonym MasterWriteSet = "string \<rightharpoonup> VersionedTxWrite list"

record WriaScheduler =
  ws_txRWSetMap :: "(string \<times> TxRWSet) list"
  ws_batchSize :: nat
  ws_highBatchSize :: nat
  ws_lowBatchSize :: nat

definition NewWriaScheduler :: "nat \<Rightarrow> WriaScheduler" where
  "NewWriaScheduler numCPU =
     \<lparr>ws_txRWSetMap = [], ws_batchSize = numCPU * HighBatchSizeMultiplier,
      ws_highBatchSize = numCPU * HighBatchSizeMultiplier,
      ws_lowBatchSize = numCPU * LowBatchSizeMultiplier\<rparr>"

section \<open>The phases of a round\<close>

text \<open>Phase 1: the first \<open>batchSize\<close> transactions, and the rest of the pool.\<close>

definition select_txs :: "nat \<Rightarrow> Transaction list \<Rightarrow> Transaction list \<times> Transaction list" where
  "select_txs wsBatchSize txBatch =
     (let batchSize = (if wsBatchSize > length txBatch then length txBatch else wsBatchSize)
      in (take batchSize txBatch, drop batchSize txBatch))"

text \<open>Phase 2: every transaction runs on the same snapshot; goroutine \<open>idx\<close> fills slot \<open>idx\<close>.\<close>

definition exec_info :: "exec_fun \<Rightarrow> SnapshotImpl \<Rightarrow> nat \<Rightarrow> Transaction \<Rightarrow> txExecInfo" where
  "exec_info ex snapshot idx transaction =
     (let (txRWSet, res) = ex (GetKey snapshot) transaction
      in \<lparr>ei_tx = transaction, ei_txResult = res, ei_txRWSet = txRWSet,
          ei_txReadSet = TxReads txRWSet, ei_txWriteSetWithVersion = [],
          ei_originalIndex = idx,
          ei_rwSetCount = length (TxReads txRWSet) + length (TxWrites txRWSet)\<rparr>)"

definition execute_txs :: "exec_fun \<Rightarrow> SnapshotImpl \<Rightarrow> Transaction list \<Rightarrow> txExecInfo list" where
  "execute_txs ex snapshot selectedTxs =
     map2 (exec_info ex snapshot) [0..<length selectedTxs] selectedTxs"

text \<open>Phase 3: version tagging.\<close>

definition tag_versions :: "txExecInfo list \<Rightarrow> txExecInfo list" where
  "tag_versions execInfos =
     map2 (\<lambda>txIndex info. info\<lparr>ei_txWriteSetWithVersion :=
             map (\<lambda>w. \<lparr>vw_Write = w, vw_Version = txIndex\<rparr>) (TxWrites (ei_txRWSet info))\<rparr>)
          [0..<length execInfos] execInfos"

text \<open>Phase 4: write-set merging; the versions of a key are appended in index order.\<close>

definition masterWS_append :: "VersionedTxWrite \<Rightarrow> MasterWriteSet \<Rightarrow> MasterWriteSet" where
  "masterWS_append vw masterWS =
     (let key = w_Key (vw_Write vw)
      in masterWS(key \<mapsto> (case masterWS key of None \<Rightarrow> [] | Some vs \<Rightarrow> vs) @ [vw]))"

definition merge_writes :: "txExecInfo list \<Rightarrow> MasterWriteSet" where
  "merge_writes execInfos =
     fold (\<lambda>info m. fold masterWS_append (ei_txWriteSetWithVersion info) m) execInfos Map.empty"

text \<open>Phase 5: conflict detection.\<close>

definition record_conflict ::
    "VersionedTxWrite \<Rightarrow> (nat \<Rightarrow> bool) \<times> nat list \<Rightarrow> (nat \<Rightarrow> bool) \<times> nat list" where
  "record_conflict vw st =
     (let (conflictMap, conflictingTxs) = st; txIdx = vw_Version vw
      in if \<not> conflictMap txIdx
         then (conflictMap(txIdx := True), conflictingTxs @ [txIdx])
         else (conflictMap, conflictingTxs))"

definition isRAWConflictWithDeps ::
    "nat \<Rightarrow> TxRead list \<Rightarrow> MasterWriteSet \<Rightarrow> bool \<times> nat list" where
  "isRAWConflictWithDeps txIndex readSet masterWS =
     (let (_, conflictingTxs) = fold (\<lambda>r st.
             case masterWS (r_Key r) of
               None \<Rightarrow> st
             | Some versionedWrites \<Rightarrow>
                 fold record_conflict
                   (takeWhile (\<lambda>vw. \<not> vw_Version vw \<ge> txIndex) versionedWrites) st)
           readSet (\<lambda>_. False, [])
      in (length conflictingTxs > 0, conflictingTxs))"

definition detect_conflicts :: "txExecInfo list \<Rightarrow> MasterWriteSet \<Rightarrow> bool list \<times> nat list list" where
  "detect_conflicts execInfos masterWS =
     fold (\<lambda>txIndex (abortFlags, conflictDeps).
        let (hasConflict, conflictingTxs) =
              isRAWConflictWithDeps txIndex (ei_txReadSet (execInfos ! txIndex)) masterWS
        in if hasConflict
           then (abortFlags[txIndex := True], conflictDeps[txIndex := conflictingTxs])
           else (abortFlags, conflictDeps))
       [0..<length execInfos]
       (replicate (length execInfos) False, replicate (length execInfos) [])"

text \<open>Phase 6: re-validation.\<close>

fun recheckTransaction :: "nat list \<Rightarrow> bool list \<Rightarrow> bool" where
  "recheckTransaction [] abortFlags = True"
| "recheckTransaction (conflictTxIdx # conflictingTxs) abortFlags =
     (if \<not> abortFlags ! conflictTxIdx then False
      else recheckTransaction conflictingTxs abortFlags)"

definition rechecking :: "txExecInfo list \<Rightarrow> bool list \<Rightarrow> nat list list \<Rightarrow> bool list" where
  "rechecking execInfos abortFlags conflictDeps =
     fold (\<lambda>txIndex flags.
        if \<not> flags ! txIndex then flags
        else if recheckTransaction (conflictDeps ! txIndex) flags
        then flags[txIndex := False]
        else flags)
       [0..<length execInfos] abortFlags"

text \<open>Phase 7: commit.\<close>

definition commit_info ::
    "txExecInfo \<Rightarrow> (string \<times> TxRWSet) list \<times> (string \<times> TxWrite) list \<Rightarrow>
     (string \<times> TxRWSet) list \<times> (string \<times> TxWrite) list" where
  "commit_info info st =
     (let (txRWSetMap, mergedWrites) = st; rw = ei_txRWSet info
      in (AList.update (rw_TxId rw) rw txRWSetMap,
          fold (\<lambda>w m. AList.update (w_Key w) w m) (TxWrites rw) mergedWrites))"

definition commit_writes ::
    "txExecInfo list \<Rightarrow> bool list \<Rightarrow> (string \<times> TxRWSet) list \<Rightarrow>
     (string \<times> TxRWSet) list \<times> (string \<times> TxWrite) list" where
  "commit_writes execInfos abortFlags txRWSetMap =
     fold (\<lambda>(info, aborted) st. if aborted then st else commit_info info st)
       (zip execInfos abortFlags) (txRWSetMap, [])"

definition apply_merged ::
    "go_runtime \<Rightarrow> (string \<times> TxWrite) list \<Rightarrow> SnapshotImpl \<Rightarrow> SnapshotImpl" where
  "apply_merged rt mergedWrites snapshot =
     (if length mergedWrites > 0
      then ApplyWritesToWriteTable rt (map_order rt (map snd mergedWrites)) snapshot
      else snapshot)"

text \<open>Phase 8: the committed transactions join the block, the aborted ones the head of the pool.\<close>

definition reset_txs ::
    "txExecInfo list \<Rightarrow> bool list \<Rightarrow> Transaction list \<times> Transaction list" where
  "reset_txs execInfos abortFlags =
     (map (\<lambda>(info, _). ei_tx info) (filter (\<lambda>(_, aborted). aborted) (zip execInfos abortFlags)),
      map (\<lambda>(info, _). (ei_tx info)\<lparr>tx_Result := ei_txResult info\<rparr>)
        (filter (\<lambda>(_, aborted). \<not> aborted) (zip execInfos abortFlags)))"

section \<open>Rounds\<close>

record pdcc_state =
  st_txBatch :: "Transaction list"
  st_blockTxs :: "Transaction list"
  st_txRWSetMap :: "(string \<times> TxRWSet) list"
  st_snapshot :: SnapshotImpl
  st_roundCommittedTxs :: "nat list"

definition round_flags :: "txExecInfo list \<Rightarrow> bool list" where
  "round_flags execInfos =
     (let masterWS = merge_writes execInfos;
          (abortFlags, conflictDeps) = detect_conflicts execInfos masterWS
      in rechecking execInfos abortFlags conflictDeps)"

definition pdcc_round :: "go_runtime \<Rightarrow> exec_fun \<Rightarrow> nat \<Rightarrow> pdcc_state \<Rightarrow> pdcc_state" where
  "pdcc_round rt ex batchSize st =
     (let (selectedTxs, rest) = select_txs batchSize (st_txBatch st);
          execInfos = tag_versions (execute_txs ex (st_snapshot st) selectedTxs);
          abortFlags = round_flags execInfos;
          (txRWSetMap, mergedWrites) = commit_writes execInfos abortFlags (st_txRWSetMap st);
          snapshot = apply_merged rt mergedWrites (st_snapshot st);
          (abortedTxs, committed) = reset_txs execInfos abortFlags
      in \<lparr>st_txBatch = (if length abortedTxs > 0 then abortedTxs @ rest else rest),
          st_blockTxs = st_blockTxs st @ committed,
          st_txRWSetMap = txRWSetMap,
          st_snapshot = snapshot,
          st_roundCommittedTxs = st_roundCommittedTxs st @ [length committed]\<rparr>)"

partial_function (option) Schedule_loop ::
    "go_runtime \<Rightarrow> exec_fun \<Rightarrow> nat \<Rightarrow> nat \<Rightarrow> pdcc_state \<Rightarrow> (nat \<times> pdcc_state) option" where
  "Schedule_loop rt ex batchSize roundNum st =
     (if \<not> length (st_txBatch st) > 0 then Some (roundNum, st)
      else if timed_out rt (roundNum + 1) then Some (roundNum + 1, st)
      else Schedule_loop rt ex batchSize (roundNum + 1) (pdcc_round rt ex batchSize st))"

section \<open>Block level\<close>

definition adjustBatchSize :: "nat \<Rightarrow> nat \<Rightarrow> WriaScheduler \<Rightarrow> WriaScheduler" where
  "adjustBatchSize blockTxCount actualRoundNum ws =
     (if blockTxCount < batchAdjustMinTxCount then ws
      else
        let baseRound = (blockTxCount + ws_batchSize ws - 1) div ws_batchSize ws;
            diff = int actualRoundNum - int baseRound;
            newBatchSize =
              (if ws_batchSize ws = ws_highBatchSize ws
               then (if diff \<ge> batchAdjustHighToLowDiff then ws_lowBatchSize ws else ws_batchSize ws)
               else if ws_batchSize ws = ws_lowBatchSize ws
               then (if diff < batchAdjustLowToHighDiff then ws_highBatchSize ws else ws_batchSize ws)
               else ws_batchSize ws)
        in if newBatchSize \<noteq> ws_batchSize ws then ws\<lparr>ws_batchSize := newBatchSize\<rparr> else ws)"

definition Schedule ::
    "go_runtime \<Rightarrow> exec_fun \<Rightarrow> WriaScheduler \<Rightarrow> Transaction list \<Rightarrow> SnapshotImpl \<Rightarrow>
     (WriaScheduler \<times> nat \<times> pdcc_state) option" where
  "Schedule rt ex ws txBatch snapshot =
     (case Schedule_loop rt ex (ws_batchSize ws) 0
             \<lparr>st_txBatch = txBatch, st_blockTxs = [], st_txRWSetMap = [],
              st_snapshot = snapshot, st_roundCommittedTxs = []\<rparr> of
        None \<Rightarrow> None
      | Some (roundNum, st) \<Rightarrow>
          Some (adjustBatchSize (length (st_blockTxs st)) roundNum
                  (ws\<lparr>ws_txRWSetMap := st_txRWSetMap st\<rparr>), roundNum, st))"

section \<open>Conflict detection and re-validation\<close>

text \<open>
  What the phases after tagging rely on: slot \<open>i\<close> carries the reads of its read-write set and
  its writes tagged \<open>i\<close>.
\<close>

definition tagged :: "txExecInfo list \<Rightarrow> bool" where
  "tagged infos \<longleftrightarrow> (\<forall>i<length infos.
     ei_txReadSet (infos ! i) = TxReads (ei_txRWSet (infos ! i)) \<and>
     ei_txWriteSetWithVersion (infos ! i) =
       map (\<lambda>w. \<lparr>vw_Write = w, vw_Version = i\<rparr>) (TxWrites (ei_txRWSet (infos ! i))))"

text \<open>Transaction \<open>i\<close> reads a key string that transaction \<open>j\<close> writes.\<close>

definition raw_on :: "txExecInfo list \<Rightarrow> nat \<Rightarrow> nat \<Rightarrow> bool" where
  "raw_on infos j i \<longleftrightarrow>
     (\<exists>w\<in>set (TxWrites (ei_txRWSet (infos ! j))). \<exists>r\<in>set (ei_txReadSet (infos ! i)). w_Key w = r_Key r)"

definition versions :: "MasterWriteSet \<Rightarrow> string \<Rightarrow> VersionedTxWrite list" where
  "versions m k = (case m k of None \<Rightarrow> [] | Some vs \<Rightarrow> vs)"

lemma versions_append:
  "versions (fold masterWS_append vws m) k = versions m k @ filter (\<lambda>vw. w_Key (vw_Write vw) = k) vws"
  by (induction vws arbitrary: m) (auto simp: masterWS_append_def versions_def Let_def)

lemma versions_merge:
  "versions (merge_writes infos) k =
     filter (\<lambda>vw. w_Key (vw_Write vw) = k) (concat (map ei_txWriteSetWithVersion infos))"
proof -
  have "versions (fold (\<lambda>info. fold masterWS_append (ei_txWriteSetWithVersion info)) infos m) k =
      versions m k @ filter (\<lambda>vw. w_Key (vw_Write vw) = k) (concat (map ei_txWriteSetWithVersion infos))"
    for m
    by (induction infos arbitrary: m) (auto simp: versions_append)
  from this [of Map.empty] show ?thesis
    by (simp add: merge_writes_def versions_def)
qed

lemma tagged_writes:
  assumes "tagged infos"
  shows "map ei_txWriteSetWithVersion infos =
    map (\<lambda>i. map (\<lambda>w. \<lparr>vw_Write = w, vw_Version = i\<rparr>) (TxWrites (ei_txRWSet (infos ! i)))) [0..<length infos]"
  using assms by (intro nth_equalityI) (auto simp: tagged_def)

lemma tagged_sorted:
  assumes "tagged infos"
  shows "sorted (map vw_Version (versions (merge_writes infos) k))"
proof -
  have "sorted (map vw_Version (concat (map (\<lambda>i. map (\<lambda>w. \<lparr>vw_Write = w, vw_Version = i\<rparr>) (f i)) [0..<n])))"
    for f n
    by (induction n) (auto simp: sorted_append map_concat comp_def map_replicate_const)
  then show ?thesis
    using assms by (simp add: versions_merge tagged_writes sorted_filter)
qed

lemma fold_record_conflict:
  assumes "fold record_conflict vws ((\<lambda>x. x \<in> set l), l) = (cm, l')"
  shows "cm = (\<lambda>x. x \<in> set l') \<and> set l' = set l \<union> vw_Version ` set vws"
  using assms
proof (induction vws arbitrary: l)
  case (Cons vw vws)
  show ?case
  proof (cases "vw_Version vw \<in> set l")
    case True
    then show ?thesis
      using Cons.IH [of l] Cons.prems by (auto simp: record_conflict_def Let_def)
  next
    case False
    then have "record_conflict vw ((\<lambda>x. x \<in> set l), l) =
        ((\<lambda>x. x \<in> set (l @ [vw_Version vw])), l @ [vw_Version vw])"
      by (auto simp: record_conflict_def Let_def fun_eq_iff)
    then show ?thesis
      using Cons.IH [of "l @ [vw_Version vw]"] Cons.prems by auto
  qed
qed auto

lemma isRAW_set:
  "set (snd (isRAWConflictWithDeps i rs m)) =
     (\<Union>r\<in>set rs. vw_Version ` set (takeWhile (\<lambda>vw. vw_Version vw < i) (versions m (r_Key r))))"
proof -
  let ?step = "\<lambda>r st. case m (r_Key r) of None \<Rightarrow> st
    | Some vws \<Rightarrow> fold record_conflict (takeWhile (\<lambda>vw. \<not> vw_Version vw \<ge> i) vws) st"
  have "fst st = (\<lambda>x. x \<in> set (snd st)) \<Longrightarrow>
      set (snd (fold ?step rs st)) = set (snd st) \<union>
        (\<Union>r\<in>set rs. vw_Version ` set (takeWhile (\<lambda>vw. vw_Version vw < i) (versions m (r_Key r))))" for st
  proof (induction rs arbitrary: st)
    case (Cons r rs)
    obtain l where st: "st = ((\<lambda>x. x \<in> set l), l)"
      using Cons.prems by (cases st) auto
    obtain cm l' where step: "?step r st = (cm, l')"
      by force
    have "cm = (\<lambda>x. x \<in> set l') \<and> set l' = set l \<union>
        vw_Version ` set (takeWhile (\<lambda>vw. vw_Version vw < i) (versions m (r_Key r)))"
      using step st
      by (auto simp: versions_def not_le dest: fold_record_conflict split: option.splits)
    moreover from this have "set (snd (fold ?step rs (cm, l'))) = set l' \<union>
        (\<Union>r\<in>set rs. vw_Version ` set (takeWhile (\<lambda>vw. vw_Version vw < i) (versions m (r_Key r))))"
      using Cons.IH [of "(cm, l')"] by simp
    moreover have "fold ?step (r # rs) st = fold ?step rs (cm, l')"
      using step by simp
    moreover have "snd st = l"
      using st by simp
    ultimately show ?case
      by (simp only: list.set UN_insert Un_assoc)
  qed simp
  from this [of "(\<lambda>_. False, [])"] show ?thesis
    by (simp add: isRAWConflictWithDeps_def split_beta Let_def)
qed

lemma takeWhile_sorted_filter:
  "sorted (map f xs) \<Longrightarrow> set (takeWhile (\<lambda>x. f x < i) xs) = {x \<in> set xs. f x < (i :: nat)}"
  by (induction xs) auto

lemma versions_writers:
  assumes "tagged infos"
  shows "vw_Version ` set (versions (merge_writes infos) k) =
    {j. j < length infos \<and> (\<exists>w\<in>set (TxWrites (ei_txRWSet (infos ! j))). w_Key w = k)}"
proof -
  have "set (versions (merge_writes infos) k) =
      {\<lparr>vw_Write = w, vw_Version = j\<rparr> | w j. j < length infos \<and>
         w \<in> set (TxWrites (ei_txRWSet (infos ! j))) \<and> w_Key w = k}"
    unfolding versions_merge tagged_writes [OF assms] by auto
  then show ?thesis by force
qed

lemma isRAW_deps:
  assumes "tagged infos" and "i < length infos"
  shows "set (snd (isRAWConflictWithDeps i (ei_txReadSet (infos ! i)) (merge_writes infos))) =
    {j. j < i \<and> raw_on infos j i}" (is "?L = ?R")
proof -
  have "?L = {j. j < i \<and> (\<exists>r\<in>set (ei_txReadSet (infos ! i)).
      j \<in> vw_Version ` set (versions (merge_writes infos) (r_Key r)))}"
    by (auto simp: isRAW_set takeWhile_sorted_filter tagged_sorted [OF assms(1)])
  also have "\<dots> = ?R"
    using assms by (auto simp: raw_on_def versions_writers)
  finally show ?thesis .
qed

lemma fold_mark:
  assumes "n \<le> N"
  shows "fold (\<lambda>i (fs, ds). if P i then (fs[i := True], ds[i := f i]) else (fs, ds)) [0..<n]
      (replicate N False, replicate N b) =
    (map (\<lambda>i. i < n \<and> P i) [0..<N], map (\<lambda>i. if i < n \<and> P i then f i else b) [0..<N])"
  using assms
proof (induction n)
  case 0
  show ?case by (simp add: map_replicate_const)
next
  case (Suc n)
  have 1: "(map (\<lambda>i. i < n \<and> P i) [0..<N])[n := True] = map (\<lambda>i. i < Suc n \<and> P i) [0..<N]"
    if "P n"
    using that Suc.prems by (intro nth_equalityI) (auto simp: nth_list_update less_Suc_eq)
  have 2: "(map (\<lambda>i. if i < n \<and> P i then f i else b) [0..<N])[n := f n] =
      map (\<lambda>i. if i < Suc n \<and> P i then f i else b) [0..<N]" if "P n"
    using that Suc.prems by (intro nth_equalityI) (auto simp: nth_list_update less_Suc_eq)
  have 3: "(i < Suc n \<and> P i) = (i < n \<and> P i)" if "\<not> P n" for i
    using that by (auto simp: less_Suc_eq)
  show ?case
    using Suc 1 2 by (cases "P n") (simp_all only: upt_Suc_append fold_append comp_def fold_simps
        split if_True if_False 3 Suc_leD simp_thms zero_le)
qed

lemma detect_conflicts_nth:
  assumes "detect_conflicts infos m = (flags, deps)"
  shows "length flags = length infos" and "length deps = length infos"
    and "i < length infos \<Longrightarrow>
      flags ! i = (deps ! i \<noteq> []) \<and> deps ! i = snd (isRAWConflictWithDeps i (ei_txReadSet (infos ! i)) m)"
proof -
  define raw where "raw = (\<lambda>i. isRAWConflictWithDeps i (ei_txReadSet (infos ! i)) m)"
  have raw_i: "isRAWConflictWithDeps i (ei_txReadSet (infos ! i)) m = raw i" for i
    by (simp add: raw_def)
  have c: "fst (raw i) = (snd (raw i) \<noteq> [])" for i
    by (simp add: raw_def isRAWConflictWithDeps_def split_beta Let_def)
  have step: "(\<lambda>txIndex (fs, ds). let (c, d) = isRAWConflictWithDeps txIndex (ei_txReadSet (infos ! txIndex)) m
        in if c then (fs[txIndex := True], ds[txIndex := d]) else (fs, ds)) =
      (\<lambda>i (fs, ds). if fst (raw i) then (fs[i := True], ds[i := snd (raw i)]) else (fs, ds))"
    by (auto simp: raw_def Let_def fun_eq_iff split: prod.splits)
  have "flags = map (\<lambda>i. i < length infos \<and> fst (raw i)) [0..<length infos]"
    "deps = map (\<lambda>i. if i < length infos \<and> fst (raw i) then snd (raw i) else []) [0..<length infos]"
    using assms unfolding detect_conflicts_def step by (simp_all add: fold_mark)
  then show "length flags = length infos" "length deps = length infos"
    "i < length infos \<Longrightarrow> flags ! i = (deps ! i \<noteq> []) \<and>
       deps ! i = snd (isRAWConflictWithDeps i (ei_txReadSet (infos ! i)) m)"
    using raw_i by (simp_all add: c)
qed

lemma recheckTransaction_iff: "recheckTransaction deps flags = (\<forall>j\<in>set deps. flags ! j)"
  by (induction deps) auto

lemma rechecking_iff:
  assumes "length flags = length infos"
    and "\<And>i. i < length infos \<Longrightarrow> flags ! i = (deps ! i \<noteq> [])"
    and "\<And>i j. i < length infos \<Longrightarrow> j \<in> set (deps ! i) \<Longrightarrow> j < i"
  shows "length (rechecking infos flags deps) = length infos"
    and "i < length infos \<Longrightarrow>
      rechecking infos flags deps ! i = (\<exists>j\<in>set (deps ! i). \<not> rechecking infos flags deps ! j)"
proof -
  let ?step = "\<lambda>i fs. if \<not> fs ! i then fs
      else if recheckTransaction (deps ! i) fs then fs[i := False] else fs"
  let ?F = "\<lambda>n. fold ?step [0..<n] flags"
  have inv: "length (?F n) = length infos \<and>
      (\<forall>i<n. ?F n ! i = (\<exists>j\<in>set (deps ! i). \<not> ?F n ! j)) \<and>
      (\<forall>i. n \<le> i \<longrightarrow> i < length infos \<longrightarrow> ?F n ! i = flags ! i)" if "n \<le> length infos" for n
    using that
  proof (induction n)
    case 0
    then show ?case using assms(1) by simp
  next
    case (Suc n)
    define F where "F = ?F n"
    have F: "length F = length infos" "F ! n = flags ! n"
        "\<And>i. i < n \<Longrightarrow> F ! i = (\<exists>j\<in>set (deps ! i). \<not> F ! j)"
        "\<And>i. n \<le> i \<Longrightarrow> i < length infos \<Longrightarrow> F ! i = flags ! i"
      using Suc unfolding F_def by auto
    have nF: "?F (Suc n) = F[n := (\<exists>j\<in>set (deps ! n). \<not> F ! j)]"
    proof (cases "flags ! n")
      case False
      then have "deps ! n = []"
        using assms(2) Suc.prems by simp
      then show ?thesis
        using False F(2) by (simp add: F_def [symmetric]) (metis list_update_id)
    next
      case True
      then show ?thesis
        using F(2) by (auto simp: F_def [symmetric] recheckTransaction_iff list_update_same_conv)
          (metis list_update_id)+
    qed
    have keep: "(\<exists>j\<in>set (deps ! i). \<not> F[n := b] ! j) = (\<exists>j\<in>set (deps ! i). \<not> F ! j)"
      if "i \<le> n" for i b
    proof -
      have "F[n := b] ! j = F ! j" if "j \<in> set (deps ! i)" for j
        using assms(3) [of i j] that \<open>i \<le> n\<close> Suc.prems by simp
      then show ?thesis by simp
    qed
    have "F[n := b] ! i = (\<exists>j\<in>set (deps ! i). \<not> F[n := b] ! j)"
      if "i < Suc n" "b = (\<exists>j\<in>set (deps ! n). \<not> F ! j)" for i b
      using that F(1,3) Suc.prems keep [of i b] by (cases "i = n") simp_all
    then show ?case
      unfolding nF using F(1,4) by simp
  qed
  have "rechecking infos flags deps = ?F (length infos)"
    by (simp add: rechecking_def)
  with inv [of "length infos"] show "length (rechecking infos flags deps) = length infos"
    and "i < length infos \<Longrightarrow>
      rechecking infos flags deps ! i = (\<exists>j\<in>set (deps ! i). \<not> rechecking infos flags deps ! j)"
    by auto
qed

text \<open>
  The outcome of phases 4 to 6: a transaction stays aborted exactly when it reads a key that a
  committed transaction before it writes.
\<close>

lemma round_flags_iff:
  assumes "tagged infos"
  shows "length (round_flags infos) = length infos"
    and "i < length infos \<Longrightarrow>
      round_flags infos ! i = (\<exists>j<i. \<not> round_flags infos ! j \<and> raw_on infos j i)"
proof -
  obtain flags deps where d: "detect_conflicts infos (merge_writes infos) = (flags, deps)"
    by force
  note nth = detect_conflicts_nth [OF d]
  have deps: "set (deps ! i) = {j. j < i \<and> raw_on infos j i}" if "i < length infos" for i
    using nth(3) [OF that] isRAW_deps [OF assms that] by simp
  have re: "round_flags infos = rechecking infos flags deps"
    by (simp add: round_flags_def Let_def d)
  have pre: "length flags = length infos"
      "\<And>i. i < length infos \<Longrightarrow> flags ! i = (deps ! i \<noteq> [])"
      "\<And>i j. i < length infos \<Longrightarrow> j \<in> set (deps ! i) \<Longrightarrow> j < i"
    using nth(1) nth(3) deps by auto
  from rechecking_iff [OF pre] deps show "length (round_flags infos) = length infos"
    and "i < length infos \<Longrightarrow>
      round_flags infos ! i = (\<exists>j<i. \<not> round_flags infos ! j \<and> raw_on infos j i)"
    unfolding re by auto
qed

section \<open>Merged writes\<close>

text \<open>
  The scheduler tells keys apart by their bare strings, the tables of the snapshot by contract
  name and key. \<open>same_keys\<close> says that the two agree on a list of writes.
\<close>

definition same_keys :: "TxWrite list \<Rightarrow> bool" where
  "same_keys ws \<longleftrightarrow> (\<forall>w\<in>set ws. \<forall>u\<in>set ws. (w_Key w = w_Key u) = (wkey w = wkey u))"

definition merged :: "TxWrite list \<Rightarrow> (string \<times> TxWrite) list" where
  "merged ws = fold (\<lambda>w m. AList.update (w_Key w) w m) ws []"

lemma merged_snoc: "merged (ws @ [w]) = AList.update (w_Key w) w (merged ws)"
  by (simp add: merged_def)

lemma set_update_distinct:
  "distinct (map fst m) \<Longrightarrow> set (AList.update k v m) = {p \<in> set m. fst p \<noteq> k} \<union> {(k, v)}"
  by (induction m) (auto simp: image_iff)

lemma merged_keys_distinct: "distinct (map fst (merged ws))"
  by (induction ws rule: rev_induct) (simp_all add: merged_snoc distinct_update, simp add: merged_def)

lemma merged_entry: "(k, w) \<in> set (merged ws) \<Longrightarrow> k = w_Key w \<and> w \<in> set ws"
proof (induction ws arbitrary: k w rule: rev_induct)
  case (snoc u ws)
  then have "(k, w) \<in> {p \<in> set (merged ws). fst p \<noteq> w_Key u} \<union> {(w_Key u, u)}"
    by (simp only: merged_snoc set_update_distinct merged_keys_distinct)
  then show ?case using snoc.IH by auto
qed (simp add: merged_def)

lemma merged_subset: "u \<in> snd ` set (merged ws) \<Longrightarrow> u \<in> set ws"
  using merged_entry by fastforce

lemma set_merged_snoc:
  "snd ` set (merged (ws @ [w])) = {u \<in> snd ` set (merged ws). w_Key u \<noteq> w_Key w} \<union> {w}"
proof -
  have "snd ` {p \<in> set (merged ws). fst p \<noteq> w_Key w} = {u \<in> snd ` set (merged ws). w_Key u \<noteq> w_Key w}"
    using merged_entry by force
  then show ?thesis
    by (simp add: merged_snoc set_update_distinct merged_keys_distinct)
qed

lemma merged_distinct:
  assumes "same_keys ws"
  shows "distinct (map wkey (map snd (merged ws)))"
proof -
  have "inj_on (\<lambda>p. wkey (snd p)) (set (merged ws))"
  proof (rule inj_onI)
    fix x y
    assume xy: "x \<in> set (merged ws)" "y \<in> set (merged ws)" "wkey (snd x) = wkey (snd y)"
    then have "w_Key (snd x) = w_Key (snd y)"
      using assms merged_subset unfolding same_keys_def by blast
    then have "fst x = fst y"
      using xy merged_entry by (metis prod.collapse)
    then show "x = y"
      using xy merged_keys_distinct by (metis eq_key_imp_eq_value prod.collapse)
  qed
  moreover have "distinct (merged ws)"
    using merged_keys_distinct by (auto simp: distinct_map)
  ultimately show ?thesis by (simp add: distinct_map comp_def)
qed

lemma apply_writes_snoc:
  "apply_writes v (ws @ [w]) c k =
     (if wkey w = constructKey c k then Inr (w_Value w) else apply_writes v ws c k)"
  by (simp add: apply_writes_def)

lemma apply_writes_lookup:
  assumes "distinct (map wkey ws)" and "w \<in> set ws" and "wkey w = constructKey c k"
  shows "apply_writes v ws c k = Inr (w_Value w)"
proof -
  have "map_of (rev (map wkv ws)) = map_of (map wkv ws)"
    using assms(1) by (intro map_of_rev_distinct) (simp add: comp_def)
  moreover have "map_of (map wkv ws) (wkey w) = Some (w_Value w)"
    using assms(1,2) by (intro map_of_is_SomeI) (auto simp: comp_def)
  ultimately show ?thesis
    using assms(3) by (simp add: apply_writes_def)
qed

lemma apply_merged_writes:
  "same_keys ws \<Longrightarrow> apply_writes v (map snd (merged ws)) = apply_writes v ws"
proof (induction ws rule: rev_induct)
  case Nil
  show ?case by (simp add: merged_def)
next
  case (snoc w ws)
  have sk: "same_keys ws" and IH: "apply_writes v (map snd (merged ws)) = apply_writes v ws"
    using snoc by (auto simp: same_keys_def)
  have keys: "(w_Key u = w_Key w) = (wkey u = wkey w)" if "u \<in> snd ` set (merged ws)" for u
    using snoc.prems merged_subset [OF that] by (simp add: same_keys_def)
  have look: "apply_writes v (map snd (merged us)) c k = Inr (w_Value u)"
    if "same_keys us" "u \<in> snd ` set (merged us)" "wkey u = constructKey c k" for us u c k
    using that merged_distinct by (intro apply_writes_lookup) (auto simp only: set_map)
  have miss: "apply_writes v (map snd (merged us)) c k = v c k"
    if "\<forall>u\<in>snd ` set (merged us). wkey u \<noteq> constructKey c k" for us c k
    using that by (intro apply_writes_miss) (simp only: set_map)
  show ?case
  proof (intro ext)
    fix c k
    consider (last) "wkey w = constructKey c k"
      | (old) u where "wkey w \<noteq> constructKey c k" "u \<in> snd ` set (merged ws)" "wkey u = constructKey c k"
      | (none) "wkey w \<noteq> constructKey c k" "\<forall>u\<in>snd ` set (merged ws). wkey u \<noteq> constructKey c k"
      by blast
    then show "apply_writes v (map snd (merged (ws @ [w]))) c k = apply_writes v (ws @ [w]) c k"
    proof cases
      case last
      then show ?thesis
        using look [OF snoc.prems, of w] by (simp add: apply_writes_snoc set_merged_snoc)
    next
      case old
      then have "u \<in> snd ` set (merged (ws @ [w]))"
        using keys by (simp only: set_merged_snoc) simp
      then show ?thesis
        using look [OF snoc.prems, of u] look [OF sk, of u] old by (simp add: apply_writes_snoc IH)
    next
      case none
      then have "\<forall>u\<in>snd ` set (merged (ws @ [w])). wkey u \<noteq> constructKey c k"
        by (simp only: set_merged_snoc) blast
      then show ?thesis
        using miss [of "ws @ [w]"] miss [of ws] none by (simp add: apply_writes_snoc IH)
    qed
  qed
qed

end
