(* ===== verification/SimContext.thy ===== *)
theory SimContext
  imports Executor "HOL-Library.AList" "HOL-Library.Char_ord" "HOL-Library.List_Lexorder"
begin

text \<open>
  The simulation context of a transaction (\<^verbatim>\<open>vm/v2/tx_sim_context.go\<close> and
  \<^verbatim>\<open>sim_context_rwset_cache.go\<close>): reads and writes of contract code go through it, are
  recorded per call depth and contract, and are collected into the transaction's read-write set.

  Contract code is arbitrary: a value of type \<open>prog\<close> is what a contract does as seen from the
  context, a tree of requests whose continuations take the answers. \<open>run_prog\<close> executes such a
  tree on the context, nested calls included.
\<close>

section \<open>Contract code\<close>

type_synonym call_result = "ContractResult option \<times> ExecOrderTxType \<times> TxStatusCode"

record call_req =
  call_caller :: "(string \<times> bool) option" \<comment> \<open>address of the caller, and whether its runtime is GO\<close>
  call_contract :: string
  call_method :: string
  call_hasByteCode :: bool
  call_parameter :: "(string \<times> bytes) list"
  call_gasUsed :: "64 word"
  call_refTxType :: TxType

datatype prog =
    Ret ContractResult ExecOrderTxType TxStatusCode
  | GetState string string "string + bytes \<Rightarrow> prog"
  | PutState string string bytes "string option \<Rightarrow> prog"
  | DelState string string "string option \<Rightarrow> prog"
  | Call call_req "call_result \<Rightarrow> prog"

text \<open>
  What the context asks of its surroundings: the contract code the virtual machines run, whether
  the stored byte code of a contract can be read (or its runtime needs none), and the access policy
  of cross-contract calls.
\<close>

record vm_env =
  RunContract :: "Payload \<Rightarrow> string \<Rightarrow> string \<Rightarrow> (string \<times> bytes) list \<Rightarrow> 64 word \<Rightarrow> TxType \<Rightarrow> prog"
  byteCodeOk :: "string \<Rightarrow> bool"
  verifyPolicy :: "string \<Rightarrow> string \<Rightarrow> bool"

section \<open>State\<close>

record rwSet =
  txReadKeyMap :: "(string \<times> TxRead) list"
  txWriteKeyMap :: "(string \<times> TxWrite) list"

type_synonym frame = "(string \<times> rwSet) list"

text \<open>The frames are a stack: the head is the current depth, the last element depth 0.\<close>

record txSimContextImpl =
  sc_tx :: Transaction
  sc_blockVersion :: nat
  sc_frames :: "frame list"
  sc_relyCache :: "(string \<times> bytes) list list"
  sc_txResult :: "Result option"

definition v235 :: nat where
  "v235 = 2030500"

definition blockVersion2310 :: nat where
  "blockVersion2310 = 2030100"

definition blockVersion2312 :: nat where
  "blockVersion2312 = 2030102"

definition blockVersion2340 :: nat where
  "blockVersion2340 = 2030400"

definition maxKeyLength :: nat where
  "maxKeyLength = 600"

definition CallContractDepth :: nat where
  "CallContractDepth = 5"

definition GasLimit :: "64 word" where
  "GasLimit = 10000000000"

definition simKey :: "string \<Rightarrow> string \<Rightarrow> string" where
  "simKey contractName key = contractName @ ''#'' @ key"

definition NewTxSimContext :: "Transaction \<Rightarrow> nat \<Rightarrow> txSimContextImpl" where
  "NewTxSimContext tx version =
     \<lparr>sc_tx = tx, sc_blockVersion = version, sc_frames = [[]], sc_relyCache = [], sc_txResult = None\<rparr>"

definition SetTxResult :: "Result option \<Rightarrow> txSimContextImpl \<Rightarrow> txSimContextImpl" where
  "SetTxResult res s = s\<lparr>sc_txResult := res\<rparr>"

section \<open>Reads and writes\<close>

definition empty_rwSet :: rwSet where
  "empty_rwSet = \<lparr>txReadKeyMap = [], txWriteKeyMap = []\<rparr>"

text \<open>Updates the set of a contract at the current depth, generating one where there is none.\<close>

definition update_current :: "string \<Rightarrow> (rwSet \<Rightarrow> rwSet) \<Rightarrow> txSimContextImpl \<Rightarrow> txSimContextImpl" where
  "update_current contractName f s = s\<lparr>sc_frames := (case sc_frames s of
       [] \<Rightarrow> []
     | fr # frs \<Rightarrow>
         AList.update contractName
           (f (case map_of fr contractName of None \<Rightarrow> empty_rwSet | Some rw \<Rightarrow> rw)) fr # frs)\<rparr>"

definition PutIntoReadSet :: "string \<Rightarrow> string \<Rightarrow> bytes \<Rightarrow> txSimContextImpl \<Rightarrow> txSimContextImpl" where
  "PutIntoReadSet contractName key val =
     update_current contractName (\<lambda>rw. rw\<lparr>txReadKeyMap :=
       AList.update (simKey contractName key)
         \<lparr>r_ContractName = contractName, r_Key = key, r_Value = val\<rparr> (txReadKeyMap rw)\<rparr>)"

definition putIntoWriteSet ::
    "string \<Rightarrow> string \<Rightarrow> bytes \<Rightarrow> txSimContextImpl \<Rightarrow> string option \<times> txSimContextImpl" where
  "putIntoWriteSet contractName key val s =
     (if length key > maxKeyLength then (Some ''key length is too long'', s)
      else (None, update_current contractName (\<lambda>rw. rw\<lparr>txWriteKeyMap :=
              AList.update (simKey contractName key)
                \<lparr>w_ContractName = contractName, w_Key = key, w_Value = val\<rparr> (txWriteKeyMap rw)\<rparr>) s))"

fun getFromReadSet_frames :: "frame list \<Rightarrow> string \<Rightarrow> string \<Rightarrow> bytes option" where
  "getFromReadSet_frames [] contractName key = None"
| "getFromReadSet_frames (fr # frs) contractName key =
     (case map_of fr contractName of
        None \<Rightarrow> getFromReadSet_frames frs contractName key
      | Some rw \<Rightarrow>
          (case map_of (txReadKeyMap rw) (simKey contractName key) of
             None \<Rightarrow> getFromReadSet_frames frs contractName key
           | Some r \<Rightarrow> Some (r_Value r)))"

definition getFromReadSet :: "string \<Rightarrow> string \<Rightarrow> txSimContextImpl \<Rightarrow> bytes option" where
  "getFromReadSet contractName key s = getFromReadSet_frames (sc_frames s) contractName key"

fun getFromWriteSet_frames :: "frame list \<Rightarrow> string \<Rightarrow> string \<Rightarrow> bytes option" where
  "getFromWriteSet_frames [] contractName key = None"
| "getFromWriteSet_frames (fr # frs) contractName key =
     (case map_of fr contractName of
        None \<Rightarrow> getFromWriteSet_frames frs contractName key
      | Some rw \<Rightarrow>
          (case map_of (txWriteKeyMap rw) (simKey contractName key) of
             None \<Rightarrow> getFromWriteSet_frames frs contractName key
           | Some w \<Rightarrow> Some (w_Value w)))"

definition getFromWriteSet :: "string \<Rightarrow> string \<Rightarrow> txSimContextImpl \<Rightarrow> bytes option" where
  "getFromWriteSet contractName key s = getFromWriteSet_frames (sc_frames s) contractName key"

fun lookup_caches :: "(string \<times> bytes) list list \<Rightarrow> string \<Rightarrow> bytes option" where
  "lookup_caches [] finalKey = None"
| "lookup_caches (m # ms) finalKey =
     (case map_of m finalKey of None \<Rightarrow> lookup_caches ms finalKey | Some v \<Rightarrow> Some v)"

definition getFromRelyCache :: "string \<Rightarrow> string \<Rightarrow> txSimContextImpl \<Rightarrow> bytes option" where
  "getFromRelyCache contractName key s = lookup_caches (sc_relyCache s) (simKey contractName key)"

definition AppendWriteSetIntoRelyCache :: "TxWrite list \<Rightarrow> txSimContextImpl \<Rightarrow> txSimContextImpl" where
  "AppendWriteSetIntoRelyCache ws s =
     s\<lparr>sc_relyCache := sc_relyCache s @
         [fold (\<lambda>w m. AList.update (simKey (w_ContractName w) (w_Key w)) (w_Value w) m) ws []]\<rparr>"

definition sim_Get ::
    "view \<Rightarrow> string \<Rightarrow> string \<Rightarrow> txSimContextImpl \<Rightarrow> (string + bytes) \<times> txSimContextImpl" where
  "sim_Get snapshotGetKey contractName key s =
     (case getFromWriteSet contractName key s of
        Some val \<Rightarrow>
          (Inr val, if sc_blockVersion s < v235 then PutIntoReadSet contractName key val s else s)
      | None \<Rightarrow>
      case getFromReadSet contractName key s of
        Some val \<Rightarrow> (Inr val, s)
      | None \<Rightarrow>
      case getFromRelyCache contractName key s of
        Some val \<Rightarrow> (Inr val, PutIntoReadSet contractName key val s)
      | None \<Rightarrow>
      case snapshotGetKey contractName key of
        Inl e \<Rightarrow> (Inl e, s)
      | Inr val \<Rightarrow> (Inr val, PutIntoReadSet contractName key val s))"

definition sim_Put ::
    "string \<Rightarrow> string \<Rightarrow> bytes \<Rightarrow> txSimContextImpl \<Rightarrow> string option \<times> txSimContextImpl" where
  "sim_Put contractName key val = putIntoWriteSet contractName key val"

definition sim_Del :: "string \<Rightarrow> string \<Rightarrow> txSimContextImpl \<Rightarrow> string option \<times> txSimContextImpl" where
  "sim_Del contractName key = putIntoWriteSet contractName key None"

section \<open>Cross-contract calls\<close>

definition merge_map :: "(string \<times> 'v) list \<Rightarrow> (string \<times> 'v) list \<Rightarrow> (string \<times> 'v) list" where
  "merge_map dst src = fold (\<lambda>(k, v) m. AList.update k v m) src dst"

definition commit_contract :: "string \<times> rwSet \<Rightarrow> frame \<Rightarrow> frame" where
  "commit_contract crw pre =
     (let (contractName, rw) = crw in
      case map_of pre contractName of
        None \<Rightarrow> AList.update contractName rw pre
      | Some prw \<Rightarrow> AList.update contractName
          \<lparr>txReadKeyMap = merge_map (txReadKeyMap prw) (txReadKeyMap rw),
           txWriteKeyMap = merge_map (txWriteKeyMap prw) (txWriteKeyMap rw)\<rparr> pre)"

text \<open>A contract that has no set at the previous depth moves there with its writes.\<close>

definition rollback_contract :: "string \<times> rwSet \<Rightarrow> frame \<Rightarrow> frame" where
  "rollback_contract crw pre =
     (let (contractName, rw) = crw in
      case map_of pre contractName of
        None \<Rightarrow> AList.update contractName rw pre
      | Some prw \<Rightarrow> AList.update contractName
          (prw\<lparr>txReadKeyMap := merge_map (txReadKeyMap prw) (txReadKeyMap rw)\<rparr>) pre)"

text \<open>Both also leave the current depth, which the caller's deferred function does in the code.\<close>

fun commitRWSetToPreDepth :: "frame list \<Rightarrow> frame list" where
  "commitRWSetToPreDepth (cur # pre # frs) = fold commit_contract cur pre # frs"
| "commitRWSetToPreDepth frs = frs"

fun commitRSetAndRollbackWSet :: "frame list \<Rightarrow> frame list" where
  "commitRSetAndRollbackWSet (cur # pre # frs) = fold rollback_contract cur pre # frs"
| "commitRSetAndRollbackWSet frs = frs"

definition call_error :: "string \<Rightarrow> ContractResult" where
  "call_error msg = \<lparr>cr_Code = 1, cr_Result = None, cr_Message = msg, cr_GasUsed = 0, cr_ContractEvent = []\<rparr>"

definition cross_caller_params :: "nat \<Rightarrow> call_req \<Rightarrow> (string \<times> bytes) list" where
  "cross_caller_params version req =
     (case call_caller req of
        None \<Rightarrow> call_parameter req
      | Some (addr, isGo) \<Rightarrow>
          if version \<ge> 2300 \<and> addr \<noteq> [] \<and> (isGo \<or> version \<ge> 2030100)
          then AList.update ''__cross_caller__'' (Some addr) (call_parameter req)
          else call_parameter req)"

definition verifyCallContract :: "vm_env \<Rightarrow> txSimContextImpl \<Rightarrow> string \<Rightarrow> string \<Rightarrow> bool" where
  "verifyCallContract env s contract method \<longleftrightarrow>
     (if sc_blockVersion s < blockVersion2310 then True
      else if p_ContractName (tx_Payload (sc_tx s)) = ''MULTI_SIGN'' \<and>
        (p_Method (tx_Payload (sc_tx s)) = ''VOTE'' \<or> p_Method (tx_Payload (sc_tx s)) = ''TRIG'')
      then True
      else verifyPolicy env contract method)"

text \<open>
  A call pushes a frame, runs the callee (\<open>callee\<close> executes its code on the context) and commits
  the frame to the caller's.
\<close>

definition CallContract ::
    "vm_env \<Rightarrow> (prog \<Rightarrow> txSimContextImpl \<Rightarrow> (ContractResult \<times> ExecOrderTxType \<times> TxStatusCode) \<times> txSimContextImpl) \<Rightarrow>
     call_req \<Rightarrow> txSimContextImpl \<Rightarrow> call_result \<times> txSimContextImpl" where
  "CallContract env callee req s =
     (if length (sc_frames s) > CallContractDepth
      then ((Some (call_error ''CallContract too depth''), ExecOrderTxTypeNormal, CONTRACT_TOO_DEEP_FAILED), s)
      else if call_gasUsed req > GasLimit
      then ((Some (call_error ''There is not enough gas''), ExecOrderTxTypeNormal, CONTRACT_FAIL), s)
      else if \<not> call_hasByteCode req \<and> \<not> byteCodeOk env (call_contract req)
      then ((None, ExecOrderTxTypeNormal, CONTRACT_FAIL), s)
      else if \<not> verifyCallContract env s (call_contract req) (call_method req)
      then ((Some (call_error ''the tx has no right to call contract''), ExecOrderTxTypeNormal, CONTRACT_FAIL), s)
      else
        let ((r, specialTxType, code), s') =
              callee (RunContract env (tx_Payload (sc_tx s)) (call_contract req) (call_method req)
                        (cross_caller_params (sc_blockVersion s) req) (call_gasUsed req)
                        (call_refTxType req))
                (s\<lparr>sc_frames := [] # sc_frames s\<rparr>)
        in if cr_Code r \<noteq> 0 \<and> \<not> sc_blockVersion s < 2300
           then ((Some r, specialTxType, code), s'\<lparr>sc_frames := commitRSetAndRollbackWSet (sc_frames s')\<rparr>)
           else ((Some r, specialTxType, code), s'\<lparr>sc_frames := commitRWSetToPreDepth (sc_frames s')\<rparr>))"

primrec run_with ::
    "view \<Rightarrow> (call_req \<Rightarrow> txSimContextImpl \<Rightarrow> call_result \<times> txSimContextImpl) \<Rightarrow> prog \<Rightarrow> txSimContextImpl \<Rightarrow>
     (ContractResult \<times> ExecOrderTxType \<times> TxStatusCode) \<times> txSimContextImpl" where
  "run_with v call (Ret r ty code) s = ((r, ty, code), s)"
| "run_with v call (GetState c k f) s = (let (x, s') = sim_Get v c k s in run_with v call (f x) s')"
| "run_with v call (PutState c k b f) s = (let (x, s') = sim_Put c k b s in run_with v call (f x) s')"
| "run_with v call (DelState c k f) s = (let (x, s') = sim_Del c k s in run_with v call (f x) s')"
| "run_with v call (Call req f) s = (let (x, s') = call req s in run_with v call (f x) s')"

text \<open>
  Runs a contract with \<open>n\<close> more levels of calls; \<open>CallContractDepth\<close> levels are enough, since a
  call beyond that depth fails before its callee runs.
\<close>

primrec run_depth ::
    "nat \<Rightarrow> vm_env \<Rightarrow> view \<Rightarrow> prog \<Rightarrow> txSimContextImpl \<Rightarrow>
     (ContractResult \<times> ExecOrderTxType \<times> TxStatusCode) \<times> txSimContextImpl" where
  "run_depth 0 env v p s =
     run_with v (CallContract env (\<lambda>_ s'. ((call_error [], ExecOrderTxTypeNormal, CONTRACT_FAIL), s'))) p s"
| "run_depth (Suc n) env v p s = run_with v (CallContract env (run_depth n env v)) p s"

definition run_prog ::
    "vm_env \<Rightarrow> view \<Rightarrow> prog \<Rightarrow> txSimContextImpl \<Rightarrow>
     (ContractResult \<times> ExecOrderTxType \<times> TxStatusCode) \<times> txSimContextImpl" where
  "run_prog env v p s = run_depth CallContractDepth env v p s"

lemma run_depth_steps:
  "run_depth n env v (Ret r ty code) s = ((r, ty, code), s)"
  "run_depth n env v (GetState c k f) s = (let (x, s') = sim_Get v c k s in run_depth n env v (f x) s')"
  "run_depth n env v (PutState c k b g) s = (let (x, s') = sim_Put c k b s in run_depth n env v (g x) s')"
  "run_depth n env v (DelState c k g) s = (let (x, s') = sim_Del c k s in run_depth n env v (g x) s')"
  by (cases n; simp)+

lemmas run_prog_steps = run_depth_steps [of CallContractDepth, folded run_prog_def]

section \<open>Collecting the read-write set\<close>

definition collectReadSetAndKey :: "txSimContextImpl \<Rightarrow> (string \<times> TxRead) list \<times> string list" where
  "collectReadSetAndKey s =
     (let frs = (if sc_blockVersion s < v235 then sc_frames s else rev (sc_frames s));
          sets = map (\<lambda>(_, rw). txReadKeyMap rw) (concat frs)
      in (fold (\<lambda>m acc. if sc_blockVersion s < blockVersion2312 then merge_map m acc else merge_map acc m) sets [],
          concat (map (map fst) sets)))"

definition collectWriteSetAndKey :: "txSimContextImpl \<Rightarrow> (string \<times> TxWrite) list \<times> string list" where
  "collectWriteSetAndKey s =
     (let frs = (if sc_blockVersion s < v235 then sc_frames s else rev (sc_frames s));
          sets = map (\<lambda>(_, rw). txWriteKeyMap rw) (concat frs)
      in (fold (\<lambda>m acc. if sc_blockVersion s < blockVersion2312 then merge_map m acc else merge_map acc m) sets [],
          concat (map (map fst) sets)))"

definition writes_by_contract :: "string \<Rightarrow> txSimContextImpl \<Rightarrow> (string \<times> TxWrite) list" where
  "writes_by_contract contractName s =
     fold (\<lambda>fr acc. case map_of fr contractName of
              None \<Rightarrow> acc
            | Some rw \<Rightarrow> merge_map (txWriteKeyMap rw) acc) (sc_frames s) []"

definition GetTxRWSet :: "bool \<Rightarrow> txSimContextImpl \<Rightarrow> TxRWSet" where
  "GetTxRWSet runVmSuccess s =
     (let (reads, readKeys) = collectReadSetAndKey s;
          (writes, writeKeys) = collectWriteSetAndKey s;
          acct = writes_by_contract ''ACCOUNT_MANAGER'' s
      in \<lparr>rw_TxId = TxId (sc_tx s),
          TxReads = map (\<lambda>k. the (map_of reads k)) (sort readKeys),
          TxWrites =
            (if runVmSuccess then map (\<lambda>k. the (map_of writes k)) (sort writeKeys)
             else if sc_blockVersion s \<ge> 2300
             then map (\<lambda>k. the (map_of acct k))
               (sort (map fst (filter (\<lambda>(_, w). w_ContractName w = ''ACCOUNT_MANAGER'') acct)))
             else [])\<rparr>)"

section \<open>Recorded reads\<close>

text \<open>The contract and key pairs for which some frame holds a read.\<close>

definition recorded_in :: "frame \<Rightarrow> (string \<times> string) set" where
  "recorded_in fr = {(c, k). \<exists>rw. map_of fr c = Some rw \<and> simKey c k \<in> dom (map_of (txReadKeyMap rw))}"

definition recorded :: "txSimContextImpl \<Rightarrow> (string \<times> string) set" where
  "recorded s = (\<Union>fr\<in>set (sc_frames s). recorded_in fr)"

lemma simKey_inj: "simKey c k = simKey c k' \<longleftrightarrow> k = k'"
  by (simp add: simKey_def)

lemma map_of_merge_map: "map_of (merge_map dst src) = map_of dst ++ map_of (rev src)"
  unfolding merge_map_def
  by (induction src arbitrary: dst)
    (auto simp: update_conv' map_add_def fun_eq_iff split: option.splits)

lemma keys_update [simp]: "dom (map_of (AList.update k v m)) = insert k (dom (map_of m))"
  by (auto simp: update_conv')

lemma keys_merge_map [simp]:
  "dom (map_of (merge_map dst src)) = dom (map_of dst) \<union> dom (map_of src)"
  by (simp only: map_of_merge_map dom_map_add dom_map_of_conv_image_fst set_rev Un_commute)

lemma recorded_update_current:
  assumes "sc_frames s = fr # frs"
    and "\<And>rw. dom (map_of (txReadKeyMap rw)) \<subseteq> dom (map_of (txReadKeyMap (f rw)))"
  shows "recorded s \<subseteq> recorded (update_current c f s)"
  using assms
  by (force simp: recorded_def recorded_in_def update_current_def update_conv' split: if_splits option.splits)

lemma recorded_PutIntoReadSet:
  assumes "sc_frames s \<noteq> []"
  shows "insert (c, k) (recorded s) \<subseteq> recorded (PutIntoReadSet c k v s)"
proof -
  obtain fr frs where fr: "sc_frames s = fr # frs"
    using assms by (cases "sc_frames s") auto
  have "recorded s \<subseteq> recorded (PutIntoReadSet c k v s)"
    unfolding PutIntoReadSet_def using fr by (intro recorded_update_current) auto
  moreover have "(c, k) \<in> recorded (PutIntoReadSet c k v s)"
    using fr by (simp add: recorded_def recorded_in_def PutIntoReadSet_def update_current_def
        update_conv')
  ultimately show ?thesis by simp
qed

lemma sc_update_current [simp]:
  "length (sc_frames (update_current c f s)) = length (sc_frames s)"
  "sc_blockVersion (update_current c f s) = sc_blockVersion s"
  "sc_tx (update_current c f s) = sc_tx s"
  "sc_relyCache (update_current c f s) = sc_relyCache s"
  by (simp_all add: update_current_def split: list.splits)

lemma recorded_in_commit: "recorded_in pre \<union> recorded_in [crw] \<subseteq> recorded_in (commit_contract crw pre)"
  by (cases crw)
    (auto simp: recorded_in_def commit_contract_def update_conv' split: if_splits option.splits)

lemma recorded_in_rollback: "recorded_in pre \<union> recorded_in [crw] \<subseteq> recorded_in (rollback_contract crw pre)"
  by (cases crw)
    (auto simp: recorded_in_def rollback_contract_def update_conv' split: if_splits option.splits)

lemma recorded_in_fold:
  assumes "\<And>crw pre. recorded_in pre \<union> recorded_in [crw] \<subseteq> recorded_in (g crw pre)"
  shows "recorded_in pre \<union> recorded_in cur \<subseteq> recorded_in (fold g cur pre)"
proof (induction cur arbitrary: pre)
  case Nil
  then show ?case by (auto simp: recorded_in_def)
next
  case (Cons crw cur)
  have "recorded_in (crw # cur) \<subseteq> recorded_in [crw] \<union> recorded_in cur"
    by (auto simp: recorded_in_def split: if_splits)
  then show ?case
    using Cons.IH [of "g crw pre"] assms [of pre crw] by simp blast
qed

lemmas recorded_in_folds = recorded_in_fold [OF recorded_in_commit] recorded_in_fold [OF recorded_in_rollback]

section \<open>What every run keeps\<close>

text \<open>
  \<open>keeps s s'\<close>: a step from \<open>s\<close> to \<open>s'\<close> stays at its depth, forgets no recorded read, and leaves
  the transaction, the block version and the caches alone.
\<close>

definition keeps :: "txSimContextImpl \<Rightarrow> txSimContextImpl \<Rightarrow> bool" where
  "keeps s s' \<longleftrightarrow> length (sc_frames s') = length (sc_frames s) \<and> recorded s \<subseteq> recorded s' \<and>
     sc_blockVersion s' = sc_blockVersion s \<and> sc_tx s' = sc_tx s \<and> sc_relyCache s' = sc_relyCache s"

lemma keeps_refl [simp]: "keeps s s"
  by (simp add: keeps_def)

lemma keeps_trans: "keeps s s' \<Longrightarrow> keeps s' s'' \<Longrightarrow> keeps s s''"
  by (auto simp: keeps_def)

lemma keeps_PutIntoReadSet: "sc_frames s \<noteq> [] \<Longrightarrow> keeps s (PutIntoReadSet c k v s)"
  using recorded_PutIntoReadSet [of s c k v] by (auto simp: keeps_def PutIntoReadSet_def)

lemma keeps_Get: "sc_frames s \<noteq> [] \<Longrightarrow> keeps s (snd (sim_Get v c k s))"
  by (auto simp: sim_Get_def keeps_PutIntoReadSet split: option.splits sum.splits)

lemma keeps_putIntoWriteSet:
  assumes "sc_frames s \<noteq> []"
  shows "keeps s (snd (putIntoWriteSet c k v s))"
proof -
  obtain fr frs where "sc_frames s = fr # frs"
    using assms by (cases "sc_frames s") auto
  then show ?thesis
    by (auto simp: keeps_def putIntoWriteSet_def intro!: recorded_update_current [THEN subsetD])
qed

lemma keeps_CallContract:
  assumes "\<And>p s. sc_frames s \<noteq> [] \<Longrightarrow> keeps s (snd (callee p s))" and "sc_frames s \<noteq> []"
  shows "keeps s (snd (CallContract env callee req s))"
proof -
  define p where "p = RunContract env (tx_Payload (sc_tx s)) (call_contract req) (call_method req)
    (cross_caller_params (sc_blockVersion s) req) (call_gasUsed req) (call_refTxType req)"
  obtain r ty code s' where run: "callee p (s\<lparr>sc_frames := [] # sc_frames s\<rparr>) = ((r, ty, code), s')"
    by (metis surj_pair)
  have k: "keeps (s\<lparr>sc_frames := [] # sc_frames s\<rparr>) s'"
    using assms(1) [of "s\<lparr>sc_frames := [] # sc_frames s\<rparr>" p] run by simp
  then obtain cur pre frs where fr: "sc_frames s' = cur # pre # frs"
    using assms(2) unfolding keeps_def by (auto simp: neq_Nil_conv length_Suc_conv)
  have "recorded s \<subseteq> recorded s'"
    using k by (auto simp: keeps_def recorded_def)
  also have "\<dots> \<subseteq> recorded_in (fold g cur pre) \<union> (\<Union>fr\<in>set frs. recorded_in fr)"
    if "g = commit_contract \<or> g = rollback_contract" for g
    using that recorded_in_folds [of pre cur] by (auto simp: recorded_def fr)
  finally show ?thesis
    using k fr unfolding CallContract_def p_def [symmetric]
    by (auto simp: run keeps_def recorded_def Let_def)
qed

lemma keeps_run_with:
  assumes "\<And>req s. sc_frames s \<noteq> [] \<Longrightarrow> keeps s (snd (call req s))"
  shows "sc_frames s \<noteq> [] \<Longrightarrow> keeps s (snd (run_with v call p s))"
proof (induction p arbitrary: s)
  case (GetState c k f)
  have "sc_frames (snd (sim_Get v c k s)) \<noteq> []"
    using keeps_Get [OF GetState.prems, of v c k] GetState.prems by (auto simp: keeps_def)
  then show ?case
    using GetState.IH keeps_Get [OF GetState.prems, of v c k]
    by (simp add: split_beta Let_def) (metis keeps_trans range_eqI)
next
  case (PutState c k b f)
  have "sc_frames (snd (sim_Put c k b s)) \<noteq> []"
    using keeps_putIntoWriteSet [OF PutState.prems, of c k b] PutState.prems
    by (auto simp: keeps_def sim_Put_def)
  then show ?case
    using PutState.IH keeps_putIntoWriteSet [OF PutState.prems, of c k b]
    by (simp add: split_beta Let_def sim_Put_def) (metis keeps_trans range_eqI)
next
  case (DelState c k f)
  have "sc_frames (snd (sim_Del c k s)) \<noteq> []"
    using keeps_putIntoWriteSet [OF DelState.prems, of c k None] DelState.prems
    by (auto simp: keeps_def sim_Del_def)
  then show ?case
    using DelState.IH keeps_putIntoWriteSet [OF DelState.prems, of c k None]
    by (simp add: split_beta Let_def sim_Del_def) (metis keeps_trans range_eqI)
next
  case (Call req f)
  have "sc_frames (snd (call req s)) \<noteq> []"
    using assms [OF Call.prems, of req] Call.prems by (auto simp: keeps_def)
  then show ?case
    using Call.IH assms [OF Call.prems, of req]
    by (simp add: split_beta Let_def) (metis keeps_trans range_eqI)
qed simp

lemma keeps_run_depth: "sc_frames s \<noteq> [] \<Longrightarrow> keeps s (snd (run_depth n env v p s))"
proof (induction n arbitrary: p s)
  case 0
  show ?case
    unfolding run_depth.simps by (rule keeps_run_with [OF keeps_CallContract 0]) auto
next
  case (Suc n)
  show ?case
    unfolding run_depth.simps by (rule keeps_run_with [OF keeps_CallContract Suc.prems]) (auto intro: Suc.IH)
qed

section \<open>Locality\<close>

text \<open>A run depends on the view only through the reads it records.\<close>

definition agree_on :: "view \<Rightarrow> view \<Rightarrow> (string \<times> string) set \<Rightarrow> bool" where
  "agree_on v v' S \<longleftrightarrow> (\<forall>(c, k)\<in>S. v' c k = v c k)"

lemma agree_on_subset: "agree_on v v' S \<Longrightarrow> T \<subseteq> S \<Longrightarrow> agree_on v v' T"
  by (auto simp: agree_on_def)

lemma sim_Get_local:
  assumes "sc_frames s \<noteq> []" and "total_view v"
    and "agree_on v v' (recorded (snd (sim_Get v c k s)))"
  shows "sim_Get v' c k s = sim_Get v c k s"
proof (cases "getFromWriteSet c k s = None \<and> getFromReadSet c k s = None \<and> getFromRelyCache c k s = None")
  case True
  obtain b where b: "v c k = Inr b"
    using assms(2) by (auto simp: total_view_def)
  then have "(c, k) \<in> recorded (snd (sim_Get v c k s))"
    using True recorded_PutIntoReadSet [OF assms(1), of c k b] by (simp add: sim_Get_def)
  then have "v' c k = v c k"
    using assms(3) by (auto simp: agree_on_def)
  then show ?thesis using True by (simp add: sim_Get_def)
qed (auto simp: sim_Get_def split: option.splits)

lemma CallContract_local:
  assumes keeps: "\<And>p s. sc_frames s \<noteq> [] \<Longrightarrow> keeps s (snd (callee p s))" and "sc_frames s \<noteq> []"
    and local: "\<And>p s. sc_frames s \<noteq> [] \<Longrightarrow> agree_on v v' (recorded (snd (callee p s))) \<Longrightarrow>
      callee' p s = callee p s"
    and agree: "agree_on v v' (recorded (snd (CallContract env callee req s)))"
  shows "CallContract env callee' req s = CallContract env callee req s"
proof -
  define p where "p = RunContract env (tx_Payload (sc_tx s)) (call_contract req) (call_method req)
    (cross_caller_params (sc_blockVersion s) req) (call_gasUsed req) (call_refTxType req)"
  let ?s = "s\<lparr>sc_frames := [] # sc_frames s\<rparr>"
  define guards where "guards \<longleftrightarrow> length (sc_frames s) > CallContractDepth \<or> call_gasUsed req > GasLimit \<or>
    (\<not> call_hasByteCode req \<and> \<not> byteCodeOk env (call_contract req)) \<or>
    \<not> verifyCallContract env s (call_contract req) (call_method req)"
  show ?thesis
  proof (cases guards)
    case True
    then show ?thesis by (auto simp: CallContract_def guards_def)
  next
    case False
    obtain r ty code s' where run: "callee p ?s = ((r, ty, code), s')"
      by (metis surj_pair)
    have "keeps ?s s'"
      using keeps [of ?s p] run by simp
    then obtain cur pre frs where fr: "sc_frames s' = cur # pre # frs"
      using assms(2) unfolding keeps_def by (auto simp: neq_Nil_conv length_Suc_conv)
    have "recorded s' \<subseteq> recorded (snd (CallContract env callee req s))"
      using False recorded_in_folds [of pre cur] fr
      unfolding CallContract_def p_def [symmetric] guards_def
      by (auto simp: run recorded_def Let_def)
    then have "agree_on v v' (recorded (snd (callee p ?s)))"
      using agree agree_on_subset run by auto
    then have "callee' p ?s = callee p ?s"
      by (intro local) simp
    then show ?thesis by (simp add: CallContract_def p_def [symmetric] del: split_paired_All)
  qed
qed

lemma run_with_local:
  assumes keeps: "\<And>req s. sc_frames s \<noteq> [] \<Longrightarrow> keeps s (snd (call req s))"
    and local: "\<And>req s. sc_frames s \<noteq> [] \<Longrightarrow> agree_on v v' (recorded (snd (call req s))) \<Longrightarrow>
      call' req s = call req s"
    and total: "total_view v"
  shows "sc_frames s \<noteq> [] \<Longrightarrow> agree_on v v' (recorded (snd (run_with v call p s))) \<Longrightarrow>
    run_with v' call' p s = run_with v call p s"
proof (induction p arbitrary: s)
  case (GetState c k f)
  obtain x s' where g: "sim_Get v c k s = (x, s')" by force
  have ne: "sc_frames s' \<noteq> []"
    using keeps_Get [OF GetState.prems(1), of v c k] GetState.prems(1) g by (auto simp: keeps_def)
  have "recorded s' \<subseteq> recorded (snd (run_with v call (f x) s'))"
    using keeps_run_with [OF keeps ne] by (auto simp: keeps_def)
  then have "sim_Get v' c k s = (x, s')"
    using sim_Get_local [OF GetState.prems(1) total] GetState.prems(2) agree_on_subset g by force
  then show ?case
    using GetState.IH [of "f x" s'] GetState.prems(2) ne g by simp
next
  case (PutState c k b f)
  obtain x s' where g: "sim_Put c k b s = (x, s')" by force
  have "sc_frames s' \<noteq> []"
    using keeps_putIntoWriteSet [OF PutState.prems(1), of c k b] PutState.prems(1) g
    by (auto simp: keeps_def sim_Put_def)
  then show ?case
    using PutState.IH [of "f x" s'] PutState.prems(2) g by simp
next
  case (DelState c k f)
  obtain x s' where g: "sim_Del c k s = (x, s')" by force
  have "sc_frames s' \<noteq> []"
    using keeps_putIntoWriteSet [OF DelState.prems(1), of c k None] DelState.prems(1) g
    by (auto simp: keeps_def sim_Del_def)
  then show ?case
    using DelState.IH [of "f x" s'] DelState.prems(2) g by simp
next
  case (Call req f)
  obtain x s' where g: "call req s = (x, s')" by (metis surj_pair)
  have ne: "sc_frames s' \<noteq> []"
    using keeps [OF Call.prems(1), of req] Call.prems(1) g by (auto simp: keeps_def)
  have "recorded s' \<subseteq> recorded (snd (run_with v call (f x) s'))"
    using keeps_run_with [OF keeps ne] by (auto simp: keeps_def)
  then have "call' req s = (x, s')"
    using local [OF Call.prems(1), of req] Call.prems(2) agree_on_subset g by force
  then show ?case
    using Call.IH [of "f x" s'] Call.prems(2) ne g by simp
qed simp

lemma run_depth_local:
  assumes total: "total_view v"
  shows "sc_frames s \<noteq> [] \<Longrightarrow> agree_on v v' (recorded (snd (run_depth n env v p s))) \<Longrightarrow>
    run_depth n env v' p s = run_depth n env v p s"
proof (induction n arbitrary: p s)
  case 0
  then show ?case
    unfolding run_depth.simps
    by (intro run_with_local [OF keeps_CallContract CallContract_local total]) auto
next
  case (Suc n)
  then show ?case
    unfolding run_depth.simps
    by (intro run_with_local [OF keeps_CallContract CallContract_local total])
      (auto intro: keeps_run_depth Suc.IH)
qed

lemma run_prog_local:
  "total_view v \<Longrightarrow> sc_frames s \<noteq> [] \<Longrightarrow> agree_on v v' (recorded (snd (run_prog env v p s))) \<Longrightarrow>
    run_prog env v' p s = run_prog env v p s"
  unfolding run_prog_def by (rule run_depth_local)

section \<open>Well-formed contexts and the collected read set\<close>

text \<open>
  Contract names hold no separator character. Then the keys of the maps determine contract and
  key, and the collected read set shows every recorded read. From block version 2.3.5 on the value of a
  recorded read is the one the view shows.
\<close>

definition name_ok :: "string \<Rightarrow> bool" where
  "name_ok c \<longleftrightarrow> CHR ''#'' \<notin> set c"

primrec names_ok :: "prog \<Rightarrow> bool" where
  "names_ok (Ret r ty code) \<longleftrightarrow> True"
| "names_ok (GetState c k f) \<longleftrightarrow> name_ok c \<and> (\<forall>x. names_ok (f x))"
| "names_ok (PutState c k b f) \<longleftrightarrow> name_ok c \<and> (\<forall>x. names_ok (f x))"
| "names_ok (DelState c k f) \<longleftrightarrow> name_ok c \<and> (\<forall>x. names_ok (f x))"
| "names_ok (Call req f) \<longleftrightarrow> (\<forall>x. names_ok (f x))"

definition env_ok :: "vm_env \<Rightarrow> bool" where
  "env_ok env \<longleftrightarrow> (\<forall>pl c m ps g ty. names_ok (RunContract env pl c m ps g ty))"

definition wf_rw :: "view \<Rightarrow> nat \<Rightarrow> rwSet \<Rightarrow> bool" where
  "wf_rw v version rw \<longleftrightarrow>
     (\<forall>(kk, r)\<in>set (txReadKeyMap rw). kk = simKey (r_ContractName r) (r_Key r) \<and> name_ok (r_ContractName r) \<and>
        (v235 \<le> version \<longrightarrow> v (r_ContractName r) (r_Key r) = Inr (r_Value r))) \<and>
     (\<forall>(kk, w)\<in>set (txWriteKeyMap rw). kk = simKey (w_ContractName w) (w_Key w) \<and> name_ok (w_ContractName w))"

definition wf_frame :: "view \<Rightarrow> nat \<Rightarrow> frame \<Rightarrow> bool" where
  "wf_frame v version fr \<longleftrightarrow> (\<forall>(c, rw)\<in>set fr. name_ok c \<and> wf_rw v version rw)"

definition wf_ctx :: "view \<Rightarrow> txSimContextImpl \<Rightarrow> bool" where
  "wf_ctx v s \<longleftrightarrow> sc_relyCache s = [] \<and> (\<forall>fr\<in>set (sc_frames s). wf_frame v (sc_blockVersion s) fr)"

lemma wf_NewTxSimContext [simp]: "wf_ctx v (NewTxSimContext tx version)"
  by (simp add: wf_ctx_def NewTxSimContext_def wf_frame_def)

lemma simKey_name_inj:
  assumes "name_ok c" and "name_ok c'" and "simKey c k = simKey c' k'"
  shows "c = c' \<and> k = k'"
  using assms
proof (induction c arbitrary: c')
  case Nil
  then show ?case by (cases c') (auto simp: simKey_def name_ok_def)
next
  case (Cons x c)
  then show ?case by (cases c') (auto simp: simKey_def name_ok_def)
qed

lemma set_update_subset: "set (AList.update k v m) \<subseteq> insert (k, v) (set m)"
  by (induction m) auto

lemma set_merge_map: "set (merge_map dst src) \<subseteq> set dst \<union> set src"
  unfolding merge_map_def
proof (induction src arbitrary: dst)
  case (Cons kv src)
  then show ?case
    using set_update_subset [of "fst kv" "snd kv" dst] by (cases kv) fastforce
qed simp

lemma wf_frame_update: "wf_frame v n fr \<Longrightarrow> name_ok c \<Longrightarrow> wf_rw v n rw \<Longrightarrow> wf_frame v n (AList.update c rw fr)"
  using set_update_subset [of c rw fr] by (auto simp: wf_frame_def)

lemma wf_frame_lookup: "wf_frame v n fr \<Longrightarrow> map_of fr c = Some rw \<Longrightarrow> wf_rw v n rw"
  by (auto simp: wf_frame_def dest: map_of_SomeD)

lemma wf_empty_rwSet [simp]: "wf_rw v n empty_rwSet"
  by (simp add: wf_rw_def empty_rwSet_def)

lemma wf_update_current:
  assumes "wf_ctx v s" and "name_ok c"
    and "\<And>rw. wf_rw v (sc_blockVersion s) rw \<Longrightarrow> wf_rw v (sc_blockVersion s) (f rw)"
  shows "wf_ctx v (update_current c f s)"
proof (cases "sc_frames s")
  case (Cons fr frs)
  have "wf_rw v (sc_blockVersion s) (f (case map_of fr c of None \<Rightarrow> empty_rwSet | Some rw \<Rightarrow> rw))"
    using assms(1,3) Cons by (auto simp: wf_ctx_def dest: wf_frame_lookup split: option.splits)
  then show ?thesis
    using assms(1,2) Cons by (simp add: wf_ctx_def update_current_def wf_frame_update)
qed (use assms(1) in \<open>simp add: wf_ctx_def update_current_def\<close>)

lemma wf_PutIntoReadSet:
  "wf_ctx v s \<Longrightarrow> name_ok c \<Longrightarrow> (v235 \<le> sc_blockVersion s \<Longrightarrow> v c k = Inr b) \<Longrightarrow> wf_ctx v (PutIntoReadSet c k b s)"
  unfolding PutIntoReadSet_def
  by (rule wf_update_current) (auto simp: wf_rw_def dest!: set_update_subset [THEN subsetD])

lemma wf_putIntoWriteSet: "wf_ctx v s \<Longrightarrow> name_ok c \<Longrightarrow> wf_ctx v (snd (putIntoWriteSet c k b s))"
  unfolding putIntoWriteSet_def
  by (auto intro!: wf_update_current simp: wf_rw_def dest!: set_update_subset [THEN subsetD])

lemma wf_Get: "wf_ctx v s \<Longrightarrow> name_ok c \<Longrightarrow> wf_ctx v (snd (sim_Get v c k s))"
  by (auto simp: sim_Get_def getFromRelyCache_def wf_ctx_def [of v s] intro!: wf_PutIntoReadSet
      split: option.splits sum.splits)

lemma wf_rw_merge:
  assumes "wf_rw v n prw" and "wf_rw v n rw"
  shows "wf_rw v n \<lparr>txReadKeyMap = merge_map (txReadKeyMap prw) (txReadKeyMap rw),
      txWriteKeyMap = merge_map (txWriteKeyMap prw) (txWriteKeyMap rw)\<rparr>"
    and "wf_rw v n (prw\<lparr>txReadKeyMap := merge_map (txReadKeyMap prw) (txReadKeyMap rw)\<rparr>)"
  using assms set_merge_map [of "txReadKeyMap prw" "txReadKeyMap rw"]
    set_merge_map [of "txWriteKeyMap prw" "txWriteKeyMap rw"]
  by (fastforce simp: wf_rw_def)+

lemma wf_frame_Cons: "wf_frame v n (crw # fr) \<longleftrightarrow> wf_frame v n [crw] \<and> wf_frame v n fr"
  by (auto simp: wf_frame_def)

lemma wf_frame_contracts:
  assumes "wf_frame v n pre" and "wf_frame v n cur"
  shows "wf_frame v n (fold commit_contract cur pre)" and "wf_frame v n (fold rollback_contract cur pre)"
proof -
  have step: "wf_frame v n (commit_contract crw pre)" "wf_frame v n (rollback_contract crw pre)"
    if "wf_frame v n pre" "wf_frame v n [crw]" for crw pre
    using that
    by (auto simp: commit_contract_def rollback_contract_def Let_def wf_frame_def [of _ _ "[_]"]
        split: option.splits prod.splits intro!: wf_frame_update wf_rw_merge dest: wf_frame_lookup)
  show "wf_frame v n (fold commit_contract cur pre)" "wf_frame v n (fold rollback_contract cur pre)"
    using assms by (induction cur arbitrary: pre) (simp_all, (metis step wf_frame_Cons)+)
qed

lemma wf_CallContract:
  assumes "\<And>p s. names_ok p \<Longrightarrow> wf_ctx v s \<Longrightarrow> wf_ctx v (snd (callee p s))" and "wf_ctx v s" and "env_ok env"
  shows "wf_ctx v (snd (CallContract env callee req s))"
proof -
  define p where "p = RunContract env (tx_Payload (sc_tx s)) (call_contract req) (call_method req)
    (cross_caller_params (sc_blockVersion s) req) (call_gasUsed req) (call_refTxType req)"
  obtain r ty code s' where run: "callee p (s\<lparr>sc_frames := [] # sc_frames s\<rparr>) = ((r, ty, code), s')"
    by (metis surj_pair)
  have "wf_ctx v (s\<lparr>sc_frames := [] # sc_frames s\<rparr>)"
    using assms(2) by (simp add: wf_ctx_def wf_frame_def)
  then have s': "wf_ctx v s'"
    using assms(1) [of p "s\<lparr>sc_frames := [] # sc_frames s\<rparr>"] assms(3) run by (simp add: env_ok_def p_def)
  have "wf_ctx v (s'\<lparr>sc_frames := commitRWSetToPreDepth (sc_frames s')\<rparr>)"
    "wf_ctx v (s'\<lparr>sc_frames := commitRSetAndRollbackWSet (sc_frames s')\<rparr>)"
    using s' by (cases "sc_frames s'" rule: commitRWSetToPreDepth.cases;
        simp add: wf_ctx_def wf_frame_contracts)+
  then show ?thesis
    using assms(2) unfolding CallContract_def p_def [symmetric] by (simp add: run Let_def)
qed

lemma wf_run_with:
  assumes "\<And>req s. wf_ctx v s \<Longrightarrow> wf_ctx v (snd (call req s))"
  shows "names_ok p \<Longrightarrow> wf_ctx v s \<Longrightarrow> wf_ctx v (snd (run_with v call p s))"
proof (induction p arbitrary: s)
  case (GetState c k f)
  then show ?case by (simp add: split_beta Let_def wf_Get)
next
  case (PutState c k b f)
  then show ?case by (simp add: split_beta Let_def sim_Put_def wf_putIntoWriteSet)
next
  case (DelState c k f)
  then show ?case by (simp add: split_beta Let_def sim_Del_def wf_putIntoWriteSet)
next
  case (Call req f)
  then show ?case by (simp add: split_beta Let_def assms del: split_paired_All)
qed simp

lemma wf_run_depth:
  assumes "env_ok env"
  shows "names_ok p \<Longrightarrow> wf_ctx v s \<Longrightarrow> wf_ctx v (snd (run_depth n env v p s))"
proof (induction n arbitrary: p s)
  case 0
  then show ?case
    unfolding run_depth.simps by (intro wf_run_with wf_CallContract assms) auto
next
  case (Suc n)
  then show ?case
    unfolding run_depth.simps by (intro wf_run_with wf_CallContract assms Suc.IH)
qed

lemma wf_run_prog: "env_ok env \<Longrightarrow> names_ok p \<Longrightarrow> wf_ctx v s \<Longrightarrow> wf_ctx v (snd (run_prog env v p s))"
  unfolding run_prog_def by (rule wf_run_depth)

text \<open>Merging maps in either order keeps their keys and adds no entries.\<close>

lemma fold_merge_maps:
  fixes ms :: "(string \<times> 'v) list list"
  shows "dom (map_of (fold (\<lambda>m acc. if b then merge_map m acc else merge_map acc m) ms acc)) =
      dom (map_of acc) \<union> (\<Union>m\<in>set ms. dom (map_of m))"
    and "set (fold (\<lambda>m acc. if b then merge_map m acc else merge_map acc m) ms acc) \<subseteq>
      set acc \<union> (\<Union>m\<in>set ms. set m)"
proof -
  show "dom (map_of (fold (\<lambda>m acc. if b then merge_map m acc else merge_map acc m) ms acc)) =
      dom (map_of acc) \<union> (\<Union>m\<in>set ms. dom (map_of m))"
    by (induction ms arbitrary: acc) auto
  show "set (fold (\<lambda>m acc. if b then merge_map m acc else merge_map acc m) ms acc) \<subseteq>
      set acc \<union> (\<Union>m\<in>set ms. set m)"
  proof (induction ms arbitrary: acc)
    case (Cons m ms)
    have "set (if b then merge_map m acc else merge_map acc m) \<subseteq> set acc \<union> set m"
      using set_merge_map [of m acc] set_merge_map [of acc m] by auto
    then show ?case
      using Cons.IH [of "if b then merge_map m acc else merge_map acc m"] by auto
  qed simp
qed

lemma wf_ctx_entry:
  assumes "wf_ctx v s" and "fr \<in> set (sc_frames s)" and "(c, rw) \<in> set fr"
  shows "name_ok c" and "(kk, r) \<in> set (txReadKeyMap rw) \<Longrightarrow> kk = simKey (r_ContractName r) (r_Key r) \<and>
    name_ok (r_ContractName r) \<and> (v235 \<le> sc_blockVersion s \<longrightarrow> v (r_ContractName r) (r_Key r) = Inr (r_Value r))"
  using assms unfolding wf_ctx_def wf_frame_def wf_rw_def by blast+

text \<open>What is collected is what some frame holds.\<close>

lemma GetTxRWSet_entry:
  obtains reads keys where "set (TxReads (GetTxRWSet ok s)) = (\<lambda>x. the (map_of reads x)) ` set keys"
    and "set keys = dom (map_of reads)"
    and "dom (map_of reads) = (\<Union>fr\<in>set (sc_frames s). \<Union>(c, rw)\<in>set fr. dom (map_of (txReadKeyMap rw)))"
    and "\<forall>kk r. map_of reads kk = Some r \<longrightarrow>
      (\<exists>fr\<in>set (sc_frames s). \<exists>(c, rw)\<in>set fr. (kk, r) \<in> set (txReadKeyMap rw))"
proof -
  define frs where "frs = (if sc_blockVersion s < v235 then sc_frames s else rev (sc_frames s))"
  define ms where "ms = map (\<lambda>(_, rw). txReadKeyMap rw) (concat frs)"
  obtain reads keys where col: "collectReadSetAndKey s = (reads, keys)" by force
  have reads: "reads = fold (\<lambda>m acc. if sc_blockVersion s < blockVersion2312 then merge_map m acc
        else merge_map acc m) ms []" and keys: "keys = concat (map (map fst) ms)"
    using col by (simp_all add: collectReadSetAndKey_def frs_def ms_def Let_def)
  have set_frs: "set frs = set (sc_frames s)"
    by (simp add: frs_def)
  have dom: "dom (map_of reads) = (\<Union>m\<in>set ms. dom (map_of m))"
    using fold_merge_maps(1) [of "sc_blockVersion s < blockVersion2312" ms "[]"] by (simp add: reads)
  have "\<exists>fr\<in>set (sc_frames s). \<exists>(c, rw)\<in>set fr. (kk, r) \<in> set (txReadKeyMap rw)"
    if "map_of reads kk = Some r" for kk r
    using map_of_SomeD [OF that] fold_merge_maps(2) [of "sc_blockVersion s < blockVersion2312" ms "[]"]
    by (force simp: reads ms_def set_frs)
  moreover have "set keys = dom (map_of reads)"
    unfolding dom by (simp add: keys dom_map_of_conv_image_fst)
  moreover have "dom (map_of reads) = (\<Union>fr\<in>set (sc_frames s). \<Union>(c, rw)\<in>set fr. dom (map_of (txReadKeyMap rw)))"
    by (simp add: dom ms_def set_frs split_beta)
  ultimately show ?thesis
    using that [of reads keys] by (simp add: GetTxRWSet_def Let_def split_beta col)
qed

lemma GetTxRWSet_reads:
  assumes "wf_ctx v s" and "(c, k) \<in> recorded s"
  shows "\<exists>r\<in>set (TxReads (GetTxRWSet ok s)). r_ContractName r = c \<and> r_Key r = k"
proof -
  obtain reads keys where g: "set (TxReads (GetTxRWSet ok s)) = (\<lambda>x. the (map_of reads x)) ` set keys"
      "set keys = dom (map_of reads)"
      "dom (map_of reads) = (\<Union>fr\<in>set (sc_frames s). \<Union>(c, rw)\<in>set fr. dom (map_of (txReadKeyMap rw)))"
      and entry: "\<forall>kk r. map_of reads kk = Some r \<longrightarrow>
        (\<exists>fr\<in>set (sc_frames s). \<exists>(c, rw)\<in>set fr. (kk, r) \<in> set (txReadKeyMap rw))"
    by (rule GetTxRWSet_entry [of ok s])
  obtain fr rw where fr: "fr \<in> set (sc_frames s)" "(c, rw) \<in> set fr" "simKey c k \<in> dom (map_of (txReadKeyMap rw))"
    using assms(2) by (auto simp: recorded_def recorded_in_def dest: map_of_SomeD)
  have "simKey c k \<in> dom (map_of reads)"
    unfolding g(3) using fr by blast
  then obtain r where r: "map_of reads (simKey c k) = Some r" "r \<in> set (TxReads (GetTxRWSet ok s))"
    unfolding g(1,2) by force
  obtain fr' c' rw' where "fr' \<in> set (sc_frames s)" "(c', rw') \<in> set fr'" "(simKey c k, r) \<in> set (txReadKeyMap rw')"
    using entry r(1) by blast
  then have "simKey c k = simKey (r_ContractName r) (r_Key r)" "name_ok (r_ContractName r)" "name_ok c"
    using wf_ctx_entry [OF assms(1)] fr(1,2) by blast+
  then show ?thesis
    using simKey_name_inj r(2) by metis
qed

lemma GetTxRWSet_values:
  assumes "wf_ctx v s" and "v235 \<le> sc_blockVersion s" and "r \<in> set (TxReads (GetTxRWSet ok s))"
  shows "v (r_ContractName r) (r_Key r) = Inr (r_Value r)"
proof -
  obtain reads keys where g: "set (TxReads (GetTxRWSet ok s)) = (\<lambda>x. the (map_of reads x)) ` set keys"
      "set keys = dom (map_of reads)"
      "dom (map_of reads) = (\<Union>fr\<in>set (sc_frames s). \<Union>(c, rw)\<in>set fr. dom (map_of (txReadKeyMap rw)))"
      and entry: "\<forall>kk r. map_of reads kk = Some r \<longrightarrow>
        (\<exists>fr\<in>set (sc_frames s). \<exists>(c, rw)\<in>set fr. (kk, r) \<in> set (txReadKeyMap rw))"
    by (rule GetTxRWSet_entry [of ok s])
  obtain kk where "map_of reads kk = Some r"
    using assms(3) unfolding g(1,2) by force
  then obtain fr c rw where "fr \<in> set (sc_frames s)" "(c, rw) \<in> set fr" "(kk, r) \<in> set (txReadKeyMap rw)"
    using entry by blast
  then show ?thesis
    using wf_ctx_entry(2) [OF assms(1)] assms(2) by blast
qed

end
