(* ===== verification/VMCore.thy ===== *)
theory VMCore
  imports SimContext
begin

text \<open>
  What the two implementations of transaction execution share, \<^verbatim>\<open>deterministic/common_vm.go\<close> and
  \<^verbatim>\<open>run_vm.go\<close> with \<^verbatim>\<open>scheduler.go\<close>: parameter checks, the contract cache, charging and
  refunding gas around the contract call, and what follows the call. They differ in when a call is
  charged for; the operations take that decision as the argument \<open>need\<close>.

  The chain configuration, the committed contract table, the payer of a transaction (which needs
  certificates) and the decoding of a multi-sign request are fields of \<open>CommonVMHelper\<close>. Error
  texts are abbreviated to their fixed part. The last sections show that every stage records the reads
  its outcome depends on.
\<close>

section \<open>State\<close>

text \<open>Nested messages of the configuration are options: \<open>None\<close> is the nil pointer.\<close>

record ChainConfig =
  AccountConfig_EnableGas :: "bool option"
  Core_EnableOptimizeChargeGas :: "bool option"
  Vm_Native_Multisign_EnableManualRun :: "bool option option option"

datatype RuntimeType = NATIVE | DOCKER_GO | GO | OtherRuntime nat

record Contract =
  c_Name :: string
  c_RuntimeType :: RuntimeType

text \<open>Gas prices are decimal fractions: a coefficient and a number of decimals.\<close>

type_synonym decimal = "nat \<times> nat"

record GasConfig =
  baseGasForInstall :: "64 word"
  baseGasForInvoke :: "64 word"
  gasPriceForInstall :: decimal
  gasPriceForInvoke :: decimal

record CommonVMHelper =
  h_chainConf :: "ChainConfig option"
  h_env :: vm_env
  h_GetContractByName :: "string \<Rightarrow> string + Contract"
  h_bytecodeError :: "string \<Rightarrow> string option"
  h_payerPk :: "view \<Rightarrow> Transaction \<Rightarrow> string + string"
  h_payerAddr :: "view \<Rightarrow> Transaction \<Rightarrow> string + string"
  h_multiSignCallee :: "bytes \<Rightarrow> (string \<times> string) option"
  h_valueMaxLength :: nat
  h_gasConfig :: "GasConfig option"

type_synonym contract_cache = "(string \<times> Contract) list"

section \<open>Configuration and parameters\<close>

definition CheckGasEnable :: "CommonVMHelper \<Rightarrow> bool" where
  "CheckGasEnable h =
     (case h_chainConf h of
        None \<Rightarrow> False
      | Some cfg \<Rightarrow> (case AccountConfig_EnableGas cfg of None \<Rightarrow> False | Some e \<Rightarrow> e))"

definition IsOptimizeChargeGasEnabled :: "CommonVMHelper \<Rightarrow> bool" where
  "IsOptimizeChargeGasEnabled h =
     (case h_chainConf h of
        None \<Rightarrow> False
      | Some cfg \<Rightarrow>
          (case (AccountConfig_EnableGas cfg, Core_EnableOptimizeChargeGas cfg) of
             (Some enableGas, Some enableOptimizeChargeGas) \<Rightarrow> enableGas \<and> enableOptimizeChargeGas
           | _ \<Rightarrow> False))"

definition getMultiSignEnableManualRun :: "ChainConfig \<Rightarrow> bool" where
  "getMultiSignEnableManualRun cfg =
     (case Vm_Native_Multisign_EnableManualRun cfg of Some (Some (Some b)) \<Rightarrow> b | _ \<Rightarrow> False)"

definition SystemContract_names :: "string list" where
  "SystemContract_names =
     [''CHAIN_CONFIG'', ''CHAIN_QUERY'', ''CERT_MANAGE'', ''GOVERNANCE'', ''MULTI_SIGN'',
      ''CONTRACT_MANAGE'', ''PRIVATE_COMPUTE'', ''DPOS_ERC20'', ''DPOS_STAKE'', ''SUBSCRIBE_MANAGE'',
      ''ARCHIVE_MANAGE'', ''CROSS_TRANSACTION'', ''PUBKEY_MANAGE'', ''ACCOUNT_MANAGER'', ''RELAY_CROSS'',
      ''TRANSACTION_MANAGER'', ''TX_ASSIGN'', ''T'', ''REAL_ESTATE'', ''RECEPIT'', ''DECLARATION'',
      ''EXPORT_REBATE'', ''SOCIAL_SECURITY'', ''ENDORSEMENT'']"

definition IsNativeContract :: "string \<Rightarrow> bool" where
  "IsNativeContract contractName \<longleftrightarrow> contractName \<in> set SystemContract_names"

definition last_param :: "string \<Rightarrow> (string \<times> bytes) list \<Rightarrow> bytes" where
  "last_param name ps = fold (\<lambda>(k, v) acc. if k = name then v else acc) ps None"

definition ParametersKeyMaxCount :: nat where
  "ParametersKeyMaxCount = 50"

definition DefaultMaxStateKeyLen :: nat where
  "DefaultMaxStateKeyLen = 1024"

text \<open>The regular expression of parameter names: one or more letters, digits, dots, underlines, dashes.\<close>

definition keyReg_match :: "string \<Rightarrow> bool" where
  "keyReg_match key \<longleftrightarrow> key \<noteq> [] \<and> list_all (\<lambda>c.
     (CHR ''a'' \<le> c \<and> c \<le> CHR ''z'') \<or> (CHR ''A'' \<le> c \<and> c \<le> CHR ''Z'') \<or>
     (CHR ''0'' \<le> c \<and> c \<le> CHR ''9'') \<or> c = CHR ''.'' \<or> c = CHR ''_'' \<or> c = CHR ''-'') key"

definition bytes_len :: "bytes \<Rightarrow> nat" where
  "bytes_len b = (case b of None \<Rightarrow> 0 | Some s \<Rightarrow> length s)"

fun parse_pairs ::
    "nat \<Rightarrow> (string \<times> bytes) list \<Rightarrow> (string \<times> bytes) list \<Rightarrow> string + (string \<times> bytes) list" where
  "parse_pairs maxValue [] parameters = Inr parameters"
| "parse_pairs maxValue ((key, val) # ps) parameters =
     (if length key > DefaultMaxStateKeyLen then Inl ''expect key length less than''
      else if \<not> keyReg_match key then Inl ''expect key no special characters''
      else if bytes_len val > maxValue then Inl ''expect value length less than''
      else parse_pairs maxValue ps (AList.update key val parameters))"

definition ParseParameter2220 ::
    "CommonVMHelper \<Rightarrow> (string \<times> bytes) list \<Rightarrow> bool \<Rightarrow> string + (string \<times> bytes) list" where
  "ParseParameter2220 h parameterPairs checkParamsNum =
     (if checkParamsNum \<and> length parameterPairs > ParametersKeyMaxCount
      then Inl ''expect parameters length less than''
      else parse_pairs (h_valueMaxLength h) parameterPairs [])"

definition ParseParameter2210 ::
    "CommonVMHelper \<Rightarrow> (string \<times> bytes) list \<Rightarrow> string + (string \<times> bytes) list" where
  "ParseParameter2210 h parameterPairs = ParseParameter2220 h parameterPairs True"

definition GetContractFromCache ::
    "CommonVMHelper \<Rightarrow> string \<Rightarrow> contract_cache \<Rightarrow> (string + Contract) \<times> contract_cache" where
  "GetContractFromCache h contractName cache =
     (case map_of cache contractName of
        Some ct \<Rightarrow> (Inr ct, cache)
      | None \<Rightarrow>
          (case h_GetContractByName h contractName of
             Inl e \<Rightarrow> (Inl e, cache)
           | Inr ct \<Rightarrow> (Inr ct, AList.update contractName ct cache)))"

definition GetContractBytecode :: "CommonVMHelper \<Rightarrow> Contract \<Rightarrow> string option" where
  "GetContractBytecode h contract =
     (if c_RuntimeType contract \<noteq> NATIVE \<and> c_RuntimeType contract \<noteq> DOCKER_GO \<and> c_RuntimeType contract \<noteq> GO
      then h_bytecodeError h (c_Name contract)
      else None)"

definition ReleaseContractCache :: "contract_cache \<Rightarrow> contract_cache" where
  "ReleaseContractCache cache = fold (\<lambda>(k, _) c. AList.delete k c) cache cache"

section \<open>Gas\<close>

fun digits :: "nat \<Rightarrow> string" where
  "digits n =
     (if n < 10 then [char_of (48 + n)] else digits (n div 10) @ [char_of (48 + n mod 10)])"

definition FormatUint :: "64 word \<Rightarrow> string" where
  "FormatUint w = digits (unat w)"

type_synonym gas_filter = "string \<Rightarrow> string \<Rightarrow> Transaction \<Rightarrow> view \<Rightarrow> bool"

definition no_charge :: "gas_filter \<Rightarrow> CommonVMHelper \<Rightarrow> string \<Rightarrow> string \<Rightarrow> Transaction \<Rightarrow> view \<Rightarrow> bool" where
  "no_charge need h contractName method tx v \<longleftrightarrow>
     \<not> CheckGasEnable h \<or> \<not> need contractName method tx v \<or>
     p_TxType (tx_Payload tx) \<noteq> INVOKE_CONTRACT"

text \<open>
  The operations on the result return it updated together with the error, if any; those that
  run the account manager's contract also return the context.
\<close>

definition charge_gas ::
    "gas_filter \<Rightarrow> CommonVMHelper \<Rightarrow> Transaction \<Rightarrow> txSimContextImpl \<Rightarrow> string \<Rightarrow> string \<Rightarrow> string \<Rightarrow> Result \<Rightarrow> view \<Rightarrow>
     Result \<times> string option \<times> txSimContextImpl" where
  "charge_gas need h tx ctx contractName method pk result v =
     (if no_charge need h contractName method tx v then (result, None, ctx)
      else
        case p_Limit (tx_Payload tx) of
          None \<Rightarrow> (result\<lparr>res_Message := ''tx payload limit is nil''\<rparr>, Some ''tx payload limit is nil'', ctx)
        | Some limit \<Rightarrow>
            (let ((r, _, code), ctx') = run_prog (h_env h) v
                   (RunContract (h_env h) (tx_Payload tx) ''ACCOUNT_MANAGER'' ''CHARGE_GAS''
                      [(''charge_public_key'', Some pk), (''charge_gas_amount'', Some (FormatUint limit))]
                      0 INVOKE_CONTRACT) ctx
             in if code \<noteq> SUCCESS
                then (result\<lparr>res_Code := code, res_ContractResult := r\<rparr>, Some (cr_Message r), ctx')
                else (result, None, ctx')))"

definition refund_gas ::
    "gas_filter \<Rightarrow> CommonVMHelper \<Rightarrow> Transaction \<Rightarrow> txSimContextImpl \<Rightarrow> string \<Rightarrow> string \<Rightarrow> string \<Rightarrow> Result \<Rightarrow>
     ContractResult \<Rightarrow> view \<Rightarrow> Result \<times> string option \<times> txSimContextImpl" where
  "refund_gas need h tx ctx contractName method pk result payload v =
     (if no_charge need h contractName method tx v then (result, None, ctx)
      else
        case p_Limit (tx_Payload tx) of
          None \<Rightarrow> (result\<lparr>res_Message := ''tx payload limit is nil''\<rparr>, Some ''tx payload limit is nil'', ctx)
        | Some limit \<Rightarrow>
            if limit < cr_GasUsed payload
            then (result\<lparr>res_Message := ''gas limit is not enough''\<rparr>, Some ''gas limit is not enough'', ctx)
            else
              (let refundGas = limit - cr_GasUsed payload in
               if refundGas = 0 then (result, None, ctx)
               else
                 (let ((r, _, code), ctx') = run_prog (h_env h) v
                        (RunContract (h_env h) (tx_Payload tx) ''ACCOUNT_MANAGER'' ''REFUND_GAS_VM''
                           [(''recharge_key'', Some pk), (''recharge_amount_key'', Some (FormatUint refundGas))]
                           0 INVOKE_CONTRACT) ctx
                  in if code \<noteq> SUCCESS
                     then (result\<lparr>res_Code := code, res_ContractResult := r\<rparr>, Some (cr_Message r), ctx')
                     else (result, None, ctx'))))"

definition GetTxGasLimit :: "Transaction \<Rightarrow> string + 64 word" where
  "GetTxGasLimit tx =
     (case p_Limit (tx_Payload tx) of None \<Rightarrow> Inl ''tx payload limit is nil'' | Some l \<Rightarrow> Inr l)"

definition gas_exceeded :: "64 word \<Rightarrow> Result \<Rightarrow> Result" where
  "gas_exceeded limit result = result\<lparr>res_ContractResult :=
     (res_ContractResult result)\<lparr>cr_Code := 4, cr_Message := ''gas limit is not enough'',
        cr_GasUsed := limit\<rparr>\<rparr>"

definition check_refund_gas ::
    "gas_filter \<Rightarrow> CommonVMHelper \<Rightarrow> Transaction \<Rightarrow> txSimContextImpl \<Rightarrow> string \<Rightarrow> string \<Rightarrow> string \<Rightarrow> Result \<Rightarrow>
     ContractResult \<Rightarrow> bool \<Rightarrow> view \<Rightarrow> Result \<times> string option \<times> txSimContextImpl" where
  "check_refund_gas need h tx ctx contractName method pk result payload enableOptimizeChargeGas v =
     (case GetTxGasLimit tx of
        Inl e \<Rightarrow> (result\<lparr>res_Message := e\<rparr>, Some e, ctx)
      | Inr limit \<Rightarrow>
          if limit < cr_GasUsed payload
          then
            (let r = gas_exceeded limit result
             in (r\<lparr>res_ContractResult := (res_ContractResult r)\<lparr>cr_Result := None, cr_ContractEvent := []\<rparr>\<rparr>,
                 Some ''gas limit is not enough'', ctx))
          else if \<not> enableOptimizeChargeGas
          then
            (let (result', err, ctx') = refund_gas need h tx ctx contractName method pk result payload v in
             case err of
               None \<Rightarrow> (result', None, ctx')
             | Some e \<Rightarrow>
                 if sc_blockVersion ctx' \<ge> 2300
                 then (result'\<lparr>res_Code := INTERNAL_ERROR, res_Message := e, res_ContractResult :=
                         (res_ContractResult result')\<lparr>cr_Code := 1, cr_Message := e, cr_ContractEvent := []\<rparr>\<rparr>,
                       Some e, ctx')
                 else (result', None, ctx'))
          else (result, None, ctx))"

definition account_pk ::
    "gas_filter \<Rightarrow> CommonVMHelper \<Rightarrow> Transaction \<Rightarrow> string \<Rightarrow> string \<Rightarrow> view \<Rightarrow> string + string" where
  "account_pk need h tx contractName method v =
     (if no_charge need h contractName method tx v then Inr []
      else
        case h_GetContractByName h ''ACCOUNT_MANAGER'' of
          Inl e \<Rightarrow> Inl e
        | Inr _ \<Rightarrow> h_payerPk h v tx)"

section \<open>Running the virtual machine\<close>

record vm_outcome =
  vo_result :: Result
  vo_specialTxType :: ExecOrderTxType
  vo_err :: "string option"
  vo_ctx :: txSimContextImpl
  vo_cache :: contract_cache

definition init_result :: Result where
  "init_result = \<lparr>res_Code = SUCCESS,
     res_ContractResult = \<lparr>cr_Code = 0, cr_Result = None, cr_Message = [], cr_GasUsed = 0, cr_ContractEvent = []\<rparr>,
     res_Message = []\<rparr>"

definition errResult :: "Result \<Rightarrow> string \<Rightarrow> txSimContextImpl \<Rightarrow> contract_cache \<Rightarrow> vm_outcome" where
  "errResult result err ctx cache =
     \<lparr>vo_result = result\<lparr>res_Code := INVALID_PARAMETER,
        res_ContractResult := (res_ContractResult result)\<lparr>cr_Message := err, cr_Code := 1\<rparr>\<rparr>,
      vo_specialTxType = ExecOrderTxTypeNormal, vo_err = Some err, vo_ctx = ctx, vo_cache = cache\<rparr>"

text \<open>
  What the versions share: the type check, the parameters, the contract and its byte code, which
  the arguments look up. The continuation gets the contract, the parameters and the cache.
\<close>

definition prepare_vm ::
    "(string \<Rightarrow> contract_cache \<Rightarrow> (string + Contract) \<times> contract_cache) \<Rightarrow> (Contract \<Rightarrow> string option) \<Rightarrow> Transaction \<Rightarrow> txSimContextImpl \<Rightarrow> contract_cache \<Rightarrow>
     string + (string \<times> bytes) list \<Rightarrow>
     (Contract \<Rightarrow> (string \<times> bytes) list \<Rightarrow> contract_cache \<Rightarrow> vm_outcome) \<Rightarrow> vm_outcome" where
  "prepare_vm getContract getByteCode tx ctx cache parsed cont =
     (if p_TxType (tx_Payload tx) \<noteq> QUERY_CONTRACT \<and> p_TxType (tx_Payload tx) \<noteq> INVOKE_CONTRACT
      then errResult init_result ''no such tx type'' ctx cache
      else
        case parsed of
          Inl e \<Rightarrow> errResult init_result e ctx cache
        | Inr parameters \<Rightarrow>
            (case getContract (p_ContractName (tx_Payload tx)) cache of
               (Inl e, cache') \<Rightarrow> errResult init_result e ctx cache'
             | (Inr contract, cache') \<Rightarrow>
                 (case getByteCode contract of
                    Some e \<Rightarrow> errResult init_result e ctx cache'
                  | None \<Rightarrow> cont contract parameters cache')))"

text \<open>The gas limit is charged before the call; a failure ends the run.\<close>

definition charge_then ::
    "gas_filter \<Rightarrow> CommonVMHelper \<Rightarrow> Transaction \<Rightarrow> txSimContextImpl \<Rightarrow> contract_cache \<Rightarrow> string \<Rightarrow> string \<Rightarrow> view \<Rightarrow>
     (string \<Rightarrow> Result \<Rightarrow> txSimContextImpl \<Rightarrow> vm_outcome) \<Rightarrow> vm_outcome" where
  "charge_then need h tx ctx cache contractName method v cont =
     (case account_pk need h tx contractName method v of
        Inl e \<Rightarrow> \<lparr>vo_result = init_result, vo_specialTxType = ExecOrderTxTypeNormal, vo_err = Some e,
                 vo_ctx = ctx, vo_cache = cache\<rparr>
      | Inr pk \<Rightarrow>
          (let (result, err, ctx') = charge_gas need h tx ctx contractName method pk init_result v in
           case err of
             Some e \<Rightarrow> \<lparr>vo_result = result\<lparr>res_Code := GAS_BALANCE_NOT_ENOUGH_FAILED, res_Message := e,
                          res_ContractResult := (res_ContractResult result)\<lparr>cr_Code := 1, cr_Message := e\<rparr>\<rparr>,
                        vo_specialTxType = ExecOrderTxTypeNormal, vo_err = Some e, vo_ctx = ctx', vo_cache = cache\<rparr>
           | None \<Rightarrow> cont pk result ctx'))"

definition call_contract_of ::
    "CommonVMHelper \<Rightarrow> Transaction \<Rightarrow> Contract \<Rightarrow> (string \<times> bytes) list \<Rightarrow> 64 word \<Rightarrow> view \<Rightarrow> txSimContextImpl \<Rightarrow>
     (ContractResult \<times> ExecOrderTxType \<times> TxStatusCode) \<times> txSimContextImpl" where
  "call_contract_of h tx contract parameters gasUsed v ctx =
     run_prog (h_env h) v
       (RunContract (h_env h) (tx_Payload tx) (c_Name contract) (p_Method (tx_Payload tx)) parameters gasUsed (p_TxType (tx_Payload tx))) ctx"

definition vm_done :: "TxStatusCode \<Rightarrow> ContractResult \<Rightarrow> string option" where
  "vm_done code payload = (if code = SUCCESS then None else Some (cr_Message payload))"

text \<open>
  What follows the contract call. Where gas is enabled and the call is not charged for,
  the two newer versions return no error whatever the status code.
\<close>

definition finish_2300 ::
    "gas_filter \<Rightarrow> CommonVMHelper \<Rightarrow> Transaction \<Rightarrow> bool \<Rightarrow> Contract \<Rightarrow> contract_cache \<Rightarrow> string \<Rightarrow> Result \<Rightarrow> view \<Rightarrow>
     (ContractResult \<times> ExecOrderTxType \<times> TxStatusCode) \<times> txSimContextImpl \<Rightarrow> vm_outcome" where
  "finish_2300 need h tx enableOptimizeChargeGas contract cache pk result v called =
     (let method = p_Method (tx_Payload tx);
          ((payload, ty, code), ctx2) = called;
          result' = result\<lparr>res_Code := code, res_ContractResult := payload\<rparr>;
          out = \<lparr>vo_result = result', vo_specialTxType = ty, vo_err = vm_done code payload,
                 vo_ctx = ctx2, vo_cache = cache\<rparr>
      in if CheckGasEnable h
         then
           (if \<not> need (c_Name contract) method tx v then out\<lparr>vo_err := None\<rparr>
            else
              (let (result'', err, ctx3) = check_refund_gas need h tx ctx2 (p_ContractName (tx_Payload tx)) method
                     pk result' payload enableOptimizeChargeGas v
               in case err of
                    Some e \<Rightarrow> out\<lparr>vo_result := result'', vo_err := Some e, vo_ctx := ctx3\<rparr>
                  | None \<Rightarrow> out\<lparr>vo_result := result'', vo_ctx := ctx3\<rparr>))
         else out)"

definition finish_2220 ::
    "gas_filter \<Rightarrow> CommonVMHelper \<Rightarrow> Transaction \<Rightarrow> bool \<Rightarrow> Contract \<Rightarrow> contract_cache \<Rightarrow> string \<Rightarrow> Result \<Rightarrow> view \<Rightarrow>
     (ContractResult \<times> ExecOrderTxType \<times> TxStatusCode) \<times> txSimContextImpl \<Rightarrow> vm_outcome" where
  "finish_2220 need h tx enableOptimizeChargeGas contract cache pk result v called =
     (let method = p_Method (tx_Payload tx);
          ((payload, ty, code), ctx2) = called;
          result' = result\<lparr>res_Code := code, res_ContractResult := payload\<rparr>;
          out = \<lparr>vo_result = result', vo_specialTxType = ty, vo_err = vm_done code payload,
                 vo_ctx = ctx2, vo_cache = cache\<rparr>
      in if CheckGasEnable h
         then
           (if \<not> need (c_Name contract) method tx v then out\<lparr>vo_err := None\<rparr>
            else
              case GetTxGasLimit tx of
                Inl e \<Rightarrow> out\<lparr>vo_result := result'\<lparr>res_Message := e\<rparr>, vo_err := Some e\<rparr>
              | Inr limit \<Rightarrow>
                  if limit < cr_GasUsed payload
                  then out\<lparr>vo_result := gas_exceeded limit result',
                           vo_err := Some ''gas limit is not enough''\<rparr>
                  else if \<not> enableOptimizeChargeGas
                  then
                    (let (result'', _, ctx3) = refund_gas need h tx ctx2 (p_ContractName (tx_Payload tx))
                           method pk result' payload v
                     in out\<lparr>vo_result := result'', vo_ctx := ctx3\<rparr>)
                  else out)
         else out)"

definition finish_2210 ::
    "gas_filter \<Rightarrow> CommonVMHelper \<Rightarrow> Transaction \<Rightarrow> contract_cache \<Rightarrow> string \<Rightarrow> Result \<Rightarrow> view \<Rightarrow>
     (ContractResult \<times> ExecOrderTxType \<times> TxStatusCode) \<times> txSimContextImpl \<Rightarrow> vm_outcome" where
  "finish_2210 need h tx cache pk result v called =
     (let ((payload, ty, code), ctx2) = called;
          (result', _, ctx3) = refund_gas need h tx ctx2 (p_ContractName (tx_Payload tx))
            (p_Method (tx_Payload tx)) pk
            (result\<lparr>res_Code := code, res_ContractResult := payload\<rparr>) payload v
      in \<lparr>vo_result = result', vo_specialTxType = ty, vo_err = vm_done code payload,
          vo_ctx = ctx3, vo_cache = cache\<rparr>)"

record exec_result =
  er_ctx :: txSimContextImpl
  er_specialTxType :: ExecOrderTxType
  er_runVmSuccess :: bool
  er_tx :: Transaction
  er_cache :: contract_cache

text \<open>
  A guard decides whether the virtual machine runs; otherwise it has set the result.
\<close>

definition guarded_run ::
    "bool \<times> txSimContextImpl \<times> Transaction \<Rightarrow> (txSimContextImpl \<Rightarrow> vm_outcome) \<Rightarrow> contract_cache \<Rightarrow> exec_result" where
  "guarded_run guard run cache =
     (case guard of (go, ctx1, tx1) \<Rightarrow>
        if \<not> go
        then \<lparr>er_ctx = ctx1, er_specialTxType = ExecOrderTxTypeNormal, er_runVmSuccess = False,
              er_tx = tx1, er_cache = cache\<rparr>
        else
          (let out = run ctx1
           in \<lparr>er_ctx = SetTxResult (Some (vo_result out)) (vo_ctx out),
               er_specialTxType = vo_specialTxType out,
               er_runVmSuccess = (vo_err out = None), er_tx = tx1, er_cache = vo_cache out\<rparr>))"

section \<open>Every stage keeps the context\<close>

text \<open>A stage keeps well-formed contexts well-formed and forgets no recorded read.\<close>

definition advances :: "view \<Rightarrow> txSimContextImpl \<Rightarrow> txSimContextImpl \<Rightarrow> bool" where
  "advances v ctx ctx' \<longleftrightarrow> (sc_frames ctx \<noteq> [] \<longrightarrow> wf_ctx v ctx \<longrightarrow> keeps ctx ctx' \<and> wf_ctx v ctx')"

lemma advances_refl [simp]: "advances v ctx ctx"
  by (simp add: advances_def)

lemma advances_trans: "advances v a b \<Longrightarrow> advances v b c \<Longrightarrow> advances v a c"
  unfolding advances_def keeps_def by (metis length_0_conv order_trans)

lemma advances_ready:
  "advances v a b \<Longrightarrow> sc_frames a \<noteq> [] \<Longrightarrow> wf_ctx v a \<Longrightarrow> sc_frames b \<noteq> [] \<and> wf_ctx v b \<and> recorded a \<subseteq> recorded b"
  unfolding advances_def keeps_def by (metis length_0_conv)

lemma advances_run:
  assumes "env_ok (h_env h)"
  shows "advances v ctx (snd (run_prog (h_env h) v (RunContract (h_env h) pl c m ps g ty) ctx))"
proof -
  have "names_ok (RunContract (h_env h) pl c m ps g ty)"
    using assms by (simp add: env_ok_def)
  then show ?thesis
    using wf_run_prog [OF assms] by (simp add: advances_def run_prog_def keeps_run_depth)
qed

lemma advances_Charge:
  "env_ok (h_env h) \<Longrightarrow> advances v ctx (snd (snd (charge_gas need h tx ctx c m pk res v)))"
  by (simp add: charge_gas_def Let_def split_beta advances_run split: option.splits)

lemma advances_Refund:
  "env_ok (h_env h) \<Longrightarrow> advances v ctx (snd (snd (refund_gas need h tx ctx c m pk res payload v)))"
  by (simp add: refund_gas_def Let_def split_beta advances_run split: option.splits)

lemma advances_CheckRefund:
  "env_ok (h_env h) \<Longrightarrow> advances v ctx (snd (snd (check_refund_gas need h tx ctx c m pk res payload opt v)))"
  using advances_Refund [of h v ctx need tx c m pk res payload]
  by (simp add: check_refund_gas_def Let_def split_beta split: option.splits sum.splits)

lemma advances_call:
  "env_ok (h_env h) \<Longrightarrow> advances v ctx (snd (call_contract_of h tx ct ps gu v ctx))"
  by (simp add: call_contract_of_def advances_run)

section \<open>Every stage is local\<close>

text \<open>
  Two views that agree on the recorded reads of a context, where the reads that go past the
  context (multi-sign request, payer) are also the same.
\<close>

definition same_unrecorded :: "gas_filter \<Rightarrow> CommonVMHelper \<Rightarrow> Transaction \<Rightarrow> view \<Rightarrow> view \<Rightarrow> bool" where
  "same_unrecorded need h tx v v' \<longleftrightarrow>
     (\<forall>c. need c (p_Method (tx_Payload tx)) tx v' = need c (p_Method (tx_Payload tx)) tx v) \<and>
     h_payerPk h v' tx = h_payerPk h v tx \<and> h_payerAddr h v' tx = h_payerAddr h v tx"

abbreviation alike :: "gas_filter \<Rightarrow> CommonVMHelper \<Rightarrow> Transaction \<Rightarrow> view \<Rightarrow> view \<Rightarrow> txSimContextImpl \<Rightarrow> bool" where
  "alike need h tx v v' ctx \<equiv> same_unrecorded need h tx v v' \<and> total_view v \<and> agree_on v v' (recorded ctx)"

lemma local_run:
  "alike need h tx v v' (snd (run_prog env v p ctx)) \<Longrightarrow> sc_frames ctx \<noteq> [] \<Longrightarrow>
     run_prog env v' p ctx = run_prog env v p ctx"
  by (simp add: run_prog_local)

lemma no_charge_same:
  "same_unrecorded need h tx v v' \<Longrightarrow> no_charge need h c (p_Method (tx_Payload tx)) tx v' = no_charge need h c (p_Method (tx_Payload tx)) tx v"
  by (simp add: no_charge_def same_unrecorded_def)

lemma local_Charge:
  assumes "alike need h tx v v' (snd (snd (charge_gas need h tx ctx c (p_Method (tx_Payload tx)) pk res v)))"
    and "sc_frames ctx \<noteq> []"
  shows "charge_gas need h tx ctx c (p_Method (tx_Payload tx)) pk res v' =
    charge_gas need h tx ctx c (p_Method (tx_Payload tx)) pk res v"
proof -
  have nc: "no_charge need h c (p_Method (tx_Payload tx)) tx v' = no_charge need h c (p_Method (tx_Payload tx)) tx v"
    using assms(1) no_charge_same by blast
  show ?thesis
  proof (cases "no_charge need h c (p_Method (tx_Payload tx)) tx v \<or> p_Limit (tx_Payload tx) = None")
  case False
  then obtain limit where limit: "p_Limit (tx_Payload tx) = Some limit" by auto
  define p where "p = RunContract (h_env h) (tx_Payload tx) ''ACCOUNT_MANAGER'' ''CHARGE_GAS''
    [(''charge_public_key'', Some pk), (''charge_gas_amount'', Some (FormatUint limit))] 0 INVOKE_CONTRACT"
  have "snd (snd (charge_gas need h tx ctx c (p_Method (tx_Payload tx)) pk res v)) =
      snd (run_prog (h_env h) v p ctx)"
    using False limit by (simp add: charge_gas_def p_def split_beta Let_def)
  then have "run_prog (h_env h) v' p ctx = run_prog (h_env h) v p ctx"
    using assms local_run by metis
  then show ?thesis
    using limit by (simp add: charge_gas_def p_def nc)
  qed (auto simp: charge_gas_def nc)
qed

lemma local_Refund:
  assumes "alike need h tx v v' (snd (snd (refund_gas need h tx ctx c (p_Method (tx_Payload tx)) pk res payload v)))"
    and "sc_frames ctx \<noteq> []"
  shows "refund_gas need h tx ctx c (p_Method (tx_Payload tx)) pk res payload v' =
    refund_gas need h tx ctx c (p_Method (tx_Payload tx)) pk res payload v"
proof -
  have nc: "no_charge need h c (p_Method (tx_Payload tx)) tx v' = no_charge need h c (p_Method (tx_Payload tx)) tx v"
    using assms(1) no_charge_same by blast
  show ?thesis
  proof (cases "no_charge need h c (p_Method (tx_Payload tx)) tx v \<or> p_Limit (tx_Payload tx) = None")
  case False
  then obtain limit where limit: "p_Limit (tx_Payload tx) = Some limit" by auto
  show ?thesis
  proof (cases "limit < cr_GasUsed payload \<or> limit - cr_GasUsed payload = 0")
    case True
    then show ?thesis
      using limit by (auto simp: refund_gas_def Let_def nc)
  next
    case no: False
    define p where "p = RunContract (h_env h) (tx_Payload tx) ''ACCOUNT_MANAGER'' ''REFUND_GAS_VM''
      [(''recharge_key'', Some pk), (''recharge_amount_key'', Some (FormatUint (limit - cr_GasUsed payload)))] 0 INVOKE_CONTRACT"
    have "snd (snd (refund_gas need h tx ctx c (p_Method (tx_Payload tx)) pk res payload v)) =
        snd (run_prog (h_env h) v p ctx)"
      using False limit no by (simp add: refund_gas_def p_def split_beta Let_def)
    then have "run_prog (h_env h) v' p ctx = run_prog (h_env h) v p ctx"
      using assms local_run by metis
    then show ?thesis
      using limit by (simp add: refund_gas_def p_def nc Let_def)
  qed
  qed (auto simp: refund_gas_def nc)
qed

lemma local_CheckRefund:
  assumes "alike need h tx v v' (snd (snd (check_refund_gas need h tx ctx c (p_Method (tx_Payload tx)) pk res payload opt v)))"
    and "sc_frames ctx \<noteq> []"
  shows "check_refund_gas need h tx ctx c (p_Method (tx_Payload tx)) pk res payload opt v' =
    check_refund_gas need h tx ctx c (p_Method (tx_Payload tx)) pk res payload opt v"
proof (cases "\<exists>limit. GetTxGasLimit tx = Inr limit \<and> \<not> limit < cr_GasUsed payload \<and> \<not> opt")
  case True
  then have "snd (snd (check_refund_gas need h tx ctx c (p_Method (tx_Payload tx)) pk res payload opt v)) =
      snd (snd (refund_gas need h tx ctx c (p_Method (tx_Payload tx)) pk res payload v))"
    by (auto simp: check_refund_gas_def Let_def split_beta split: option.splits)
  then have "refund_gas need h tx ctx c (p_Method (tx_Payload tx)) pk res payload v' =
      refund_gas need h tx ctx c (p_Method (tx_Payload tx)) pk res payload v"
    using assms by (intro local_Refund) simp_all
  then show ?thesis by (simp only: check_refund_gas_def)
qed (auto simp: check_refund_gas_def split: sum.splits)

lemma local_call:
  assumes "alike need h tx v v' (snd (call_contract_of h tx ct ps gu v ctx))" and "sc_frames ctx \<noteq> []"
  shows "call_contract_of h tx ct ps gu v' ctx = call_contract_of h tx ct ps gu v ctx"
  using assms unfolding call_contract_of_def by (rule local_run)

lemma alike_earlier:
  "alike need h tx v v' ctx' \<Longrightarrow> advances v ctx ctx' \<Longrightarrow> sc_frames ctx \<noteq> [] \<Longrightarrow> wf_ctx v ctx \<Longrightarrow> alike need h tx v v' ctx"
  using advances_ready [of v ctx ctx'] agree_on_subset by blast

text \<open>
  A stage that starts at \<open>ctx\<close> and yields an outcome under each view: it advances the context,
  and under alike views it yields the same outcome.
\<close>

definition local_stage ::
    "gas_filter \<Rightarrow> CommonVMHelper \<Rightarrow> Transaction \<Rightarrow> view \<Rightarrow> view \<Rightarrow> txSimContextImpl \<Rightarrow> vm_outcome \<Rightarrow> vm_outcome \<Rightarrow> bool" where
  "local_stage need h tx v v' ctx out out' \<longleftrightarrow> sc_frames ctx \<noteq> [] \<longrightarrow> wf_ctx v ctx \<longrightarrow>
     advances v ctx (vo_ctx out) \<and> (alike need h tx v v' (vo_ctx out) \<longrightarrow> out' = out)"

lemma local_stage_refl: "advances v ctx (vo_ctx out) \<Longrightarrow> local_stage need h tx v v' ctx out out"
  by (simp add: local_stage_def)

text \<open>Composition: a step to \<open>ctx1\<close>, the same under alike views, then a stage from there.\<close>

lemma local_stage_step:
  assumes "advances v ctx ctx1"
    and "sc_frames ctx \<noteq> [] \<Longrightarrow> wf_ctx v ctx \<Longrightarrow> alike need h tx v v' ctx1 \<Longrightarrow> y' = y"
    and "local_stage need h tx v v' ctx1 (g y) (g' y)"
  shows "local_stage need h tx v v' ctx (g y) (g' y')"
  unfolding local_stage_def
proof (intro impI)
  assume ctx: "sc_frames ctx \<noteq> []" "wf_ctx v ctx"
  have ctx1: "sc_frames ctx1 \<noteq> []" "wf_ctx v ctx1"
    using advances_ready [OF assms(1) ctx] by auto
  then have st: "advances v ctx1 (vo_ctx (g y))" "alike need h tx v v' (vo_ctx (g y)) \<Longrightarrow> g' y = g y"
    using assms(3) by (auto simp: local_stage_def)
  moreover have "y' = y" if "alike need h tx v v' (vo_ctx (g y))"
    using assms(2) [OF ctx] alike_earlier [OF that st(1) ctx1] by simp
  ultimately show "advances v ctx (vo_ctx (g y)) \<and> (alike need h tx v v' (vo_ctx (g y)) \<longrightarrow> g' y' = g y)"
    using advances_trans [OF assms(1)] by blast
qed

lemma local_stage_cong:
  "local_stage need h tx v v' ctx out out' \<Longrightarrow> (same_unrecorded need h tx v v' \<Longrightarrow> out2 = out') \<Longrightarrow>
     local_stage need h tx v v' ctx out out2"
  by (auto simp: local_stage_def)

lemma call_stage:
  assumes env: "env_ok (h_env h)"
    and rest: "\<And>payload ty code ctx2. local_stage need h tx v v' ctx2 (f v ((payload, ty, code), ctx2)) (f v' ((payload, ty, code), ctx2))"
  shows "local_stage need h tx v v' ctx (f v (call_contract_of h tx ct ps gu v ctx)) (f v' (call_contract_of h tx ct ps gu v' ctx))"
proof -
  obtain payload ty code ctx2 where y: "call_contract_of h tx ct ps gu v ctx = ((payload, ty, code), ctx2)"
    by (metis surj_pair)
  have "advances v ctx ctx2"
    using advances_call [OF env, of v ctx tx ct ps gu] y by simp
  moreover have "call_contract_of h tx ct ps gu v' ctx = ((payload, ty, code), ctx2)"
    if "sc_frames ctx \<noteq> []" "wf_ctx v ctx" "alike need h tx v v' ctx2"
    using local_call [of need h tx v v' ct ps gu ctx] that y by simp
  ultimately show ?thesis
    unfolding y using rest by (rule local_stage_step [of _ _ _ _ _ _ _ _ _ "f v" "f v'"])
qed

lemma finish_2300_stage:
  assumes env: "env_ok (h_env h)"
  shows "local_stage need h tx v v' ctx2 (finish_2300 need h tx opt ct ca pk res v ((payload, ty, code), ctx2))
    (finish_2300 need h tx opt ct ca pk res v' ((payload, ty, code), ctx2))"
proof -
  let ?m = "p_Method (tx_Payload tx)" and ?c = "p_ContractName (tx_Payload tx)"
  obtain r e ctx3 where cr: "check_refund_gas need h tx ctx2 ?c ?m pk
      (res\<lparr>res_Code := code, res_ContractResult := payload\<rparr>) payload opt v = (r, e, ctx3)"
    by (metis surj_pair)
  have adv: "advances v ctx2 ctx3"
    using advances_CheckRefund [OF env] cr by (metis snd_conv)
  show ?thesis
  proof (cases "CheckGasEnable h \<and> need (c_Name ct) ?m tx v")
    case True
    then have "vo_ctx (finish_2300 need h tx opt ct ca pk res v ((payload, ty, code), ctx2)) = ctx3"
      by (simp add: finish_2300_def cr Let_def split: option.splits)
    moreover have "finish_2300 need h tx opt ct ca pk res v' ((payload, ty, code), ctx2) =
        finish_2300 need h tx opt ct ca pk res v ((payload, ty, code), ctx2)"
      if "alike need h tx v v' ctx3" "sc_frames ctx2 \<noteq> []"
      using that True local_CheckRefund [of need h tx v v' ctx2 ?c pk _ payload opt] cr
      by (simp add: finish_2300_def same_unrecorded_def)
    ultimately show ?thesis
      using adv by (simp add: local_stage_def)
  qed (auto simp: local_stage_def finish_2300_def Let_def same_unrecorded_def)
qed

lemma finish_2220_stage:
  assumes env: "env_ok (h_env h)"
  shows "local_stage need h tx v v' ctx2 (finish_2220 need h tx opt ct ca pk res v ((payload, ty, code), ctx2))
    (finish_2220 need h tx opt ct ca pk res v' ((payload, ty, code), ctx2))"
proof -
  let ?m = "p_Method (tx_Payload tx)" and ?c = "p_ContractName (tx_Payload tx)"
  obtain r e ctx3 where cr: "refund_gas need h tx ctx2 ?c ?m pk
      (res\<lparr>res_Code := code, res_ContractResult := payload\<rparr>) payload v = (r, e, ctx3)"
    by (metis surj_pair)
  have adv: "advances v ctx2 ctx3"
    using advances_Refund [OF env] cr by (metis snd_conv)
  show ?thesis
  proof (cases "CheckGasEnable h \<and> need (c_Name ct) ?m tx v \<and>
      (\<exists>limit. GetTxGasLimit tx = Inr limit \<and> \<not> limit < cr_GasUsed payload \<and> \<not> opt)")
    case True
    then have "vo_ctx (finish_2220 need h tx opt ct ca pk res v ((payload, ty, code), ctx2)) = ctx3"
      by (auto simp: finish_2220_def cr Let_def)
    moreover have "finish_2220 need h tx opt ct ca pk res v' ((payload, ty, code), ctx2) =
        finish_2220 need h tx opt ct ca pk res v ((payload, ty, code), ctx2)"
      if "alike need h tx v v' ctx3" "sc_frames ctx2 \<noteq> []"
      using that True local_Refund [of need h tx v v' ctx2 ?c pk _ payload] cr
      by (auto simp: finish_2220_def same_unrecorded_def)
    ultimately show ?thesis
      using adv by (simp add: local_stage_def)
  qed (auto simp: local_stage_def finish_2220_def Let_def same_unrecorded_def split: sum.splits)
qed

lemma finish_2210_stage:
  assumes env: "env_ok (h_env h)"
  shows "local_stage need h tx v v' ctx2 (finish_2210 need h tx ca pk res v ((payload, ty, code), ctx2))
    (finish_2210 need h tx ca pk res v' ((payload, ty, code), ctx2))"
  using advances_Refund [OF env, of v ctx2 need tx "p_ContractName (tx_Payload tx)" "p_Method (tx_Payload tx)" pk]
    local_Refund [of need h tx v v' ctx2 "p_ContractName (tx_Payload tx)" pk _ payload]
  by (simp add: local_stage_def finish_2210_def split_beta Let_def)

lemma charge_then_stage:
  assumes env: "env_ok (h_env h)"
    and cont: "\<And>pk res ctx'. local_stage need h tx v v' ctx' (cont pk res ctx') (cont' pk res ctx')"
  shows "local_stage need h tx v v' ctx (charge_then need h tx ctx ca c (p_Method (tx_Payload tx)) v cont)
    (charge_then need h tx ctx ca c (p_Method (tx_Payload tx)) v' cont')"
proof -
  let ?m = "p_Method (tx_Payload tx)"
  have acct: "account_pk need h tx c ?m v' = account_pk need h tx c ?m v"
    if "same_unrecorded need h tx v v'"
    using that by (simp add: account_pk_def no_charge_same)
      (auto simp add: same_unrecorded_def split: sum.splits)
  show ?thesis
  proof (cases "account_pk need h tx c ?m v")
    case (Inl e)
    then show ?thesis using acct by (auto simp: local_stage_def charge_then_def)
  next
    case (Inr pk)
    obtain res err ctx1 where ch: "charge_gas need h tx ctx c ?m pk init_result v = (res, err, ctx1)"
      by (metis surj_pair)
    define g where "g = (\<lambda>k y. case y of (result, err, ctx') \<Rightarrow> (case err of
        Some e \<Rightarrow> \<lparr>vo_result = result\<lparr>res_Code := GAS_BALANCE_NOT_ENOUGH_FAILED, res_Message := e,
                     res_ContractResult := (res_ContractResult result)\<lparr>cr_Code := 1, cr_Message := e\<rparr>\<rparr>,
                   vo_specialTxType = ExecOrderTxTypeNormal, vo_err = Some e, vo_ctx = ctx', vo_cache = ca\<rparr>
      | None \<Rightarrow> k pk result ctx'))"
    have eq: "charge_then need h tx ctx ca c ?m w k = g k (charge_gas need h tx ctx c ?m pk init_result w)"
      if "account_pk need h tx c ?m w = Inr pk" for w k
      using that by (simp add: charge_then_def g_def split_beta Let_def)
    have "advances v ctx ctx1"
      using advances_Charge [OF env, of v ctx need tx c ?m pk init_result] ch by simp
    moreover have "charge_gas need h tx ctx c ?m pk init_result v' = (res, err, ctx1)"
      if "sc_frames ctx \<noteq> []" "wf_ctx v ctx" "alike need h tx v v' ctx1"
      using local_Charge [of need h tx v v' ctx c pk init_result] that ch by simp
    moreover have "local_stage need h tx v v' ctx1 (g cont (res, err, ctx1)) (g cont' (res, err, ctx1))"
      using cont by (cases err) (auto simp: g_def local_stage_refl)
    ultimately have "local_stage need h tx v v' ctx (g cont (res, err, ctx1))
        (g cont' (charge_gas need h tx ctx c ?m pk init_result v'))"
      by (rule local_stage_step)
    then show ?thesis
      unfolding eq [OF Inr] ch by (rule local_stage_cong) (simp add: eq acct Inr)
  qed
qed

lemma prepare_vm_stage:
  assumes "\<And>ct ps ca. local_stage need h tx v v' ctx (cont ct ps ca) (cont' ct ps ca)"
  shows "local_stage need h tx v v' ctx (prepare_vm gc gb tx ctx ca parsed cont) (prepare_vm gc gb tx ctx ca parsed cont')"
  using assms
  by (auto simp: prepare_vm_def errResult_def intro!: local_stage_refl split: sum.splits option.splits prod.splits)

section \<open>The executor\<close>

lemma ctx_SetTxResult [simp]:
  "recorded (SetTxResult r ctx) = recorded ctx" "wf_ctx v (SetTxResult r ctx) = wf_ctx v ctx"
  "sc_frames (SetTxResult r ctx) = sc_frames ctx"
  "sc_tx (SetTxResult r ctx) = sc_tx ctx" "sc_blockVersion (SetTxResult r ctx) = sc_blockVersion ctx"
  by (simp_all add: SetTxResult_def recorded_def wf_ctx_def)

lemma ready_New [simp]: "sc_frames (NewTxSimContext tx version) \<noteq> []"
  by (simp add: NewTxSimContext_def)

text \<open>A guard leaves the new context alone but for its result.\<close>

definition guard_ok :: "Transaction \<Rightarrow> nat \<Rightarrow> bool \<times> txSimContextImpl \<times> Transaction \<Rightarrow> bool" where
  "guard_ok tx version guard \<longleftrightarrow> (case guard of (go, ctx1, tx1) \<Rightarrow>
     (\<exists>r. ctx1 = SetTxResult r (NewTxSimContext tx version)) \<and> (go \<longrightarrow> ctx1 = NewTxSimContext tx version))"

text \<open>
  A guarded run from a new context, where guard and run are the same for alike views: the context it ends
  with is well-formed and belongs to the transaction, and the outcome is determined by the recorded reads.
\<close>

lemma guarded_run_local:
  fixes cache :: contract_cache
  assumes guard: "guard_ok tx version guard" "same_unrecorded need h tx v v' \<Longrightarrow> guard' = guard"
    and stage: "\<And>ctx. local_stage need h tx v v' ctx (run ctx) (run' ctx)"
  defines "er \<equiv> guarded_run guard run cache"
  shows "wf_ctx v (er_ctx er)" and "sc_tx (er_ctx er) = tx" and "sc_blockVersion (er_ctx er) = version"
    and "alike need h tx v v' (er_ctx er) \<Longrightarrow> guarded_run guard' run' cache = er"
proof -
  let ?new = "NewTxSimContext tx version"
  obtain go ctx1 tx1 where g: "guard = (go, ctx1, tx1)"
    by (metis surj_pair)
  have st: "advances v ?new (vo_ctx (run ?new))" "alike need h tx v v' (vo_ctx (run ?new)) \<Longrightarrow> run' ?new = run ?new"
    using stage [of ?new] by (auto simp: local_stage_def)
  have "wf_ctx v (er_ctx er) \<and> sc_tx (er_ctx er) = tx \<and> sc_blockVersion (er_ctx er) = version"
  proof (cases go)
    case True
    then have "er_ctx er = SetTxResult (Some (vo_result (run ?new))) (vo_ctx (run ?new))"
      using guard(1) by (simp add: er_def guarded_run_def g guard_ok_def Let_def)
    then show ?thesis
      using st(1) by (simp add: advances_def keeps_def) (simp add: NewTxSimContext_def)
  next
    case False
    then have "\<exists>r. er_ctx er = SetTxResult r ?new"
      using guard(1) by (simp add: er_def guarded_run_def g guard_ok_def)
    then show ?thesis
      by (auto simp: NewTxSimContext_def [of tx version] wf_NewTxSimContext [unfolded NewTxSimContext_def])
  qed
  then show "wf_ctx v (er_ctx er)" "sc_tx (er_ctx er) = tx" "sc_blockVersion (er_ctx er) = version"
    by simp_all
  assume "alike need h tx v v' (er_ctx er)"
  then show "guarded_run guard' run' cache = er"
    using guard st(2) by (cases go) (auto simp: er_def guarded_run_def g guard_ok_def Let_def)
qed

end
