(* ===== verification/CommonVM.thy ===== *)
theory CommonVM
  imports VMCore
begin

text \<open>
  Execution of one transaction by the deterministic schedulers, \<^verbatim>\<open>deterministic/common_vm.go\<close>:
  when a call is charged for, the guards that keep a transaction out of the virtual machine, and the
  versions of \<^verbatim>\<open>RunVM\<close> the block version selects. The last section shows that \<open>ExecuteTx\<close> is an
  \<open>executor\<close> for the schedulers.
\<close>

section \<open>Gas\<close>

text \<open>Whether a call is charged for. The multi-sign request is read from the snapshot directly.\<close>

definition CheckNativeFilter :: "CommonVMHelper \<Rightarrow> string \<Rightarrow> string \<Rightarrow> Transaction \<Rightarrow> view \<Rightarrow> bool" where
  "CheckNativeFilter h contractName method tx v =
     (if \<not> IsNativeContract contractName then True
      else if method = ''INIT_CONTRACT'' \<or> method = ''UPGRADE_CONTRACT'' then True
      else if contractName = ''MULTI_SIGN'' \<and> method = ''TRIG'' \<and>
        (case h_chainConf h of None \<Rightarrow> False | Some cfg \<Rightarrow> getMultiSignEnableManualRun cfg)
      then
        (let multiSignReqId = last_param ''TX_ID'' (p_Parameters (tx_Payload tx)) in
         case v contractName (case multiSignReqId of None \<Rightarrow> [] | Some k \<Rightarrow> k) of
           Inl _ \<Rightarrow> True
         | Inr multiSignInfoBytes \<Rightarrow>
             (case h_multiSignCallee h multiSignInfoBytes of
                None \<Rightarrow> True
              | Some (calleeContractName, calleeMethod) \<Rightarrow>
                  calleeContractName = ''CONTRACT_MANAGE'' \<and>
                  (calleeMethod = ''INIT_CONTRACT'' \<or> calleeMethod = ''UPGRADE_CONTRACT'')))
      else False)"

definition ChargeGasLimit ::
    "CommonVMHelper \<Rightarrow> Transaction \<Rightarrow> txSimContextImpl \<Rightarrow> string \<Rightarrow> string \<Rightarrow> string \<Rightarrow> Result \<Rightarrow> view \<Rightarrow>
     Result \<times> string option \<times> txSimContextImpl" where
  "ChargeGasLimit h = charge_gas (CheckNativeFilter h) h"

definition RefundGas ::
    "CommonVMHelper \<Rightarrow> Transaction \<Rightarrow> txSimContextImpl \<Rightarrow> string \<Rightarrow> string \<Rightarrow> string \<Rightarrow> Result \<Rightarrow>
     ContractResult \<Rightarrow> view \<Rightarrow> Result \<times> string option \<times> txSimContextImpl" where
  "RefundGas h = refund_gas (CheckNativeFilter h) h"

definition CheckRefundGas ::
    "CommonVMHelper \<Rightarrow> Transaction \<Rightarrow> txSimContextImpl \<Rightarrow> string \<Rightarrow> string \<Rightarrow> string \<Rightarrow> Result \<Rightarrow>
     ContractResult \<Rightarrow> bool \<Rightarrow> view \<Rightarrow> Result \<times> string option \<times> txSimContextImpl" where
  "CheckRefundGas h = check_refund_gas (CheckNativeFilter h) h"

definition GetAccountMgrContractAndPk ::
    "CommonVMHelper \<Rightarrow> Transaction \<Rightarrow> string \<Rightarrow> string \<Rightarrow> view \<Rightarrow> string + string" where
  "GetAccountMgrContractAndPk h = account_pk (CheckNativeFilter h) h"

section \<open>Guards\<close>

definition ErrMsgOfGasLimitNotSet :: string where
  "ErrMsgOfGasLimitNotSet = ''field `GasLimit` must be set in payload.''"

definition guard_result :: "TxStatusCode \<Rightarrow> string \<Rightarrow> Result" where
  "guard_result code msg =
     \<lparr>res_Code = code,
      res_ContractResult = \<lparr>cr_Code = 1, cr_Result = None, cr_Message = msg, cr_GasUsed = 0, cr_ContractEvent = []\<rparr>,
      res_Message = msg\<rparr>"

definition GuardForExecuteTx2220 ::
    "Transaction \<Rightarrow> txSimContextImpl \<Rightarrow> bool \<Rightarrow> bool \<Rightarrow> bool \<times> txSimContextImpl" where
  "GuardForExecuteTx2220 tx ctx enableGas enableOptimizedChargeGas =
     (case tx_Result tx of
        None \<Rightarrow> (True, ctx)
      | Some res \<Rightarrow>
          if res_Code res = GAS_BALANCE_NOT_ENOUGH_FAILED \<and> enableOptimizedChargeGas
          then (False, SetTxResult (Some res) ctx)
          else (True, ctx))"

definition low_balance :: "CommonVMHelper \<Rightarrow> view \<Rightarrow> Transaction \<Rightarrow> Result" where
  "low_balance h v tx =
     (let addr = (case h_payerAddr h v tx of Inl _ \<Rightarrow> [] | Inr addr \<Rightarrow> addr)
      in guard_result GAS_BALANCE_NOT_ENOUGH_FAILED (''`'' @ addr @ ''` has no enough balance to execute tx.''))"

text \<open>The guard of version 2300 also sets the result of the transaction where it has none.\<close>

definition GuardForExecuteTx2300 ::
    "CommonVMHelper \<Rightarrow> Transaction \<Rightarrow> txSimContextImpl \<Rightarrow> bool \<Rightarrow> bool \<Rightarrow> view \<Rightarrow>
     bool \<times> txSimContextImpl \<times> Transaction" where
  "GuardForExecuteTx2300 h tx ctx enableGas enableOptimizeChargeGas v =
     (let txNeedChargeGas = CheckNativeFilter h (p_ContractName (tx_Payload tx)) (p_Method (tx_Payload tx)) tx v;
          notSet = guard_result GAS_LIMIT_NOT_SET ErrMsgOfGasLimitNotSet
      in if enableOptimizeChargeGas
         then
           (if txNeedChargeGas \<and> p_Limit (tx_Payload tx) = None
            then
              (if tx_Result tx = None then (True, ctx, tx)
               else (False, SetTxResult (Some notSet) ctx, tx))
            else if txNeedChargeGas \<and> p_Limit (tx_Payload tx) \<noteq> None
            then
              (if map_option res_Code (tx_Result tx) = Some GAS_BALANCE_NOT_ENOUGH_FAILED
               then (False, SetTxResult (Some (low_balance h v tx)) ctx, tx)
               else (True, ctx, tx))
            else (True, ctx, tx))
         else if enableGas
         then
           (if txNeedChargeGas \<and> p_Limit (tx_Payload tx) = None
            then (False, SetTxResult (Some notSet) ctx,
                  if tx_Result tx = None then tx\<lparr>tx_Result := Some notSet\<rparr> else tx)
            else (True, ctx, tx))
         else (True, ctx, tx))"

section \<open>Running the virtual machine\<close>

definition RunVM2300 ::
    "CommonVMHelper \<Rightarrow> Transaction \<Rightarrow> txSimContextImpl \<Rightarrow> bool \<Rightarrow> view \<Rightarrow> contract_cache \<Rightarrow> vm_outcome" where
  "RunVM2300 h tx ctx enableOptimizeChargeGas v cache =
     prepare_vm (GetContractFromCache h) (GetContractBytecode h) tx ctx cache
       (ParseParameter2220 h (p_Parameters (tx_Payload tx)) (\<not> enableOptimizeChargeGas))
       (\<lambda>contract parameters cache'.
          let main = (\<lambda>pk result ctx'. finish_2300 (CheckNativeFilter h) h tx enableOptimizeChargeGas contract cache' pk result v
                        (call_contract_of h tx contract parameters 0 v ctx'))
          in if CheckGasEnable h \<and> \<not> enableOptimizeChargeGas
             then charge_then (CheckNativeFilter h) h tx ctx cache' (c_Name contract) (p_Method (tx_Payload tx)) v main
             else main [] init_result ctx)"

definition RunVM2220 ::
    "CommonVMHelper \<Rightarrow> Transaction \<Rightarrow> txSimContextImpl \<Rightarrow> bool \<Rightarrow> view \<Rightarrow> contract_cache \<Rightarrow> vm_outcome" where
  "RunVM2220 h tx ctx enableOptimizeChargeGas v cache =
     prepare_vm (GetContractFromCache h) (GetContractBytecode h) tx ctx cache
       (ParseParameter2220 h (p_Parameters (tx_Payload tx)) (\<not> enableOptimizeChargeGas))
       (\<lambda>contract parameters cache'.
          let main = (\<lambda>pk result ctx'. finish_2220 (CheckNativeFilter h) h tx enableOptimizeChargeGas contract cache' pk result v
                        (call_contract_of h tx contract parameters 0 v ctx'))
          in if CheckGasEnable h \<and> \<not> enableOptimizeChargeGas
             then charge_then (CheckNativeFilter h) h tx ctx cache' (c_Name contract) (p_Method (tx_Payload tx)) v main
             else main [] init_result ctx)"

definition RunVM2210 ::
    "CommonVMHelper \<Rightarrow> Transaction \<Rightarrow> txSimContextImpl \<Rightarrow> view \<Rightarrow> contract_cache \<Rightarrow> vm_outcome" where
  "RunVM2210 h tx ctx v cache =
     prepare_vm (GetContractFromCache h) (GetContractBytecode h) tx ctx cache
       (ParseParameter2210 h (p_Parameters (tx_Payload tx)))
       (\<lambda>contract parameters cache'.
          charge_then (CheckNativeFilter h) h tx ctx cache' (p_ContractName (tx_Payload tx)) (p_Method (tx_Payload tx)) v
            (\<lambda>pk result ctx'. finish_2210 (CheckNativeFilter h) h tx cache' pk result v
               (call_contract_of h tx contract parameters 0 v ctx')))"

definition guard_version ::
    "CommonVMHelper \<Rightarrow> nat \<Rightarrow> view \<Rightarrow> Transaction \<Rightarrow> bool \<times> txSimContextImpl \<times> Transaction" where
  "guard_version h version v tx =
     (let ctx = NewTxSimContext tx version;
          enableGas = CheckGasEnable h;
          enableOptimizeChargeGas = IsOptimizeChargeGasEnabled h
      in if version \<ge> 2300 then GuardForExecuteTx2300 h tx ctx enableGas enableOptimizeChargeGas v
         else if version \<ge> 2220
         then (let (g, c) = GuardForExecuteTx2220 tx ctx enableGas enableOptimizeChargeGas in (g, c, tx))
         else (True, ctx, tx))"

definition run_version ::
    "CommonVMHelper \<Rightarrow> nat \<Rightarrow> contract_cache \<Rightarrow> view \<Rightarrow> Transaction \<Rightarrow> txSimContextImpl \<Rightarrow> vm_outcome" where
  "run_version h version cache v tx ctx =
     (if version \<ge> 2300 then RunVM2300 h tx ctx (IsOptimizeChargeGasEnabled h) v cache
      else if version \<ge> 2220 then RunVM2220 h tx ctx (IsOptimizeChargeGasEnabled h) v cache
      else RunVM2210 h tx ctx v cache)"

definition ExecuteTx ::
    "CommonVMHelper \<Rightarrow> nat \<Rightarrow> contract_cache \<Rightarrow> view \<Rightarrow> Transaction \<Rightarrow> exec_result" where
  "ExecuteTx h version cache v tx =
     (let guard = guard_version h version v tx
      in guarded_run guard (run_version h version cache v (snd (snd guard))) cache)"

text \<open>What a scheduler takes from an execution: the read-write set and the result.\<close>

definition vm_exec :: "CommonVMHelper \<Rightarrow> nat \<Rightarrow> contract_cache \<Rightarrow> exec_fun" where
  "vm_exec h version cache v tx =
     (let er = ExecuteTx h version cache v tx
      in (GetTxRWSet (er_runVmSuccess er) (er_ctx er), sc_txResult (er_ctx er)))"

section \<open>The executor\<close>

text \<open>
  A transaction is covered when what the framework reads past the context is the same under
  every view: no multi-sign request triggers it while manual runs are enabled, and its payer is
  determined by the transaction.
\<close>

definition vm_covered :: "CommonVMHelper \<Rightarrow> Transaction \<Rightarrow> bool" where
  "vm_covered h tx \<longleftrightarrow> env_ok (h_env h) \<and> (\<forall>v v'. same_unrecorded (CheckNativeFilter h) h tx v v')"

lemma vm_covered_no_trig:
  assumes "env_ok (h_env h)" and "p_Method (tx_Payload tx) \<noteq> ''TRIG''"
    and "\<And>v v'. h_payerPk h v' tx = h_payerPk h v tx" and "\<And>v v'. h_payerAddr h v' tx = h_payerAddr h v tx"
  shows "vm_covered h tx"
  using assms by (simp add: vm_covered_def same_unrecorded_def CheckNativeFilter_def)

lemma RunVM_stages:
  assumes "env_ok (h_env h)"
  shows "local_stage (CheckNativeFilter h) h tx v v' ctx (RunVM2300 h tx ctx opt v ca) (RunVM2300 h tx ctx opt v' ca)"
    and "local_stage (CheckNativeFilter h) h tx v v' ctx (RunVM2220 h tx ctx opt v ca) (RunVM2220 h tx ctx opt v' ca)"
    and "local_stage (CheckNativeFilter h) h tx v v' ctx (RunVM2210 h tx ctx v ca) (RunVM2210 h tx ctx v' ca)"
  unfolding RunVM2300_def RunVM2220_def RunVM2210_def Let_def
  by (intro prepare_vm_stage; simp add: assms charge_then_stage call_stage finish_2300_stage finish_2220_stage finish_2210_stage)+

lemma guard_version_ok: "guard_ok tx version (guard_version h version v tx)"
  and guard_version_tx: "fst (guard_version h version v tx) \<Longrightarrow> snd (snd (guard_version h version v tx)) = tx"
  by (auto simp: guard_version_def GuardForExecuteTx2300_def GuardForExecuteTx2220_def guard_ok_def SetTxResult_def
      NewTxSimContext_def Let_def split: option.splits)

lemma guard_version_same:
  "same_unrecorded (CheckNativeFilter h) h tx v v' \<Longrightarrow> guard_version h version v' tx = guard_version h version v tx"
  by (auto simp: guard_version_def GuardForExecuteTx2300_def low_balance_def same_unrecorded_def Let_def)

lemma ExecuteTx_run: "ExecuteTx h version cache v tx = guarded_run (guard_version h version v tx) (run_version h version cache v tx) cache"
  using guard_version_tx [of h version v tx]
  by (cases "guard_version h version v tx") (auto simp: ExecuteTx_def guarded_run_def Let_def)

lemma ExecuteTx_local:
  assumes "vm_covered h tx"
  shows "wf_ctx v (er_ctx (ExecuteTx h version cache v tx))"
    and "sc_tx (er_ctx (ExecuteTx h version cache v tx)) = tx"
    and "sc_blockVersion (er_ctx (ExecuteTx h version cache v tx)) = version"
    and "total_view v \<Longrightarrow> agree_on v v' (recorded (er_ctx (ExecuteTx h version cache v tx))) \<Longrightarrow>
      ExecuteTx h version cache v' tx = ExecuteTx h version cache v tx"
proof -
  have stage: "local_stage (CheckNativeFilter h) h tx v v' ctx (run_version h version cache v tx ctx)
      (run_version h version cache v' tx ctx)" for v' ctx
    using assms by (simp add: run_version_def vm_covered_def RunVM_stages)
  note loc = guarded_run_local [OF guard_version_ok [where v = v] guard_version_same stage [of v'], where cache = cache]
  show "wf_ctx v (er_ctx (ExecuteTx h version cache v tx))"
    "sc_tx (er_ctx (ExecuteTx h version cache v tx)) = tx"
    "sc_blockVersion (er_ctx (ExecuteTx h version cache v tx)) = version"
    unfolding ExecuteTx_run using loc(1-3) by simp_all
  show "ExecuteTx h version cache v' tx = ExecuteTx h version cache v tx"
    if "total_view v" "agree_on v v' (recorded (er_ctx (ExecuteTx h version cache v tx)))"
    using loc(4) that assms by (simp add: ExecuteTx_run vm_covered_def)
qed

interpretation vm: executor "vm_exec h version cache" "vm_covered h" for h version cache
proof
  fix t v v'
  assume cov: "vm_covered h t" and total: "total_view v" "total_view v'"
    and same: "\<And>r. r \<in> set (reads_of (vm_exec h version cache v t)) \<Longrightarrow>
      v' (r_ContractName r) (r_Key r) = v (r_ContractName r) (r_Key r)"
  let ?er = "ExecuteTx h version cache v t"
  have "agree_on v v' (recorded (er_ctx ?er))"
    using GetTxRWSet_reads [OF ExecuteTx_local(1) [OF cov, of v version cache], of _ _ "er_runVmSuccess ?er"] same
    by (fastforce simp: agree_on_def vm_exec_def Let_def)
  then have "ExecuteTx h version cache v' t = ?er"
    by (rule ExecuteTx_local(4) [OF cov total(1)])
  then show "vm_exec h version cache v' t = vm_exec h version cache v t"
    by (simp add: vm_exec_def)
qed

lemma vm_exec_TxId:
  assumes "vm_covered h t"
  shows "rw_TxId (fst (vm_exec h version cache v t)) = TxId t"
  using ExecuteTx_local(2) [OF assms, of version cache v]
  by (simp add: vm_exec_def GetTxRWSet_def Let_def split_beta)

text \<open>From block version 2.3.5 on the recorded reads show what the view held.\<close>

interpretation vm235: read_executor "vm_exec h (v235 + d) cache" "vm_covered h" for h d cache
proof
  fix t v r
  assume cov: "vm_covered h t" and total: "total_view v"
    and r: "r \<in> set (reads_of (vm_exec h (v235 + d) cache v t))"
  show "v (r_ContractName r) (r_Key r) = Inr (r_Value r)"
    using r GetTxRWSet_values [OF ExecuteTx_local(1) [OF cov, of v "v235 + d" cache], of r "er_runVmSuccess (ExecuteTx h (v235 + d) cache v t)"]
    by (simp add: vm_exec_def ExecuteTx_local(3) [OF cov] Let_def)
qed

end
