(* ===== verification/Rounds.thy ===== *)
theory Rounds
  imports Prelude
begin

text \<open>
  The loop the deterministic schedulers share: rounds on a pool of transactions until it is empty or
  the time limit has passed. A round that shrinks the pool makes the loop return after at most one round
  per transaction, with whatever the rounds keep.
\<close>

locale round_loop =
  fixes loop :: "nat \<Rightarrow> 's \<Rightarrow> (nat \<times> 's) option"
    and round :: "'s \<Rightarrow> 's"
    and pool :: "'s \<Rightarrow> Transaction list"
    and late :: "nat \<Rightarrow> bool"
    and shrinking :: bool
  assumes loop_empty: "pool st = [] \<Longrightarrow> loop r st = Some (r, st)"
    and loop_late: "pool st \<noteq> [] \<Longrightarrow> late (r + 1) \<Longrightarrow> loop r st = Some (r + 1, st)"
    and loop_round: "pool st \<noteq> [] \<Longrightarrow> \<not> late (r + 1) \<Longrightarrow> loop r st = loop (r + 1) (round st)"
    and round_shrinks: "shrinking \<Longrightarrow> pool st \<noteq> [] \<Longrightarrow> length (pool (round st)) < length (pool st)"
begin

lemma loop_returns:
  assumes "shrinking" and "Q st" and "\<And>st. Q st \<Longrightarrow> pool st \<noteq> [] \<Longrightarrow> Q (round st)"
  shows "\<exists>n st'. loop r st = Some (n, st') \<and> Q st' \<and> r \<le> n \<and> n \<le> r + length (pool st) \<and> (pool st' = [] \<or> late n)"
  using assms(2)
proof (induction "length (pool st)" arbitrary: st r rule: less_induct)
  case less
  consider (empty) "pool st = []" | (late) "pool st \<noteq> []" "late (r + 1)" | (round) "pool st \<noteq> []" "\<not> late (r + 1)"
    by blast
  then show ?case
  proof cases
    case empty
    then show ?thesis using less.prems by (simp add: loop_empty)
  next
    case late
    then show ?thesis
      using less.prems loop_late [of st r] by (simp add: Suc_le_eq)
  next
    case round
    have lt: "length (pool (round st)) < length (pool st)"
      using round assms(1) by (intro round_shrinks)
    from less.hyps [OF lt, of "r + 1"] less.prems round assms(3) obtain n st' where
      "loop (r + 1) (round st) = Some (n, st')" "Q st'" "r + 1 \<le> n"
      "n \<le> r + 1 + length (pool (round st))" "pool st' = [] \<or> late n"
      by blast
    then show ?thesis
      using lt loop_round [OF round] by auto
  qed
qed

end

end
