(* ===== verification/PDCC_Serial.thy ===== *)
theory PDCC_Serial
  imports PDCC CommonVM Rounds
begin

text \<open>
  Correctness of PDCC: a round commits a set of transactions that is serializable in index
  order, commits at least the first one, and leaves the others in the pool; over the rounds of a
  block the committed transactions, in the order of the block, have the outcomes and the final
  state of a serial execution.
\<close>

section \<open>One round\<close>

definition round_infos :: "exec_fun \<Rightarrow> SnapshotImpl \<Rightarrow> Transaction list \<Rightarrow> txExecInfo list" where
  "round_infos ex s ts = tag_versions (execute_txs ex s ts)"

lemma length_round_infos [simp]: "length (round_infos ex s ts) = length ts"
  by (simp add: round_infos_def tag_versions_def execute_txs_def)

lemma round_infos_nth:
  assumes "i < length ts"
  shows "ei_tx (round_infos ex s ts ! i) = ts ! i"
    and "ei_txResult (round_infos ex s ts ! i) = snd (ex (GetKey s) (ts ! i))"
    and "ei_txRWSet (round_infos ex s ts ! i) = fst (ex (GetKey s) (ts ! i))"
    and "ei_txReadSet (round_infos ex s ts ! i) = reads_of (ex (GetKey s) (ts ! i))"
    and "ei_txWriteSetWithVersion (round_infos ex s ts ! i) =
      map (\<lambda>w. \<lparr>vw_Write = w, vw_Version = i\<rparr>) (writes_of (ex (GetKey s) (ts ! i)))"
  using assms
  by (simp_all add: round_infos_def tag_versions_def execute_txs_def exec_info_def split_beta Let_def)

lemma tagged_round_infos: "tagged (round_infos ex s ts)"
  by (simp add: tagged_def round_infos_nth)

text \<open>The indices a round commits and those it aborts, in order.\<close>

definition committed_idx :: "txExecInfo list \<Rightarrow> nat list" where
  "committed_idx infos = filter (\<lambda>i. \<not> round_flags infos ! i) [0..<length infos]"

definition aborted_idx :: "txExecInfo list \<Rightarrow> nat list" where
  "aborted_idx infos = filter (\<lambda>i. round_flags infos ! i) [0..<length infos]"

lemma reset_txs_idx:
  assumes "tagged infos"
  shows "reset_txs infos (round_flags infos) =
    (map (\<lambda>i. ei_tx (infos ! i)) (aborted_idx infos),
     map (\<lambda>i. (ei_tx (infos ! i))\<lparr>tx_Result := ei_txResult (infos ! i)\<rparr>) (committed_idx infos))"
  using round_flags_iff(1) [OF assms]
  by (simp add: reset_txs_def filter_zip_idx aborted_idx_def committed_idx_def comp_def)

definition rw_entries :: "TxRWSet list \<Rightarrow> (string \<times> TxRWSet) list" where
  "rw_entries rws = map (\<lambda>rw. (rw_TxId rw, rw)) rws"

definition record_rws :: "TxRWSet list \<Rightarrow> (string \<times> TxRWSet) list \<Rightarrow> (string \<times> TxRWSet) list" where
  "record_rws rws m = fold (\<lambda>rw m. AList.update (rw_TxId rw) rw m) rws m"

lemma map_of_record_rws: "map_of (record_rws rws m) = map_of m ++ map_of (rev (rw_entries rws))"
  unfolding record_rws_def rw_entries_def
  by (induction rws arbitrary: m)
    (auto simp: update_conv' map_add_def fun_eq_iff split: option.splits)

lemma commit_writes_idx:
  assumes "tagged infos"
  shows "commit_writes infos (round_flags infos) m =
    (record_rws (map (\<lambda>i. ei_txRWSet (infos ! i)) (committed_idx infos)) m,
     merged (concat (map (\<lambda>i. TxWrites (ei_txRWSet (infos ! i))) (committed_idx infos))))"
proof -
  have skip: "fold (\<lambda>(info, aborted) st. if aborted then st else commit_info info st) xs st =
      fold commit_info (map fst (filter (\<lambda>(_, aborted). \<not> aborted) xs)) st" for xs st
    by (induction xs arbitrary: st) auto
  have infos: "fold commit_info xs (m', fold (\<lambda>w m. AList.update (w_Key w) w m) ws []) =
      (record_rws (map ei_txRWSet xs) m',
       merged (ws @ concat (map (\<lambda>info. TxWrites (ei_txRWSet info)) xs)))" for xs m' ws
  proof (induction xs arbitrary: m' ws)
    case (Cons x xs)
    then show ?case
      using Cons.IH [of _ "ws @ TxWrites (ei_txRWSet x)"]
      by (simp add: commit_info_def record_rws_def Let_def)
  qed (simp add: record_rws_def merged_def)
  have "map fst (filter (\<lambda>(_, aborted). \<not> aborted) (zip infos (round_flags infos))) =
      map ((!) infos) (committed_idx infos)"
    using round_flags_iff(1) [OF assms] by (simp add: filter_zip_idx committed_idx_def comp_def)
  then show ?thesis
    using infos [of "map ((!) infos) (committed_idx infos)" m "[]"]
    by (simp add: commit_writes_def skip comp_def)
qed

text \<open>A round in terms of the committed and the aborted indices.\<close>

lemma pdcc_round_eq:
  fixes st :: pdcc_state and bs :: nat and ex :: exec_fun
  defines "ts \<equiv> take bs (st_txBatch st)" and "v \<equiv> GetKey (st_snapshot st)"
  defines "C \<equiv> committed_idx (round_infos ex (st_snapshot st) ts)"
    and "A \<equiv> aborted_idx (round_infos ex (st_snapshot st) ts)"
  shows "pdcc_round rt ex bs st =
    \<lparr>st_txBatch = map ((!) ts) A @ drop bs (st_txBatch st),
     st_blockTxs = st_blockTxs st @ map (\<lambda>i. (ts ! i)\<lparr>tx_Result := snd (ex v (ts ! i))\<rparr>) C,
     st_txRWSetMap = record_rws (map (\<lambda>i. fst (ex v (ts ! i))) C) (st_txRWSetMap st),
     st_snapshot = apply_merged rt (merged (concat (map (\<lambda>i. writes_of (ex v (ts ! i))) C))) (st_snapshot st),
     st_roundCommittedTxs = st_roundCommittedTxs st @ [length C]\<rparr>"
proof -
  let ?infos = "round_infos ex (st_snapshot st) ts"
  have sel: "select_txs bs (st_txBatch st) = (ts, drop bs (st_txBatch st))"
    by (simp add: select_txs_def ts_def)
  have C: "map f C = map g C" if "\<And>i. i < length ts \<Longrightarrow> f i = g i" for f g :: "nat \<Rightarrow> 'z"
    using that by (auto simp: C_def committed_idx_def)
  have A: "map (\<lambda>i. ei_tx (?infos ! i)) A = map ((!) ts) A"
    by (auto simp: A_def aborted_idx_def round_infos_nth)
  have eqs: "map (\<lambda>i. (ei_tx (?infos ! i))\<lparr>tx_Result := ei_txResult (?infos ! i)\<rparr>) C =
        map (\<lambda>i. (ts ! i)\<lparr>tx_Result := snd (ex v (ts ! i))\<rparr>) C"
      "map (\<lambda>i. ei_txRWSet (?infos ! i)) C = map (\<lambda>i. fst (ex v (ts ! i))) C"
      "map (\<lambda>i. TxWrites (ei_txRWSet (?infos ! i))) C = map (\<lambda>i. writes_of (ex v (ts ! i))) C"
    by (intro C; simp add: round_infos_nth v_def)+
  have *: "reset_txs ?infos (round_flags ?infos) =
      (map ((!) ts) A, map (\<lambda>i. (ts ! i)\<lparr>tx_Result := snd (ex v (ts ! i))\<rparr>) C)"
      "commit_writes ?infos (round_flags ?infos) (st_txRWSetMap st) =
        (record_rws (map (\<lambda>i. fst (ex v (ts ! i))) C) (st_txRWSetMap st),
         merged (concat (map (\<lambda>i. writes_of (ex v (ts ! i))) C)))"
    using reset_txs_idx [OF tagged_round_infos, of ex "st_snapshot st" ts]
      commit_writes_idx [OF tagged_round_infos, of ex "st_snapshot st" ts]
    by (simp_all only: C_def [symmetric] A_def [symmetric] A eqs)
  show ?thesis
    unfolding pdcc_round_def sel Let_def split round_infos_def [symmetric] * by simp
qed

section \<open>Progress\<close>

lemma committed_first:
  assumes "infos \<noteq> []" and "tagged infos"
  shows "0 \<in> set (committed_idx infos)"
  using assms round_flags_iff(2) [OF assms(2), of 0] by (simp add: committed_idx_def)

lemma pdcc_round_pool:
  "mset (st_txBatch (pdcc_round rt ex bs st)) +
     mset (map ((!) (take bs (st_txBatch st)))
       (committed_idx (round_infos ex (st_snapshot st) (take bs (st_txBatch st))))) =
   mset (st_txBatch st)"
proof -
  let ?ts = "take bs (st_txBatch st)" and ?I = "round_infos ex (st_snapshot st) (take bs (st_txBatch st))"
  have "mset (map ((!) ?ts) (aborted_idx ?I)) + mset (map ((!) ?ts) (committed_idx ?I)) = mset ?ts"
    using mset_idx [of ?ts "\<lambda>i. round_flags ?I ! i"] by (simp add: aborted_idx_def committed_idx_def)
  then have "mset (st_txBatch (pdcc_round rt ex bs st)) + mset (map ((!) ?ts) (committed_idx ?I)) =
      mset ?ts + mset (drop bs (st_txBatch st))"
    by (simp add: pdcc_round_eq ac_simps)
  then show ?thesis
    by (metis append_take_drop_id mset_append)
qed

lemma pdcc_round_decreases:
  assumes "bs > 0" and "st_txBatch st \<noteq> []"
  shows "length (st_txBatch (pdcc_round rt ex bs st)) < length (st_txBatch st)"
proof -
  let ?I = "round_infos ex (st_snapshot st) (take bs (st_txBatch st))"
  have "?I \<noteq> []"
    using assms length_round_infos [of ex "st_snapshot st" "take bs (st_txBatch st)"]
    by (metis length_0_conv take_eq_Nil nat_less_le)
  then have "0 \<in> set (committed_idx ?I)"
    by (intro committed_first tagged_round_infos)
  then have "length (committed_idx ?I) > 0"
    by (cases "committed_idx ?I") auto
  moreover have "length (st_txBatch (pdcc_round rt ex bs st)) + length (committed_idx ?I) =
      length (st_txBatch st)"
    using arg_cong [OF pdcc_round_pool [of rt ex bs st], of size] by simp
  ultimately show ?thesis by linarith
qed

lemma Schedule_loop_unfold:
  "st_txBatch st = [] \<Longrightarrow> Schedule_loop rt ex bs r st = Some (r, st)"
  "st_txBatch st \<noteq> [] \<Longrightarrow> timed_out rt (r + 1) \<Longrightarrow> Schedule_loop rt ex bs r st = Some (r + 1, st)"
  "st_txBatch st \<noteq> [] \<Longrightarrow> \<not> timed_out rt (r + 1) \<Longrightarrow>
     Schedule_loop rt ex bs r st = Schedule_loop rt ex bs (r + 1) (pdcc_round rt ex bs st)"
  by (subst Schedule_loop.simps; simp)+

text \<open>
  The loop returns, after at most one round per transaction, and establishes what every round
  preserves.
\<close>

interpretation pdcc_rounds: round_loop "Schedule_loop rt ex bs" "pdcc_round rt ex bs" st_txBatch "timed_out rt" "bs > 0"
  for rt ex bs
  by unfold_locales (simp_all add: Schedule_loop_unfold pdcc_round_decreases)

lemmas Schedule_loop_returns = pdcc_rounds.loop_returns

section \<open>Serializability\<close>

text \<open>
  The hypothesis under which comparing bare key strings is right: on the accesses of the
  batch, two writes have equal key strings exactly when they have equal table keys, and a write and
  a read with equal table keys have equal key strings.
\<close>

definition keys_agree :: "exec_fun \<Rightarrow> Transaction set \<Rightarrow> bool" where
  "keys_agree ex T \<longleftrightarrow> (\<forall>t\<in>T. \<forall>u\<in>T. \<forall>v. total_view v \<longrightarrow>
     (\<forall>w\<in>set (writes_of (ex v t)). \<forall>w'\<in>set (writes_of (ex v u)). (w_Key w = w_Key w') = (wkey w = wkey w')) \<and>
     (\<forall>w\<in>set (writes_of (ex v t)). \<forall>r\<in>set (reads_of (ex v u)). wkey w = rkey r \<longrightarrow> w_Key w = r_Key r))"

lemma keys_agree_subset: "keys_agree ex T \<Longrightarrow> S \<subseteq> T \<Longrightarrow> keys_agree ex S"
  unfolding keys_agree_def by blast

lemma keys_agreeD:
  "keys_agree ex T \<Longrightarrow> total_view v \<Longrightarrow> t \<in> T \<Longrightarrow> u \<in> T \<Longrightarrow> w \<in> set (writes_of (ex v t)) \<Longrightarrow>
   r \<in> set (reads_of (ex v u)) \<Longrightarrow> wkey w = rkey r \<Longrightarrow> w_Key w = r_Key r"
  by (simp add: keys_agree_def)

lemma keys_agree_single_contract:
  assumes "\<forall>t\<in>T. \<forall>v. total_view v \<longrightarrow> (\<forall>w\<in>set (writes_of (ex v t)). w_ContractName w = c) \<and>
    (\<forall>r\<in>set (reads_of (ex v t)). r_ContractName r = c)"
  shows "keys_agree ex T"
  using assms by (auto simp: keys_agree_def constructKey_def)

text \<open>The view after a round, for any order in which the runtime visits and applies the writes.\<close>

lemma pdcc_round_view:
  fixes st :: pdcc_state and bs :: nat and ex :: exec_fun
  defines "ts \<equiv> take bs (st_txBatch st)" and "v \<equiv> GetKey (st_snapshot st)"
  assumes "wf_runtime rt" and "wf_snap (st_snapshot st)" and "\<not> IsSealed (st_snapshot st)"
    and "keys_agree ex (set ts)" and "total_view v"
  shows "GetKey (st_snapshot (pdcc_round rt ex bs st)) = apply_writes v
    (concat (map (\<lambda>i. writes_of (ex v (ts ! i))) (committed_idx (round_infos ex (st_snapshot st) ts))))"
proof -
  define ws where "ws = concat (map (\<lambda>i. writes_of (ex v (ts ! i)))
    (committed_idx (round_infos ex (st_snapshot st) ts)))"
  have "same_keys ws"
    using assms(6,7) unfolding same_keys_def ws_def keys_agree_def
    by (auto simp: committed_idx_def dest!: nth_mem)
  note m = merged_distinct [OF this] apply_merged_writes [OF this]
  let ?us = "map_order rt (map snd (merged ws))"
  have perm: "mset ?us = mset (map snd (merged ws))"
    using assms(3) by (simp add: wf_runtime_def)
  then have "distinct (map wkey ?us)"
    using m(1) by (metis mset_map mset_eq_imp_distinct_iff)
  then have "GetKey (ApplyWritesToWriteTable rt ?us (st_snapshot st)) = apply_writes v ws"
    using assms(3-5) perm m(2) apply_writes_perm [of ?us "map snd (merged ws)" v]
    by (simp add: ApplyWrites_refines wf_snap_def v_def)
  moreover have "apply_writes v ws = v" if "merged ws = []"
    using m(2) that by (metis apply_writes_Nil list.map_disc_iff)
  ultimately show ?thesis
    by (auto simp: pdcc_round_eq apply_merged_def ts_def [symmetric] v_def [symmetric] ws_def [symmetric])
qed

text \<open>
  What the rounds keep: the transactions committed so far, in block order, run serially from the
  initial view give the recorded outcomes and the view of the snapshot.
\<close>

definition pdcc_inv ::
    "exec_fun \<Rightarrow> Transaction list \<Rightarrow> view \<Rightarrow> pdcc_state \<Rightarrow> Transaction list \<Rightarrow> bool" where
  "pdcc_inv ex txs0 v0 st ord \<longleftrightarrow>
     wf_snap (st_snapshot st) \<and> \<not> IsSealed (st_snapshot st) \<and>
     mset ord + mset (st_txBatch st) = mset txs0 \<and>
     (let (outs, v) = serial_run ex v0 ord
      in v = GetKey (st_snapshot st) \<and>
         st_blockTxs st = map2 (\<lambda>t out. t\<lparr>tx_Result := snd out\<rparr>) ord outs \<and>
         map_of (st_txRWSetMap st) = map_of (rev (rw_entries (map fst outs))))"

lemma IsSealed_ApplyWrites [simp]: "IsSealed (ApplyWritesToWriteTable rt ws s) = IsSealed s"
  by (simp add: ApplyWritesToWriteTable_def IsSealed_def Let_def)

lemma pdcc_round_snapshot:
  assumes "wf_snap (st_snapshot st)"
  shows "wf_snap (st_snapshot (pdcc_round rt ex bs st))"
    and "IsSealed (st_snapshot (pdcc_round rt ex bs st)) = IsSealed (st_snapshot st)"
  using assms by (auto simp: pdcc_round_eq apply_merged_def)

context executor
begin

lemma pdcc_round_serial:
  fixes st :: pdcc_state and bs :: nat
  defines "ts \<equiv> take bs (st_txBatch st)" and "v \<equiv> GetKey (st_snapshot st)"
  defines "C \<equiv> committed_idx (round_infos ex (st_snapshot st) ts)"
  assumes "wf_runtime rt" and "wf_snap (st_snapshot st)" and "\<not> IsSealed (st_snapshot st)"
    and "keys_agree ex (set ts)" and "\<forall>t\<in>set ts. covered t" and "total_view v"
  shows "serial_run ex v (map ((!) ts) C) =
    (map (\<lambda>i. ex v (ts ! i)) C, GetKey (st_snapshot (pdcc_round rt ex bs st)))"
proof -
  let ?I = "round_infos ex (st_snapshot st) ts"
  have C: "i < length ts" "\<not> round_flags ?I ! i" if "i \<in> set C" for i
    using that by (auto simp: C_def committed_idx_def)
  have no_raw: "\<not> feeds (ex v (ts ! i)) (ex v (ts ! j))" if "i \<in> set C" "j \<in> set C" "i < j" for i j
  proof -
    have nr: "\<not> raw_on ?I i j"
      using round_flags_iff(2) [OF tagged_round_infos, of j ex "st_snapshot st" ts] C that by auto
    have mem: "ts ! i \<in> set ts" "ts ! j \<in> set ts"
      using C that by simp_all
    show ?thesis
    proof
      assume "feeds (ex v (ts ! i)) (ex v (ts ! j))"
      then obtain w r where wr: "w \<in> set (writes_of (ex v (ts ! i)))"
          "r \<in> set (reads_of (ex v (ts ! j)))" "wkey w = rkey r"
        unfolding feeds_iff by blast
      then have "w_Key w = r_Key r"
        using keys_agreeD [OF assms(7,9) mem] by blast
      then show False
        using nr wr C that by (auto simp: raw_on_def round_infos_nth v_def)
    qed
  qed
  have "sorted_wrt (<) C"
    by (simp add: C_def committed_idx_def sorted_wrt_filter)
  then have "sorted_wrt (\<lambda>t u. \<not> feeds (ex v t) (ex v u)) (map ((!) ts) C)"
    unfolding sorted_wrt_map using no_raw by (rule sorted_wrt_mono_rel [rotated])
  moreover have "\<forall>t\<in>set (map ((!) ts) C). covered t"
    using assms(8) C(1) by auto
  ultimately have "serial_run ex v (map ((!) ts) C) = (map (ex v) (map ((!) ts) C),
      apply_writes v (concat (map (\<lambda>t. writes_of (ex v t)) (map ((!) ts) C))))"
    using assms(9) by (intro parallel_is_serial)
  then show ?thesis
    using pdcc_round_view [OF assms(4-6), of ex bs] assms(7,9)
    by (simp add: comp_def ts_def [symmetric] v_def [symmetric] C_def [symmetric])
qed

lemma pdcc_inv_round:
  assumes inv: "pdcc_inv ex txs0 v0 st ord" and rt: "wf_runtime rt" and total: "total_view v0"
    and keys: "keys_agree ex (set txs0)" and cov: "\<forall>t\<in>set txs0. covered t"
  shows "\<exists>ord'. pdcc_inv ex txs0 v0 (pdcc_round rt ex bs st) ord'"
proof -
  let ?ts = "take bs (st_txBatch st)" and ?v = "GetKey (st_snapshot st)"
  let ?C = "committed_idx (round_infos ex (st_snapshot st) ?ts)" and ?st = "pdcc_round rt ex bs st"
  obtain outs where run: "serial_run ex v0 ord = (outs, ?v)"
    and block: "st_blockTxs st = map2 (\<lambda>t out. t\<lparr>tx_Result := snd out\<rparr>) ord outs"
    and rws: "map_of (st_txRWSetMap st) = map_of (rev (rw_entries (map fst outs)))"
    using inv by (auto simp: pdcc_inv_def Let_def split: prod.splits)
  have len: "length outs = length ord"
    using length_serial_run [of ex v0 ord] run by simp
  have "set ?ts \<subseteq> set (st_txBatch st)"
    by (rule set_take_subset)
  also have "\<dots> \<subseteq> set txs0"
    using inv unfolding pdcc_inv_def by (metis mset_subset_eq_add_right set_mset_mono set_mset_mset)
  finally have sub: "set ?ts \<subseteq> set txs0" .
  have "total_view ?v"
    using serial_run_total [OF total, of ex ord] run by simp
  then have r: "serial_run ex ?v (map ((!) ?ts) ?C) =
      (map (\<lambda>i. ex ?v (?ts ! i)) ?C, GetKey (st_snapshot ?st))"
    using inv rt keys_agree_subset [OF keys sub] cov sub
    by (intro pdcc_round_serial) (auto simp: pdcc_inv_def)
  let ?ord = "ord @ map ((!) ?ts) ?C"
  have m: "mset ?ord + mset (st_txBatch ?st) = mset txs0"
    using inv pdcc_round_pool [of rt ex bs st] by (simp add: pdcc_inv_def ac_simps)
  have "serial_run ex v0 ?ord = (outs @ map (\<lambda>i. ex ?v (?ts ! i)) ?C, GetKey (st_snapshot ?st))"
    by (simp only: serial_run_append run r Let_def split)
  moreover have "st_blockTxs ?st = map2 (\<lambda>t out. t\<lparr>tx_Result := snd out\<rparr>) ?ord
      (outs @ map (\<lambda>i. ex ?v (?ts ! i)) ?C)"
    using len by (simp add: pdcc_round_eq block zip_map_map map_zip_map map_zip_map2 zip_same_conv_map)
  moreover have "map_of (st_txRWSetMap ?st) =
      map_of (rev (rw_entries (map fst (outs @ map (\<lambda>i. ex ?v (?ts ! i)) ?C))))"
    by (simp add: pdcc_round_eq map_of_record_rws rws rw_entries_def comp_def)
  ultimately show ?thesis
    using m inv pdcc_round_snapshot [of st rt ex bs]
    by (intro exI [of _ ?ord]) (simp add: pdcc_inv_def)
qed

text \<open>The loop on a whole block.\<close>

lemma pdcc_block:
  assumes rt: "wf_runtime rt" and bs: "bs > 0" and snap: "wf_snap s" "\<not> IsSealed s"
    and total: "total_view (GetKey s)"
    and keys: "keys_agree ex (set txs)" and cov: "\<forall>t\<in>set txs. covered t"
  shows "\<exists>n st' ord. Schedule_loop rt ex bs 0
      \<lparr>st_txBatch = txs, st_blockTxs = [], st_txRWSetMap = [], st_snapshot = s, st_roundCommittedTxs = []\<rparr>
        = Some (n, st') \<and> pdcc_inv ex txs (GetKey s) st' ord \<and> n \<le> length txs \<and>
      (st_txBatch st' = [] \<or> timed_out rt n)"
proof -
  let ?st = "\<lparr>st_txBatch = txs, st_blockTxs = [], st_txRWSetMap = [], st_snapshot = s, st_roundCommittedTxs = []\<rparr>"
  have "pdcc_inv ex txs (GetKey s) ?st []"
    using snap by (simp add: pdcc_inv_def rw_entries_def)
  then show ?thesis
    using Schedule_loop_returns [of bs "\<lambda>st. \<exists>ord. pdcc_inv ex txs (GetKey s) st ord" ?st rt ex 0] bs
      pdcc_inv_round [OF _ rt total keys cov] by force
qed

end

text \<open>
  With transaction ids that identify the transactions, the read-write set stored under the id of
  a committed transaction is the one of its serial execution.
\<close>

lemma vm_block_outcomes:
  assumes inv: "pdcc_inv (vm_exec h version cache) txs v0 st ord"
    and cov: "\<forall>t\<in>set txs. vm_covered h t" and dist: "distinct (map TxId txs)"
  shows "\<exists>outs. serial_run (vm_exec h version cache) v0 ord = (outs, GetKey (st_snapshot st)) \<and>
    st_blockTxs st = map2 (\<lambda>t out. t\<lparr>tx_Result := snd out\<rparr>) ord outs \<and>
    (\<forall>i<length ord. map_of (st_txRWSetMap st) (TxId (ord ! i)) = Some (fst (outs ! i)))"
proof -
  let ?ex = "vm_exec h version cache"
  obtain outs where run: "serial_run ?ex v0 ord = (outs, GetKey (st_snapshot st))"
      "st_blockTxs st = map2 (\<lambda>t out. t\<lparr>tx_Result := snd out\<rparr>) ord outs"
      "map_of (st_txRWSetMap st) = map_of (rev (rw_entries (map fst outs)))"
    using inv by (auto simp: pdcc_inv_def Let_def split: prod.splits)
  have pool: "mset ord + mset (st_txBatch st) = mset txs"
    using inv by (simp add: pdcc_inv_def)
  have len: "length outs = length ord"
    using length_serial_run [of ?ex v0 ord] run(1) by simp
  have id: "rw_TxId (fst (outs ! i)) = TxId (ord ! i)" if "i < length ord" for i
  proof -
    have "ord ! i \<in> set txs"
      using pool that by (metis nth_mem mset_subset_eq_add_left set_mset_mono set_mset_mset subsetD)
    then show ?thesis
      using serial_run_nth [OF that, of ?ex v0] run(1) cov vm_exec_TxId by force
  qed
  have ids: "map fst (rw_entries (map fst outs)) = map TxId ord"
    using id len by (intro nth_equalityI) (auto simp: rw_entries_def)
  have "distinct (map TxId ord @ map TxId (st_txBatch st))"
    using dist pool by (metis map_append mset_append mset_eq_imp_distinct_iff mset_map)
  then have d: "distinct (map fst (rw_entries (map fst outs)))"
    using ids by simp
  have "map_of (st_txRWSetMap st) (TxId (ord ! i)) = Some (fst (outs ! i))" if "i < length ord" for i
  proof -
    have "(TxId (ord ! i), fst (outs ! i)) \<in> set (rw_entries (map fst outs))"
      using that len id [OF that, symmetric] by (auto simp: rw_entries_def)
    then show ?thesis
      using d run(3) by (simp add: map_of_rev_distinct)
  qed
  with run(1,2) show ?thesis by blast
qed

section \<open>Determinism\<close>

text \<open>
  Two states of the scheduler that differ at most in how their snapshots hold the same view,
  as runs under different runtimes do.
\<close>

definition same_state :: "pdcc_state \<Rightarrow> pdcc_state \<Rightarrow> bool" where
  "same_state st st' \<longleftrightarrow>
     st_txBatch st' = st_txBatch st \<and> st_blockTxs st' = st_blockTxs st \<and>
     st_txRWSetMap st' = st_txRWSetMap st \<and> st_roundCommittedTxs st' = st_roundCommittedTxs st \<and>
     GetKey (st_snapshot st') = GetKey (st_snapshot st)"

definition ready :: "pdcc_state \<Rightarrow> bool" where
  "ready st \<longleftrightarrow> wf_snap (st_snapshot st) \<and> \<not> IsSealed (st_snapshot st) \<and>
     total_view (GetKey (st_snapshot st))"

lemma round_infos_cong: "GetKey s' = GetKey s \<Longrightarrow> round_infos ex s' ts = round_infos ex s ts"
  by (simp add: round_infos_def execute_txs_def exec_info_def [abs_def])

lemma ready_round:
  assumes "ready st" and "wf_runtime rt" and "keys_agree ex (set (st_txBatch st))"
  shows "ready (pdcc_round rt ex bs st)"
  using assms keys_agree_subset [OF assms(3) set_take_subset]
  by (simp add: ready_def pdcc_round_snapshot pdcc_round_view apply_writes_total)

lemma same_state_round:
  assumes "same_state st st'" and "ready st" and "ready st'" and "wf_runtime rt" and "wf_runtime rt'"
    and "keys_agree ex (set (st_txBatch st))"
  shows "same_state (pdcc_round rt ex bs st) (pdcc_round rt' ex bs st')"
proof -
  let ?ts = "take bs (st_txBatch st)"
  have keys: "keys_agree ex (set ?ts)"
    by (rule keys_agree_subset [OF assms(6) set_take_subset])
  have batch: "st_txBatch st' = st_txBatch st" and view: "GetKey (st_snapshot st') = GetKey (st_snapshot st)"
    using assms(1) by (simp_all add: same_state_def)
  note infos = round_infos_cong [OF view]
  have "GetKey (st_snapshot (pdcc_round rt' ex bs st')) = GetKey (st_snapshot (pdcc_round rt ex bs st))"
    using pdcc_round_view [of rt st ex bs] pdcc_round_view [of rt' st' ex bs] assms(2-5) keys
    unfolding ready_def batch view infos by metis
  then show ?thesis
    using assms(1) unfolding same_state_def by (simp add: pdcc_round_eq [of _ ex] infos)
qed

lemma pool_subset: "set (st_txBatch (pdcc_round rt ex bs st)) \<subseteq> set (st_txBatch st)"
  using pdcc_round_pool [of rt ex bs st]
  by (metis mset_subset_eq_add_left set_mset_mono set_mset_mset)

lemma Schedule_loop_deterministic:
  assumes "bs > 0" and "wf_runtime rt" and "wf_runtime rt'" and "timed_out rt' = timed_out rt"
    and "same_state st st'" and "ready st" and "ready st'" and "keys_agree ex (set (st_txBatch st))"
  shows "\<exists>n a b. Schedule_loop rt ex bs r st = Some (n, a) \<and> Schedule_loop rt' ex bs r st' = Some (n, b) \<and>
    same_state a b"
  using assms(5-8)
proof (induction "length (st_txBatch st)" arbitrary: st st' r rule: less_induct)
  case less
  have batch: "st_txBatch st' = st_txBatch st"
    using less.prems by (simp add: same_state_def)
  consider (empty) "st_txBatch st = []" | (timeout) "st_txBatch st \<noteq> []" "timed_out rt (r + 1)"
    | (round) "st_txBatch st \<noteq> []" "\<not> timed_out rt (r + 1)"
    by blast
  then show ?case
  proof cases
    case empty
    then show ?thesis
      using less.prems batch by (simp add: Schedule_loop_unfold)
  next
    case timeout
    then show ?thesis
      using less.prems batch assms(4) Schedule_loop_unfold(2) [of st rt r ex bs]
        Schedule_loop_unfold(2) [of st' rt' r ex bs] by simp
  next
    case round
    have lt: "length (st_txBatch (pdcc_round rt ex bs st)) < length (st_txBatch st)"
      using round assms(1) by (intro pdcc_round_decreases)
    have "\<exists>n a b. Schedule_loop rt ex bs (r + 1) (pdcc_round rt ex bs st) = Some (n, a) \<and>
        Schedule_loop rt' ex bs (r + 1) (pdcc_round rt' ex bs st') = Some (n, b) \<and> same_state a b"
      using less.prems assms(2,3)
      by (intro less.hyps [OF lt] same_state_round ready_round)
        (auto simp: batch intro: keys_agree_subset [OF _ pool_subset])
    then show ?thesis
      using round batch assms(4) Schedule_loop_unfold(3) [of st rt r ex bs]
        Schedule_loop_unfold(3) [of st' rt' r ex bs] by simp
  qed
qed

section \<open>The scheduler over blocks\<close>

lemma ws_map_adjust [simp]: "ws_txRWSetMap (adjustBatchSize c r ws) = ws_txRWSetMap ws"
  by (simp add: adjustBatchSize_def Let_def)

lemma Schedule_loop_counts:
  assumes "bs > 0"
  shows "\<exists>n st'. Schedule_loop rt ex bs 0
      \<lparr>st_txBatch = txs, st_blockTxs = [], st_txRWSetMap = [], st_snapshot = s, st_roundCommittedTxs = []\<rparr>
        = Some (n, st') \<and> n \<le> length txs \<and> (st_txBatch st' = [] \<or> timed_out rt n) \<and>
      length (st_blockTxs st') + length (st_txBatch st') = length txs"
proof -
  let ?Q = "\<lambda>st. length (st_blockTxs st) + length (st_txBatch st) = length txs"
  have "?Q (pdcc_round rt ex bs st)" if "?Q st" for st
  proof -
    have "length (st_txBatch (pdcc_round rt ex bs st)) + length
        (committed_idx (round_infos ex (st_snapshot st) (take bs (st_txBatch st)))) = length (st_txBatch st)"
      using arg_cong [OF pdcc_round_pool [of rt ex bs st], of size] by simp
    with that show ?thesis by (simp add: pdcc_round_eq)
  qed
  then show ?thesis
    using Schedule_loop_returns [of bs ?Q "\<lparr>st_txBatch = txs, st_blockTxs = [], st_txRWSetMap = [],
        st_snapshot = s, st_roundCommittedTxs = []\<rparr>" rt ex 0] assms by force
qed

text \<open>The schedulers a node goes through, block after block, from its start on \<open>n\<close> processors.\<close>

inductive node_scheduler :: "nat \<Rightarrow> WriaScheduler \<Rightarrow> bool" for n where
  start: "node_scheduler n (NewWriaScheduler n)"
| block: "node_scheduler n ws \<Longrightarrow> Schedule rt ex ws txs s = Some (ws', r, st) \<Longrightarrow> node_scheduler n ws'"

definition two_sizes :: "nat \<Rightarrow> WriaScheduler \<Rightarrow> bool" where
  "two_sizes n ws \<longleftrightarrow> ws_highBatchSize ws = n * HighBatchSizeMultiplier \<and>
     ws_lowBatchSize ws = n * LowBatchSizeMultiplier \<and>
     (ws_batchSize ws = ws_highBatchSize ws \<or> ws_batchSize ws = ws_lowBatchSize ws)"

lemma two_sizes_adjust: "two_sizes n ws \<Longrightarrow> two_sizes n (adjustBatchSize c r ws)"
  by (auto simp: two_sizes_def adjustBatchSize_def Let_def)

lemma node_scheduler_two_sizes: "node_scheduler n ws \<Longrightarrow> two_sizes n ws"
proof (induction rule: node_scheduler.induct)
  case start
  show ?case by (simp add: two_sizes_def NewWriaScheduler_def)
next
  case (block ws rt ex txs s ws' r st)
  have "two_sizes n (ws\<lparr>ws_txRWSetMap := m\<rparr>)" for m
    using block.IH by (auto simp: two_sizes_def)
  then show ?case
    using block.hyps(2) by (auto simp: Schedule_def intro: two_sizes_adjust split: option.splits)
qed

end
