(* ===== verification/OCC.thy ===== *)
theory OCC
  imports Snapshot CommonVM
begin

text \<open>
  Optimistic concurrency control on the snapshot, as the default scheduler uses it
  (\<^verbatim>\<open>scheduler.go\<close>, \<^verbatim>\<open>handleTx\<close>): any number of transactions execute at the same time, each
  noting the snapshot's size when it starts, reading from the snapshot while others are applied, and
  ending in \<^verbatim>\<open>ApplyTxSimContext\<close>, which rejects it if a key it read was written since.

  \<open>occ_step\<close> interleaves these actions in any order. The invariant says that a read which no
  longer shows the current value is on a key the check will find. Applied transactions are
  therefore serializable in the order of the snapshot's table.
\<close>

section \<open>Interleaved execution\<close>

record running =
  run_tx :: Transaction
  run_seq :: nat
  run_reads :: "TxRead list"

record occ_state =
  oc_snapshot :: SnapshotImpl
  oc_running :: "running list"
  oc_pool :: "Transaction list"

definition out_of :: "TxSimContext \<Rightarrow> bool \<Rightarrow> outcome" where
  "out_of sim ok = (sim_GetTxRWSet sim ok, sim_GetTxResult sim)"

text \<open>
  The contract and key pairs in use, on which the concatenated table keys are unambiguous.
\<close>

definition unambiguous :: "(string \<times> string) set \<Rightarrow> bool" where
  "unambiguous U \<longleftrightarrow> inj_on (\<lambda>(c, k). constructKey c k) U"

text \<open>The view an execution saw shows its recorded reads, each made at some moment of the run.\<close>

definition seen :: "view \<Rightarrow> TxRead list \<Rightarrow> running \<Rightarrow> bool" where
  "seen v rs x \<longleftrightarrow> total_view v \<and> set rs \<subseteq> set (run_reads x) \<and>
     (\<forall>r\<in>set rs. v (r_ContractName r) (r_Key r) = Inr (r_Value r))"

text \<open>
  The steps of \<^verbatim>\<open>handleTx\<close>: on a sealed snapshot it returns at once; otherwise the transaction starts
  to run, reads, and is applied. The result is stored in the transaction before the application;
  a rejected transaction goes back to the channel of waiting transactions.
\<close>

inductive occ_step :: "exec_fun \<Rightarrow> (string \<times> string) set \<Rightarrow> occ_state \<Rightarrow> occ_state \<Rightarrow> bool"
  for ex U where
  return_sealed: "IsSealed s \<Longrightarrow> occ_step ex U \<lparr>oc_snapshot = s, oc_running = R, oc_pool = P1 @ t # P2\<rparr>
     \<lparr>oc_snapshot = s, oc_running = R, oc_pool = P1 @ P2\<rparr>"
| begin_tx: "\<not> IsSealed s \<Longrightarrow> occ_step ex U \<lparr>oc_snapshot = s, oc_running = R, oc_pool = P1 @ t # P2\<rparr>
     \<lparr>oc_snapshot = s, oc_running = \<lparr>run_tx = t, run_seq = GetSnapshotSize s, run_reads = []\<rparr> # R, oc_pool = P1 @ P2\<rparr>"
| read_key: "GetKey s c k = Inr b \<Longrightarrow> (c, k) \<in> U \<Longrightarrow>
     occ_step ex U \<lparr>oc_snapshot = s, oc_running = R1 @ x # R2, oc_pool = P\<rparr>
       \<lparr>oc_snapshot = s,
        oc_running = R1 @ x\<lparr>run_reads := \<lparr>r_ContractName = c, r_Key = k, r_Value = b\<rparr> # run_reads x\<rparr> # R2,
        oc_pool = P\<rparr>"
| apply_tx_step: "sim_txExecSeq sim = run_seq x \<Longrightarrow> out_of sim ok = ex v (run_tx x) \<Longrightarrow>
     sim_tx sim = (run_tx x)\<lparr>tx_Result := sim_GetTxResult sim\<rparr> \<Longrightarrow> seen v (reads_of (out_of sim ok)) x \<Longrightarrow>
     specialTxType \<noteq> ExecOrderTxTypeChargeGas \<Longrightarrow>
     ApplyTxSimContext sim specialTxType ok False s = ((applyResult, applySize), s') \<Longrightarrow>
     occ_step ex U \<lparr>oc_snapshot = s, oc_running = R1 @ x # R2, oc_pool = P\<rparr>
       \<lparr>oc_snapshot = s', oc_running = R1 @ R2, oc_pool = (if applyResult then P else P @ [sim_tx sim])\<rparr>"
| seal_step: "occ_step ex U \<lparr>oc_snapshot = s, oc_running = R, oc_pool = P\<rparr>
     \<lparr>oc_snapshot = Seal s, oc_running = R, oc_pool = P\<rparr>"

inductive_cases occ_stepE: "occ_step ex U st st'"

inductive occ_reach :: "exec_fun \<Rightarrow> (string \<times> string) set \<Rightarrow> occ_state \<Rightarrow> occ_state \<Rightarrow> bool"
  for ex U st0 where
  start: "occ_reach ex U st0 st0"
| step: "occ_reach ex U st0 st \<Longrightarrow> occ_step ex U st st' \<Longrightarrow> occ_reach ex U st0 st'"

section \<open>One application\<close>

text \<open>
  An accepted transaction changes the snapshot as \<open>apply_tx\<close> does, whether it took the path with
  prepared maps or the one without.
\<close>

definition put_reads :: "bool \<Rightarrow> TxRead list \<Rightarrow> snap_data \<Rightarrow> ShardSet" where
  "put_reads ok rs d = (if blockVersion d < 2201 \<or> ok
     then put_all (length (txTable d)) (map (\<lambda>r. (rkey r, r_Value r)) rs) (readTable d) else readTable d)"

definition applied_like :: "TxSimContext \<Rightarrow> bool \<Rightarrow> SnapshotImpl \<Rightarrow> SnapshotImpl \<Rightarrow> bool" where
  "applied_like sim ok s s' \<longleftrightarrow>
     getByLock (readTable (snap s')) = getByLock (put_reads ok (TxReads (sim_GetTxRWSet sim ok)) (snap s)) \<and>
     getByLock (writeTable (snap s')) = getByLock (put_all (length (txTable (snap s)))
       (map wkv (TxWrites (sim_GetTxRWSet sim ok))) (writeTable (snap s))) \<and>
     txTable (snap s') = txTable (snap s) @ [sim_tx sim] \<and>
     txRWSetTable (snap s') = txRWSetTable (snap s) @ [sim_GetTxRWSet sim ok] \<and>
     specialTxTable (snap s') = specialTxTable (snap s) \<and>
     blockVersion (snap s') = blockVersion (snap s) \<and>
     blockchainStore (snap s') = blockchainStore (snap s) \<and> preSnapshot s' = preSnapshot s"

lemma put_all_prepared:
  assumes "shard_inv t"
  shows "getByLock (put_all n (fold (\<lambda>x m. AList.update (f x) (g x) m) xs []) t) =
    getByLock (put_all n (map (\<lambda>x. (f x, g x)) xs) t)"
proof -
  let ?m = "fold (\<lambda>x m. AList.update (f x) (g x) m) xs []"
  have "map_of (rev ?m) = map_of ?m"
    by (rule map_of_rev_distinct) (simp add: distinct_fold_update)
  then show ?thesis
    using assms by (simp add: getByLock_put_all map_of_fold_update)
qed

lemma applied_like_optimize:
  assumes "wf_snap s" and "buildKVMaps (sim_GetTxRWSet sim ok) = (rkvs, wkvs)"
  shows "applied_like sim ok s
    (applyOptimize (sim_tx sim) (sim_GetTxRWSet sim ok) (sim_GetTxResult sim) ok rkvs wkvs s)"
  using assms put_all_prepared [of "readTable (snap s)" _ rkey r_Value]
    put_all_prepared [of "writeTable (snap s)" _ wkey w_Value]
  by (auto simp: applied_like_def applyOptimize_def buildKVMaps_def put_reads_def wf_snap_def Let_def)

lemma applied_like_apply:
  "applied_like sim ok s (apply_tx (sim_tx sim) (sim_GetTxRWSet sim ok) (sim_GetTxResult sim) ok s)"
  by (simp add: applied_like_def apply_tx_def put_reads_def Let_def)

lemma buildKVMaps_keys:
  assumes "buildKVMaps rw = (rkvs, wkvs)"
  shows "fst ` set rkvs = rkey ` set (TxReads rw)"
proof -
  have "rkvs = fold (\<lambda>r m. AList.update (rkey r) (r_Value r) m) (TxReads rw) []"
    using assms by (simp add: buildKVMaps_def)
  then have "dom (map_of rkvs) = dom (map_of (rev (map (\<lambda>r. (rkey r, r_Value r)) (TxReads rw))))"
    by (simp add: map_of_fold_update)
  then show ?thesis
    by (force simp: dom_map_of_conv_image_fst)
qed

text \<open>Either the snapshot stays, or the transaction is applied and none of its reads is stale.\<close>

definition fresh :: "TxSimContext \<Rightarrow> bool \<Rightarrow> SnapshotImpl \<Rightarrow> bool" where
  "fresh sim ok s \<longleftrightarrow> GetSnapshotSize s \<le> sim_txExecSeq sim \<or>
     (\<forall>r\<in>set (TxReads (sim_GetTxRWSet sim ok)). \<not> key_conflicted s (sim_txExecSeq sim) (rkey r))"

lemma ApplyTx_normal_cases:
  assumes "ApplyTxSimContext sim ExecOrderTxTypeNormal ok False s = ((applied, n), s')" and "wf_snap s"
  shows "\<not> applied \<and> s' = s \<or> applied \<and> \<not> IsSealed s \<and> applied_like sim ok s s' \<and> fresh sim ok s"
proof (cases "p_ContractName (tx_Payload (sim_tx sim)) \<in> set SZContractList")
  case True
  then show ?thesis
    using assms applied_like_apply [of sim ok s]
    by (auto simp: ApplyTxSimContext_def applyNormalTxSimContext_def dealSZTx_def fresh_def list_ex_iff Let_def
        split: if_splits)
next
  case False
  obtain rkvs wkvs where kv: "buildKVMaps (sim_GetTxRWSet sim ok) = (rkvs, wkvs)" by force
  show ?thesis
    using False assms applied_like_optimize [OF assms(2) kv]
    by (auto simp: ApplyTxSimContext_def applyNormalTxSimContext_def applyNormal_locked_def kv fresh_def
        list_ex_iff Let_def split: if_splits)
qed

text \<open>A transaction with range queries is set aside in its first run.\<close>

lemma ApplyTx_special_cases:
  assumes "ApplyTxSimContext sim ExecOrderTxTypeSpecial ok False s = ((applied, n), s')"
  shows "\<not> applied \<and> s' = s \<or> applied \<and> \<not> IsSealed s \<and>
    s' = map_snap (\<lambda>d. d\<lparr>specialTxTable := specialTxTable d @ [sim_tx sim]\<rparr>) s"
  using assms by (auto simp: ApplyTxSimContext_def applyIteratorFirstRun_def Let_def split: if_splits)

section \<open>The invariant\<close>

abbreviation read_ok :: "SnapshotImpl \<Rightarrow> TxRead \<Rightarrow> bool" where
  "read_ok s r \<equiv> GetKey s (r_ContractName r) (r_Key r) = Inr (r_Value r)"

abbreviation read_pair :: "TxRead \<Rightarrow> string \<times> string" where
  "read_pair r \<equiv> (r_ContractName r, r_Key r)"

definition strict_seq :: "SnapshotImpl \<Rightarrow> bool" where
  "strict_seq s \<longleftrightarrow> (\<forall>k e. getByLock (writeTable (snap s)) k = Some e \<longrightarrow> seq e < GetSnapshotSize s)"

definition run_ok :: "(string \<times> string) set \<Rightarrow> SnapshotImpl \<Rightarrow> running \<Rightarrow> bool" where
  "run_ok U s x \<longleftrightarrow> run_seq x \<le> GetSnapshotSize s \<and>
     (\<forall>r\<in>set (run_reads x). read_pair r \<in> U \<and> (read_ok s r \<or> key_conflicted s (run_seq x) (rkey r)))"

lemma lookup_writes_applied:
  assumes "applied_like sim ok s s'" and "wf_snap s"
  shows "getByLock (writeTable (snap s')) k =
    (case map_of (rev (map wkv (TxWrites (sim_GetTxRWSet sim ok)))) k of
       Some b \<Rightarrow> Some \<lparr>seq = GetSnapshotSize s, sv_value = b\<rparr>
     | None \<Rightarrow> getByLock (writeTable (snap s)) k)"
  using assms
  by (auto simp: applied_like_def getByLock_put_all wf_snap_def GetSnapshotSize_def map_add_def split: option.splits)

lemma lookup_reads_applied:
  assumes "applied_like sim ok s s'" and "wf_snap s"
  shows "getByLock (readTable (snap s')) k = getByLock (readTable (snap s)) k \<or>
    (\<exists>r\<in>set (TxReads (sim_GetTxRWSet sim ok)). rkey r = k \<and>
       map_option sv_value (getByLock (readTable (snap s')) k) = Some (r_Value r))"
proof (cases "map_of (rev (map (\<lambda>r. (rkey r, r_Value r)) (TxReads (sim_GetTxRWSet sim ok)))) k")
  case None
  then show ?thesis
    using assms by (auto simp: applied_like_def put_reads_def getByLock_put_all wf_snap_def map_add_def)
next
  case (Some b)
  then obtain r where "r \<in> set (TxReads (sim_GetTxRWSet sim ok))" "rkey r = k" "r_Value r = b"
    by (auto dest!: map_of_SomeD)
  then show ?thesis
    using assms Some
    by (auto simp: applied_like_def put_reads_def getByLock_put_all wf_snap_def map_add_def)
qed

text \<open>On the pairs in use, an applied transaction whose reads are current shows as its writes.\<close>

lemma view_applied:
  assumes app: "applied_like sim ok s s'" and wf: "wf_snap s" and U: "unambiguous U" "(c, k) \<in> U"
    and reads: "\<forall>r\<in>set (TxReads (sim_GetTxRWSet sim ok)). read_pair r \<in> U \<and> read_ok s r"
  shows "GetKey s' c k = apply_writes (GetKey s) (TxWrites (sim_GetTxRWSet sim ok)) c k"
proof -
  let ?fk = "constructKey c k" and ?ws = "TxWrites (sim_GetTxRWSet sim ok)"
  note w = lookup_writes_applied [OF app wf, of ?fk]
  show ?thesis
  proof (cases "map_of (rev (map wkv ?ws)) ?fk = None \<and> getByLock (writeTable (snap s)) ?fk = None")
    case False
    then show ?thesis
      using w by (auto simp: GetKey_layers apply_writes_def split: option.splits)
  next
    case True
    then have v: "GetKey s c k = under_writes s c k" "GetKey s' c k = under_writes s' c k"
      using w by (simp_all add: GetKey_layers)
    have "under_writes s' c k = under_writes s c k"
      using lookup_reads_applied [OF app wf, of ?fk]
    proof
      assume "getByLock (readTable (snap s')) ?fk = getByLock (readTable (snap s)) ?fk"
      then show ?thesis
        using app by (auto simp: under_writes_def applied_like_def split: option.splits)
    next
      assume "\<exists>r\<in>set (TxReads (sim_GetTxRWSet sim ok)). rkey r = ?fk \<and>
        map_option sv_value (getByLock (readTable (snap s')) ?fk) = Some (r_Value r)"
      then obtain r e where r: "r \<in> set (TxReads (sim_GetTxRWSet sim ok))" "rkey r = ?fk"
          "getByLock (readTable (snap s')) ?fk = Some e" "sv_value e = r_Value r"
        by auto
      then have "read_pair r = (c, k)"
        using U reads inj_onD [of "\<lambda>(c, k). constructKey c k" U "read_pair r" "(c, k)"]
        by (simp add: unambiguous_def)
      then have "GetKey s c k = Inr (r_Value r)"
        using reads r(1) by auto
      with r v(1) show ?thesis by (simp add: under_writes_def)
    qed
    then show ?thesis
      using True v by (simp add: apply_writes_def)
  qed
qed

lemma run_ok_applied:
  assumes app: "applied_like sim ok s s'" and wf: "wf_snap s" and U: "unambiguous U"
    and reads: "\<forall>r\<in>set (TxReads (sim_GetTxRWSet sim ok)). read_pair r \<in> U \<and> read_ok s r"
    and x: "run_ok U s x"
  shows "run_ok U s' x"
proof -
  have size: "GetSnapshotSize s' = Suc (GetSnapshotSize s)"
    using app by (simp add: applied_like_def GetSnapshotSize_def)
  have "read_ok s' r \<or> key_conflicted s' (run_seq x) (rkey r)" if r: "r \<in> set (run_reads x)" for r
  proof (cases "map_of (rev (map wkv (TxWrites (sim_GetTxRWSet sim ok)))) (rkey r)")
    case None
    then have "GetKey s' (r_ContractName r) (r_Key r) = GetKey s (r_ContractName r) (r_Key r)"
      using view_applied [OF app wf U _ reads, of "r_ContractName r" "r_Key r"] x r
      by (simp add: run_ok_def apply_writes_def)
    then show ?thesis
      using None x r lookup_writes_applied [OF app wf, of "rkey r"]
      by (auto simp: run_ok_def key_conflicted_def)
  next
    case (Some b)
    then show ?thesis
      using x lookup_writes_applied [OF app wf, of "rkey r"] by (simp add: run_ok_def key_conflicted_def)
  qed
  then show ?thesis
    using x size by (auto simp: run_ok_def)
qed

lemma fresh_reads_current:
  assumes "fresh sim ok s" and "strict_seq s" and "run_ok U s x" and "sim_txExecSeq sim = run_seq x"
    and "set (TxReads (sim_GetTxRWSet sim ok)) \<subseteq> set (run_reads x)"
  shows "\<forall>r\<in>set (TxReads (sim_GetTxRWSet sim ok)). read_pair r \<in> U \<and> read_ok s r"
proof
  fix r
  assume r: "r \<in> set (TxReads (sim_GetTxRWSet sim ok))"
  have "\<not> key_conflicted s (run_seq x) (rkey r)"
    using assms(1,2,4) r by (fastforce simp: fresh_def strict_seq_def key_conflicted_def split: option.splits)
  then show "read_pair r \<in> U \<and> read_ok s r"
    using assms(3,5) r by (auto simp: run_ok_def)
qed

lemma strict_seq_applied:
  assumes "applied_like sim ok s s'" and "wf_snap s" and "strict_seq s"
  shows "strict_seq s'"
  using assms lookup_writes_applied [OF assms(1,2)]
  by (auto simp: strict_seq_def applied_like_def GetSnapshotSize_def less_SucI split: option.splits)

text \<open>
  The applied transactions, run serially in the order of the table, have the recorded
  read-write sets and results and lead to a state that agrees with the snapshot on the pairs in use.
\<close>

definition serial_table :: "exec_fun \<Rightarrow> (string \<times> string) set \<Rightarrow> view \<Rightarrow> SnapshotImpl \<Rightarrow> bool" where
  "serial_table ex U v0 s \<longleftrightarrow>
     (\<exists>ts outs v. serial_run ex v0 ts = (outs, v) \<and>
        txTable (snap s) = map2 (\<lambda>t out. t\<lparr>tx_Result := snd out\<rparr>) ts outs \<and>
        txRWSetTable (snap s) = map fst outs \<and> (\<forall>c k. (c, k) \<in> U \<longrightarrow> v c k = GetKey s c k))"

lemma serial_table_applied:
  assumes "serial_table ex U v0 s" and app: "applied_like sim ok s s'" and wf: "wf_snap s" and U: "unambiguous U"
    and reads: "\<forall>r\<in>set (TxReads (sim_GetTxRWSet sim ok)). read_pair r \<in> U \<and> read_ok s r"
    and tx: "sim_tx sim = t\<lparr>tx_Result := sim_GetTxResult sim\<rparr>"
    and run: "\<And>v'. total_view v' \<Longrightarrow> (\<forall>r\<in>set (TxReads (sim_GetTxRWSet sim ok)).
      v' (r_ContractName r) (r_Key r) = Inr (r_Value r)) \<Longrightarrow> ex v' t = out_of sim ok"
    and total: "total_view v0"
  shows "serial_table ex U v0 s'"
proof -
  obtain ts outs v where run0: "serial_run ex v0 ts = (outs, v)"
      and tab: "txTable (snap s) = map2 (\<lambda>t out. t\<lparr>tx_Result := snd out\<rparr>) ts outs"
        "txRWSetTable (snap s) = map fst outs" and agree: "\<And>c k. (c, k) \<in> U \<Longrightarrow> v c k = GetKey s c k"
    using assms(1) unfolding serial_table_def by blast
  have len: "length outs = length ts"
    using length_serial_run [of ex v0 ts] run0 by simp
  have "total_view v"
    using serial_run_total [OF total, of ex ts] run0 by simp
  then have "ex v t = out_of sim ok"
    using reads agree by (intro run) auto
  then have "serial_run ex v0 (ts @ [t]) =
      (outs @ [out_of sim ok], apply_writes v (TxWrites (sim_GetTxRWSet sim ok)))"
    using run0 by (simp add: serial_run_append out_of_def)
  moreover have "apply_writes v (TxWrites (sim_GetTxRWSet sim ok)) c k = GetKey s' c k" if "(c, k) \<in> U" for c k
    using view_applied [OF app wf U that reads] agree [OF that] by (simp add: apply_writes_def split: option.splits)
  ultimately show ?thesis
    unfolding serial_table_def
    using app tab len tx
    by (intro exI [of _ "ts @ [t]"] exI conjI) (assumption | auto simp: applied_like_def out_of_def)+
qed

text \<open>No transaction of the batch gets lost before the snapshot is sealed, and none is doubled.\<close>

definition occ_payloads :: "occ_state \<Rightarrow> Payload multiset" where
  "occ_payloads st = image_mset tx_Payload
     (mset (txTable (snap (oc_snapshot st))) + mset (specialTxTable (snap (oc_snapshot st))) +
      mset (map run_tx (oc_running st)) + mset (oc_pool st))"

definition occ_inv :: "exec_fun \<Rightarrow> (string \<times> string) set \<Rightarrow> view \<Rightarrow> Payload multiset \<Rightarrow> occ_state \<Rightarrow> bool" where
  "occ_inv ex U v0 B st \<longleftrightarrow> wf_snap (oc_snapshot st) \<and> strict_seq (oc_snapshot st) \<and>
     (\<forall>x\<in>set (oc_running st). run_ok U (oc_snapshot st) x) \<and> serial_table ex U v0 (oc_snapshot st) \<and>
     occ_payloads st \<subseteq># B \<and> (\<not> IsSealed (oc_snapshot st) \<longrightarrow> occ_payloads st = B)"

lemma mset_le_dropD: "add_mset x A \<subseteq># B \<Longrightarrow> A \<subseteq># B"
  by (meson mset_subset_eq_insertD subset_mset.less_imp_le)

lemma occ_inv_frame:
  assumes "occ_inv ex U v0 B \<lparr>oc_snapshot = s, oc_running = R, oc_pool = P\<rparr>"
    and "wf_snap s'" and "readTable (snap s') = readTable (snap s)" and "writeTable (snap s') = writeTable (snap s)"
    and "txTable (snap s') = txTable (snap s)" and "txRWSetTable (snap s') = txRWSetTable (snap s)"
    and "blockchainStore (snap s') = blockchainStore (snap s)" and "preSnapshot s' = preSnapshot s"
    and "set R' \<subseteq> set R"
    and "occ_payloads \<lparr>oc_snapshot = s', oc_running = R', oc_pool = P'\<rparr> \<subseteq># B"
    and "\<not> IsSealed s' \<Longrightarrow> occ_payloads \<lparr>oc_snapshot = s', oc_running = R', oc_pool = P'\<rparr> = B"
  shows "occ_inv ex U v0 B \<lparr>oc_snapshot = s', oc_running = R', oc_pool = P'\<rparr>"
proof -
  have "GetKey s' = GetKey s"
    using assms(3,4,7,8) by (auto simp: fun_eq_iff GetKey_layers under_writes_def split: option.splits)
  then show ?thesis
    using assms
    by (auto simp: occ_inv_def run_ok_def strict_seq_def key_conflicted_def serial_table_def GetSnapshotSize_def)
qed

context executor
begin

lemma occ_inv_apply:
  assumes inv: "occ_inv ex U v0 B \<lparr>oc_snapshot = s, oc_running = R1 @ x # R2, oc_pool = P\<rparr>"
    and U: "unambiguous U" and total: "total_view v0" and cov: "covered (run_tx x)"
    and sim: "sim_txExecSeq sim = run_seq x" "out_of sim ok = ex v (run_tx x)"
      "sim_tx sim = (run_tx x)\<lparr>tx_Result := sim_GetTxResult sim\<rparr>" and seen: "seen v (reads_of (out_of sim ok)) x"
    and "ApplyTxSimContext sim ExecOrderTxTypeNormal ok False s = ((True, n), s')"
  shows "occ_inv ex U v0 B \<lparr>oc_snapshot = s', oc_running = R1 @ R2, oc_pool = P\<rparr>"
proof -
  have parts: "wf_snap s" "strict_seq s" "serial_table ex U v0 s" "run_ok U s x" "\<forall>y\<in>set (R1 @ R2). run_ok U s y"
    using inv by (auto simp: occ_inv_def)
  have a: "applied_like sim ok s s'" "fresh sim ok s" and unsealed: "\<not> IsSealed s"
    using ApplyTx_normal_cases [OF assms(9) parts(1)] by auto
  have reads: "\<forall>r\<in>set (TxReads (sim_GetTxRWSet sim ok)). read_pair r \<in> U \<and> read_ok s r"
    using a parts sim(1) seen by (intro fresh_reads_current) (auto simp: seen_def out_of_def)
  have "wf_snap s'"
    using wf_ApplyTxSimContext [OF parts(1), of sim ExecOrderTxTypeNormal ok False] assms(9) by simp
  moreover have "ex v' (run_tx x) = out_of sim ok" if "total_view v'"
      "\<forall>r\<in>set (TxReads (sim_GetTxRWSet sim ok)). v' (r_ContractName r) (r_Key r) = Inr (r_Value r)" for v'
  proof -
    have "reads_of (ex v (run_tx x)) = TxReads (sim_GetTxRWSet sim ok)"
      by (simp flip: sim(2)) (simp add: out_of_def)
    then have "ex v' (run_tx x) = ex v (run_tx x)"
      using that cov seen by (intro exec_local) (auto simp: seen_def out_of_def)
    then show ?thesis using sim(2) by simp
  qed
  then have "serial_table ex U v0 s'"
    using serial_table_applied [OF parts(3) a(1) parts(1) U reads sim(3) _ total] by simp
  moreover have "occ_payloads \<lparr>oc_snapshot = s', oc_running = R1 @ R2, oc_pool = P\<rparr> =
      occ_payloads \<lparr>oc_snapshot = s, oc_running = R1 @ x # R2, oc_pool = P\<rparr>"
    using a(1) sim(3) by (simp add: occ_payloads_def applied_like_def)
  ultimately show ?thesis
    using parts a(1) reads U inv unsealed
    by (auto simp: occ_inv_def intro: strict_seq_applied run_ok_applied)
qed

lemma occ_inv_step:
  assumes "occ_step ex U st st'" and "occ_inv ex U v0 B st" and "unambiguous U" and "total_view v0"
    and cov: "\<forall>x\<in>set (oc_running st). covered (run_tx x)"
  shows "occ_inv ex U v0 B st'"
  using assms(1)
proof (cases rule: occ_step.cases)
  case (return_sealed s R P1 t P2)
  then show ?thesis
    using assms(2) by (auto simp: occ_inv_def occ_payloads_def dest: mset_le_dropD)
next
  case (begin_tx s R P1 t P2)
  then show ?thesis
    using assms(2) by (auto simp: occ_inv_def run_ok_def occ_payloads_def)
next
  case (read_key s c k b R1 x R2 P)
  then show ?thesis
    using assms(2) by (auto simp: occ_inv_def run_ok_def occ_payloads_def)
next
  case (apply_tx_step sim x ok v ty s applied n s' R1 R2 P)
  have inv: "occ_inv ex U v0 B \<lparr>oc_snapshot = s, oc_running = R1 @ x # R2, oc_pool = P\<rparr>"
    using assms(2) apply_tx_step(1) by simp
  then have wf: "wf_snap s" by (simp add: occ_inv_def)
  have "ty = ExecOrderTxTypeNormal \<or> ty = ExecOrderTxTypeSpecial"
    using apply_tx_step(7) by (cases ty) auto
  then consider (rejected) "\<not> applied" "s' = s"
    | (normal) "applied" "ty = ExecOrderTxTypeNormal"
    | (special) "applied" "\<not> IsSealed s"
        "s' = map_snap (\<lambda>d. d\<lparr>specialTxTable := specialTxTable d @ [sim_tx sim]\<rparr>) s"
    using ApplyTx_normal_cases [OF _ wf, of sim ok] ApplyTx_special_cases [of sim ok s] apply_tx_step(8) by blast
  then show ?thesis
  proof cases
    case normal
    then show ?thesis
      using occ_inv_apply [OF inv assms(3,4) _ apply_tx_step(3-6)] apply_tx_step(1,2,8) cov by simp
  next
    case rejected
    then show ?thesis
      using inv wf apply_tx_step(2,5) by (auto intro!: occ_inv_frame [OF inv] simp: occ_inv_def occ_payloads_def)
  next
    case special
    have "occ_payloads \<lparr>oc_snapshot = s, oc_running = R1 @ x # R2, oc_pool = P\<rparr> = B"
      using inv special(2) by (simp add: occ_inv_def)
    then have "occ_payloads \<lparr>oc_snapshot = s', oc_running = R1 @ R2, oc_pool = P\<rparr> = B"
      using special(3) apply_tx_step(5) by (simp add: occ_payloads_def)
    moreover have "wf_snap s'"
      using special(3) wf wf_special by simp
    ultimately show ?thesis
      using special(1,3) by (simp add: apply_tx_step(2)) (intro occ_inv_frame [OF inv], auto)
  qed
next
  case (seal_step s R P)
  have inv: "occ_inv ex U v0 B \<lparr>oc_snapshot = s, oc_running = R, oc_pool = P\<rparr>"
    using assms(2) seal_step(1) by simp
  have "occ_payloads \<lparr>oc_snapshot = Seal s, oc_running = R, oc_pool = P\<rparr> \<subseteq># B" "wf_snap (Seal s)"
    using inv wf_Seal by (simp_all add: occ_inv_def occ_payloads_def Seal_def)
  then show ?thesis
    unfolding seal_step(2) by (intro occ_inv_frame [OF inv]) (simp_all add: Seal_def IsSealed_def)
qed

end

text \<open>The transactions taken from the pool differ from those of the batch in their results only.\<close>

definition occ_txs :: "occ_state \<Rightarrow> Transaction set" where
  "occ_txs st = run_tx ` set (oc_running st) \<union> set (oc_pool st)"

lemma occ_txs_step:
  assumes "occ_step ex U st st'" and "t \<in> occ_txs st'"
  shows "\<exists>t0\<in>occ_txs st. \<exists>r. t = t0\<lparr>tx_Result := r\<rparr>"
proof -
  have same: "t = t\<lparr>tx_Result := tx_Result t\<rparr>" for t by simp
  show ?thesis
    using assms by (cases rule: occ_step.cases) (auto simp: occ_txs_def split: if_splits intro: same)
qed

lemma occ_inv_start:
  "occ_inv ex U (ReadObject store) (mset (map tx_Payload txs))
     \<lparr>oc_snapshot = makeSnapshotImpl store ver, oc_running = [], oc_pool = txs\<rparr>"
proof -
  let ?s = "makeSnapshotImpl store ver"
  have "GetKey ?s = ReadObject store"
    by (simp add: fun_eq_iff GetKey_layers under_writes_def makeSnapshotImpl_def shard_kv.get_empty)
  then have "serial_table ex U (ReadObject store) ?s"
    unfolding serial_table_def by (intro exI [of _ "[]"]) (simp add: makeSnapshotImpl_def)
  moreover have "strict_seq ?s"
    by (simp add: strict_seq_def makeSnapshotImpl_def shard_kv.get_empty)
  moreover have "occ_payloads \<lparr>oc_snapshot = ?s, oc_running = [], oc_pool = txs\<rparr> = mset (map tx_Payload txs)"
    by (simp add: occ_payloads_def makeSnapshotImpl_def)
  ultimately show ?thesis
    by (simp add: occ_inv_def wf_makeSnapshotImpl)
qed

context executor
begin

lemma occ_inv_reach:
  assumes "occ_reach ex U st0 st" and "occ_inv ex U v0 B st0" and "unambiguous U" and "total_view v0"
    and cov: "\<forall>t\<in>occ_txs st0. \<forall>r. covered (t\<lparr>tx_Result := r\<rparr>)"
  shows "occ_inv ex U v0 B st \<and> (\<forall>t\<in>occ_txs st. \<forall>r. covered (t\<lparr>tx_Result := r\<rparr>))"
  using assms(1)
proof induction
  case start
  then show ?case using assms(2) cov by simp
next
  case (step st st')
  have "covered (run_tx x)" if "x \<in> set (oc_running st)" for x
    using step.IH that spec [of "\<lambda>r. covered ((run_tx x)\<lparr>tx_Result := r\<rparr>)" "tx_Result (run_tx x)"]
    by (simp add: occ_txs_def)
  then have "occ_inv ex U v0 B st'"
    using occ_inv_step [OF step.hyps(2) _ assms(3,4)] step.IH by simp
  moreover have "covered (t\<lparr>tx_Result := r\<rparr>)" if "t \<in> occ_txs st'" for t r
    using occ_txs_step [OF step.hyps(2) that] step.IH by auto
  ultimately show ?case by simp
qed

end

end
