(* ===== verification/Aria_Serial.thy ===== *)
theory Aria_Serial
  imports Aria Rounds
begin

text \<open>
  Correctness of Aria: which transactions a round commits, a serial order of them that is in general
  not the order of the block, and the loop over the rounds of a block.
\<close>

section \<open>The decision of a round\<close>

definition waw_with :: "aria_ExecInfo list \<Rightarrow> nat \<Rightarrow> nat \<Rightarrow> bool" where
  "waw_with infos j i \<longleftrightarrow> (\<exists>w\<in>set (ai_txWriteSet (infos ! j)). \<exists>w'\<in>set (ai_txWriteSet (infos ! i)). wkey w = wkey w')"

definition raw_with :: "aria_ExecInfo list \<Rightarrow> nat \<Rightarrow> nat \<Rightarrow> bool" where
  "raw_with infos j i \<longleftrightarrow> (\<exists>w\<in>set (ai_txWriteSet (infos ! j)). \<exists>r\<in>set (ai_txReadSet (infos ! i)). wkey w = rkey r)"

definition aria_aborts :: "aria_ExecInfo list \<Rightarrow> nat \<Rightarrow> bool" where
  "aria_aborts infos i \<longleftrightarrow> (\<exists>j<i. waw_with infos j i) \<or>
     (\<exists>j<i. raw_with infos i j) \<and> (\<exists>j<i. raw_with infos j i)"

definition aria_flags :: "aria_runtime \<Rightarrow> aria_ExecInfo list \<Rightarrow> bool list" where
  "aria_flags rt infos =
     (let (reserveTable, aborted) = reserveWrite rt infos
      in map (check_aborts infos reserveTable (reserveRead rt infos) aborted) [0..<length infos])"

lemma aria_flags_iff:
  assumes rt: "wf_aria_runtime rt" and i: "i < length infos"
  shows "aria_flags rt infos ! i \<longleftrightarrow> aria_aborts infos i"
proof -
  let ?n = "length infos"
  let ?W = "\<lambda>i. map wkey (ai_txWriteSet (infos ! i))" and ?R = "\<lambda>i. map rkey (ai_txReadSet (infos ! i))"
  define wevs where "wevs = ar_reserveWrite rt (map (\<lambda>i. reserve_events i (?W i)) [0..<?n])"
  define revs where "revs = ar_reserveRead rt (map (\<lambda>i. reserve_events i (?R i)) [0..<?n])"
  have w: "merged_events ?n ?W wevs" and r: "merged_events ?n ?R revs"
    using rt unfolding wf_aria_runtime_def wevs_def revs_def by (intro merged_eventsI; blast)+
  let ?st = "fold reserveWrite_step wevs
    \<lparr>rs_table = Map.empty, rs_aborted = replicate ?n False, rs_mustAbort = (\<lambda>_. False)\<rparr>"
  have tabs: "reserveWrite rt infos = (fold reserveRead_step wevs Map.empty, rs_aborted ?st)"
      "reserveRead rt infos = fold reserveRead_step revs Map.empty"
    by (simp_all add: reserveWrite_def reserveRead_def wevs_def revs_def rs_table_fold Let_def)
  have hold: "(case t k of None \<Rightarrow> False | Some h \<Rightarrow> h < i) \<longleftrightarrow> (\<exists>m<i. t k = Some m)" for t :: "string \<rightharpoonup> nat" and k
    by (auto split: option.splits)
  have waw: "rs_aborted ?st ! i \<longleftrightarrow> (\<exists>j<i. waw_with infos j i)"
    unfolding marks_final [OF w i] earlier_common_def waw_with_def by auto
  have own: "hasWAWConflict (infos ! i) i (fold reserveRead_step wevs Map.empty) \<Longrightarrow> \<exists>j<i. waw_with infos j i"
  proof -
    assume "hasWAWConflict (infos ! i) i (fold reserveRead_step wevs Map.empty)"
    then obtain w' m where "w' \<in> set (ai_txWriteSet (infos ! i))"
        "fold reserveRead_step wevs Map.empty (wkey w') = Some m" "m \<noteq> i"
      unfolding hasWAWConflict_def list_ex_iff by (auto split: option.splits)
    moreover from this have "wkey w' \<in> set (?W m)" "m \<le> i"
      using iffD1 [OF least_holder [OF w]] by (auto simp: not_less [symmetric])
    ultimately show "\<exists>j<i. waw_with infos j i"
      unfolding waw_with_def by (intro exI [of _ m]) (auto simp: image_iff, metis)
  qed
  have raw: "hasRAWConflict (infos ! i) i (fold reserveRead_step wevs Map.empty) \<longleftrightarrow> (\<exists>j<i. raw_with infos j i)"
    unfolding hasRAWConflict_def list_ex_iff hold holder_before [OF w less_imp_le [OF i]] raw_with_def set_map image_iff
    by metis
  have war: "hasWARConflict (infos ! i) i (fold reserveRead_step revs Map.empty) \<longleftrightarrow> (\<exists>j<i. raw_with infos i j)"
    unfolding hasWARConflict_def list_ex_iff hold holder_before [OF r less_imp_le [OF i]] raw_with_def set_map image_iff
    by metis
  show ?thesis
    using i own by (auto simp: aria_flags_def tabs check_aborts_def waw raw war aria_aborts_def)
qed

lemma length_aria_flags [simp]: "length (aria_flags rt infos) = length infos"
  by (simp add: aria_flags_def split_beta)

section \<open>One round\<close>

definition aria_committed :: "aria_ExecInfo list \<Rightarrow> nat list" where
  "aria_committed infos = filter (\<lambda>i. \<not> aria_aborts infos i) [0..<length infos]"

definition aria_aborted :: "aria_ExecInfo list \<Rightarrow> nat list" where
  "aria_aborted infos = filter (aria_aborts infos) [0..<length infos]"

lemma length_aria_execute [simp]: "length (aria_execute ex s ts) = length ts"
  by (simp add: aria_execute_def)

lemma aria_execute_nth:
  assumes "i < length ts"
  shows "ai_tx (aria_execute ex s ts ! i) = ts ! i"
    and "ai_txResult (aria_execute ex s ts ! i) = snd (ex (GetKey s) (ts ! i))"
    and "ai_txRWSet (aria_execute ex s ts ! i) = fst (ex (GetKey s) (ts ! i))"
    and "ai_txReadSet (aria_execute ex s ts ! i) = reads_of (ex (GetKey s) (ts ! i))"
    and "ai_txWriteSet (aria_execute ex s ts ! i) = writes_of (ex (GetKey s) (ts ! i))"
  using assms by (simp_all add: aria_execute_def aria_info_def split_beta Let_def)

lemma fold_commit_slot:
  "fold aria_commit_slot xs (as, bs, m) =
     (as @ map (\<lambda>(info, _). ai_tx info) (filter snd xs),
      bs @ map (\<lambda>(info, _). (ai_tx info)\<lparr>tx_Result := ai_txResult info\<rparr>) (filter (\<lambda>x. \<not> snd x) xs),
      fold (\<lambda>info m. AList.update (TxId (ai_tx info)) (ai_txRWSet info) m) (map fst (filter (\<lambda>x. \<not> snd x) xs)) m)"
  by (induction xs arbitrary: as bs m) (auto simp: aria_commit_slot_def)

lemma map_of_fold_rws:
  "map_of (fold (\<lambda>info m. AList.update (TxId (ai_tx info)) (ai_txRWSet info) m) xs m) =
     map_of m ++ map_of (rev (map (\<lambda>info. (TxId (ai_tx info), ai_txRWSet info)) xs))"
  by (rule map_of_fold_update)

lemma aria_round_eq:
  fixes st :: aria_state and bs :: nat and ex :: exec_fun
  defines "ts \<equiv> take bs (as_txBatch st)" and "v \<equiv> GetKey (as_snapshot st)"
  defines "C \<equiv> aria_committed (aria_execute ex (as_snapshot st) ts)"
    and "A \<equiv> aria_aborted (aria_execute ex (as_snapshot st) ts)"
  assumes rt: "wf_aria_runtime rt"
  shows "as_txBatch (aria_round rt ex bs st) = map ((!) ts) A @ drop bs (as_txBatch st)"
    and "as_blockTxs (aria_round rt ex bs st) =
      as_blockTxs st @ map (\<lambda>i. (ts ! i)\<lparr>tx_Result := snd (ex v (ts ! i))\<rparr>) C"
    and "map_of (as_rwSets (aria_round rt ex bs st)) =
      map_of (as_rwSets st) ++ map_of (rev (map (\<lambda>i. (TxId (ts ! i), fst (ex v (ts ! i)))) C))"
    and "as_snapshot (aria_round rt ex bs st) =
      ApplyWrites_concurrent (ar_go rt) (map (\<lambda>i. writes_of (ex v (ts ! i))) C) (as_snapshot st)"
proof -
  let ?I = "aria_execute ex (as_snapshot st) ts"
  obtain tab ab where res: "reserveWrite rt ?I = (tab, ab)" by force
  have flags: "map (check_aborts ?I tab (reserveRead rt ?I) ab) [0..<length ?I] = aria_flags rt ?I"
    by (simp add: aria_flags_def res)
  have idx: "filter (\<lambda>i. \<not> aria_flags rt ?I ! i) [0..<length ts] = C"
      "filter (\<lambda>i. aria_flags rt ?I ! i) [0..<length ts] = A"
    by (auto simp: C_def A_def aria_committed_def aria_aborted_def aria_flags_iff [OF rt] intro!: filter_cong)
  have zips: "filter (\<lambda>x. \<not> snd x) (zip ?I (aria_flags rt ?I)) = map (\<lambda>i. (?I ! i, aria_flags rt ?I ! i)) C"
      "filter snd (zip ?I (aria_flags rt ?I)) = map (\<lambda>i. (?I ! i, aria_flags rt ?I ! i)) A"
    using idx by (simp_all add: filter_zip_idx)
  have sel: "take (if bs > length (as_txBatch st) then length (as_txBatch st) else bs) (as_txBatch st) = ts"
      "drop (if bs > length (as_txBatch st) then length (as_txBatch st) else bs) (as_txBatch st) = drop bs (as_txBatch st)"
    by (simp_all add: ts_def)
  have mem: "i < length ts" if "i \<in> set C \<or> i \<in> set A" for i
    using that by (auto simp: C_def A_def aria_committed_def aria_aborted_def)
  have eqs: "map (\<lambda>i. ai_tx (?I ! i)) A = map ((!) ts) A"
      "map (\<lambda>i. (ai_tx (?I ! i))\<lparr>tx_Result := ai_txResult (?I ! i)\<rparr>) C = map (\<lambda>i. (ts ! i)\<lparr>tx_Result := snd (ex v (ts ! i))\<rparr>) C"
      "map (\<lambda>i. (TxId (ai_tx (?I ! i)), ai_txRWSet (?I ! i))) C = map (\<lambda>i. (TxId (ts ! i), fst (ex v (ts ! i)))) C"
      "map (\<lambda>i. ai_txWriteSet (?I ! i)) C = map (\<lambda>i. writes_of (ex v (ts ! i))) C"
    using mem by (simp_all add: aria_execute_nth v_def)
  have idx': "filter (\<lambda>i. \<not> aria_flags rt ?I ! i) [0..<length ?I] = C"
    using idx by simp
  have round: "aria_round rt ex bs st =
      \<lparr>as_txBatch = (if length (map ((!) ts) A) > 0 then map ((!) ts) A @ drop bs (as_txBatch st) else drop bs (as_txBatch st)),
       as_blockTxs = as_blockTxs st @ map (\<lambda>i. (ts ! i)\<lparr>tx_Result := snd (ex v (ts ! i))\<rparr>) C,
       as_rwSets = fold (\<lambda>info m. AList.update (TxId (ai_tx info)) (ai_txRWSet info) m) (map ((!) ?I) C) (as_rwSets st),
       as_snapshot = ApplyWrites_concurrent (ar_go rt) (map (\<lambda>i. writes_of (ex v (ts ! i))) C) (as_snapshot st)\<rparr>"
    unfolding aria_round_def checkConflicts_def Let_def sel res prod.case flags fold_commit_slot zips idx'
      eqs [symmetric] by (simp add: comp_def)
  show "as_txBatch (aria_round rt ex bs st) = map ((!) ts) A @ drop bs (as_txBatch st)"
    and "as_blockTxs (aria_round rt ex bs st) =
      as_blockTxs st @ map (\<lambda>i. (ts ! i)\<lparr>tx_Result := snd (ex v (ts ! i))\<rparr>) C"
    and "as_snapshot (aria_round rt ex bs st) =
      ApplyWrites_concurrent (ar_go rt) (map (\<lambda>i. writes_of (ex v (ts ! i))) C) (as_snapshot st)"
    by (simp_all add: round)
  show "map_of (as_rwSets (aria_round rt ex bs st)) =
      map_of (as_rwSets st) ++ map_of (rev (map (\<lambda>i. (TxId (ts ! i), fst (ex v (ts ! i)))) C))"
    unfolding eqs(3) [symmetric] by (simp add: round map_of_fold_rws comp_def)
qed

section \<open>A serial order of the committed transactions\<close>

text \<open>
  A committed transaction that read what an earlier one writes goes before all earlier ones: it has seen
  none of their writes, and none of them has read what it writes. The others go last.
\<close>

fun aria_order :: "aria_ExecInfo list \<Rightarrow> nat list \<Rightarrow> nat list" where
  "aria_order infos [] = []"
| "aria_order infos (m # ms) =
     (let ord = aria_order infos ms in if \<exists>j\<in>set ms. raw_with infos j m then m # ord else ord @ [m])"

lemma mset_aria_order [simp]: "mset (aria_order infos ms) = mset ms"
  by (induction ms) (auto simp: Let_def)

lemma set_aria_order [simp]: "set (aria_order infos ms) = set ms"
  using mset_aria_order [of infos ms] by (metis set_mset_mset)

lemma aria_order_sorted:
  assumes "sorted_wrt (>) ms" and "\<forall>m\<in>set ms. \<not> aria_aborts infos m"
  shows "sorted_wrt (\<lambda>i j. \<not> raw_with infos i j) (aria_order infos ms)"
  using assms
proof (induction ms)
  case (Cons m ms)
  then have IH: "sorted_wrt (\<lambda>i j. \<not> raw_with infos i j) (aria_order infos ms)" and lt: "\<forall>j\<in>set ms. j < m"
    by auto
  show ?case
  proof (cases "\<exists>j\<in>set ms. raw_with infos j m")
    case True
    then have "\<exists>j<m. raw_with infos j m"
      using lt by blast
    then have "\<not> raw_with infos m j" if "j \<in> set ms" for j
      using Cons.prems(2) lt that by (auto simp: aria_aborts_def)
    then show ?thesis
      using True IH by simp
  next
    case False
    then show ?thesis
      using IH by (auto simp: sorted_wrt_append)
  qed
qed simp

definition aria_serial :: "aria_ExecInfo list \<Rightarrow> nat list" where
  "aria_serial infos = aria_order infos (rev (aria_committed infos))"

lemma mset_aria_serial: "mset (aria_serial infos) = mset (aria_committed infos)"
  by (simp add: aria_serial_def)

lemma aria_serial_sorted: "sorted_wrt (\<lambda>i j. \<not> raw_with infos i j) (aria_serial infos)"
  unfolding aria_serial_def
  by (rule aria_order_sorted) (auto simp: aria_committed_def sorted_wrt_rev sorted_wrt_filter)

section \<open>The state after a round\<close>

definition distinct_writes :: "exec_fun \<Rightarrow> Transaction set \<Rightarrow> bool" where
  "distinct_writes ex T \<longleftrightarrow> (\<forall>t\<in>T. \<forall>v. total_view v \<longrightarrow> distinct (map wkey (writes_of (ex v t))))"

lemma distinct_concat_keys:
  assumes "distinct C" and "\<And>i. i \<in> set C \<Longrightarrow> distinct (map f (g i))"
    and "\<And>i j. i \<in> set C \<Longrightarrow> j \<in> set C \<Longrightarrow> i \<noteq> j \<Longrightarrow> f ` set (g i) \<inter> f ` set (g j) = {}"
  shows "distinct (map f (concat (map g C)))"
  using assms
proof (induction C)
  case (Cons i C)
  have "f ` set (g i) \<inter> f ` set (concat (map g C)) = {}"
    using Cons.prems(1,3) by fastforce
  moreover have "distinct (map f (concat (map g C)))"
    using Cons by auto
  ultimately show ?case
    using Cons.prems(2) [of i] by simp
qed simp

lemma ApplyWrites_concurrent_view:
  assumes rt: "wf_runtime rt" and "shard_inv (writeTable (snap s))" and "\<not> IsSealed s"
    and dist: "distinct (map wkey (concat wss))"
  shows "GetKey (ApplyWrites_concurrent rt wss s) = apply_writes (GetKey s) (concat wss)"
proof -
  define us where "us = interleave rt (map (\<lambda>ws. if length ws < 50 then ws else interleave rt (worker_batches ws)) wss)"
  have "mset (concat (map (\<lambda>ws. if length ws < 50 then ws else interleave rt (worker_batches ws)) wss)) = mset (concat wss)"
    using rt by (induction wss) (simp_all add: wf_runtime_def worker_batches_concat)
  then have m: "mset us = mset (concat wss)"
    using rt by (simp add: us_def wf_runtime_def)
  have "map_of (rev (map wkv us)) = map_of (rev (map wkv (concat wss)))"
    using m dist by (intro map_of_mset_eq [symmetric]) (simp_all add: rev_map [symmetric] comp_def)
  moreover have "writeTable (snap (ApplyWrites_concurrent rt wss s)) =
      put_all (length (txTable (snap s))) (map wkv us) (writeTable (snap s))"
    using assms(3) by (simp add: ApplyWrites_concurrent_def us_def)
  moreover have "under_writes (ApplyWrites_concurrent rt wss s) = under_writes s"
    using assms(3) by (intro under_writes_cong) (auto simp: ApplyWrites_concurrent_def)
  ultimately show ?thesis
    using assms(2) by (intro GetKey_put_writes)
qed

lemma aria_committed_disjoint:
  assumes "i \<in> set (aria_committed infos)" and "j \<in> set (aria_committed infos)" and "i \<noteq> j"
  shows "wkey ` set (ai_txWriteSet (infos ! i)) \<inter> wkey ` set (ai_txWriteSet (infos ! j)) = {}"
proof -
  have sym: "waw_with infos a b \<longleftrightarrow> waw_with infos b a" for a b
    unfolding waw_with_def by metis
  have "\<not> waw_with infos a b" if "b \<in> set (aria_committed infos)" "a < b" for a b
    using that by (auto simp: aria_committed_def aria_aborts_def)
  then have "\<not> waw_with infos i j"
    using assms sym by (metis linorder_neqE_nat)
  then show ?thesis
    unfolding waw_with_def by blast
qed

lemma aria_round_view:
  fixes st :: aria_state and bs :: nat and ex :: exec_fun
  defines "ts \<equiv> take bs (as_txBatch st)" and "v \<equiv> GetKey (as_snapshot st)"
  defines "I \<equiv> aria_execute ex (as_snapshot st) ts"
  assumes rt: "wf_aria_runtime rt" and snap: "wf_snap (as_snapshot st)" "\<not> IsSealed (as_snapshot st)"
    and dw: "distinct_writes ex (set ts)" and total: "total_view v"
  shows "GetKey (as_snapshot (aria_round rt ex bs st)) =
    apply_writes v (concat (map (\<lambda>i. writes_of (ex v (ts ! i))) (aria_serial I)))"
proof -
  let ?g = "\<lambda>i. writes_of (ex v (ts ! i))"
  have lt: "i < length ts" if "i \<in> set (aria_committed I)" for i
    using that by (simp add: aria_committed_def I_def)
  have dist: "distinct (map wkey (concat (map ?g (aria_committed I))))"
  proof (rule distinct_concat_keys)
    show "distinct (aria_committed I)"
      by (simp add: aria_committed_def)
    show "distinct (map wkey (?g i))" if "i \<in> set (aria_committed I)" for i
      using dw total lt [OF that] by (simp add: distinct_writes_def)
    show "wkey ` set (?g i) \<inter> wkey ` set (?g j) = {}"
      if "i \<in> set (aria_committed I)" "j \<in> set (aria_committed I)" "i \<noteq> j" for i j
      using aria_committed_disjoint [OF that] lt that by (simp add: I_def aria_execute_nth v_def)
  qed
  have "mset (concat (map ?g (aria_committed I))) = mset (concat (map ?g (aria_serial I)))"
    by (simp add: mset_concat mset_map sum_mset_sum_list [symmetric] mset_aria_serial)
  then have "apply_writes v (concat (map ?g (aria_committed I))) = apply_writes v (concat (map ?g (aria_serial I)))"
    using dist by (rule apply_writes_perm)
  moreover have "GetKey (as_snapshot (aria_round rt ex bs st)) = apply_writes v (concat (map ?g (aria_committed I)))"
    using ApplyWrites_concurrent_view [of "ar_go rt" "as_snapshot st" "map ?g (aria_committed I)"] rt snap dist
    by (simp add: aria_round_eq(4) [OF rt] wf_aria_runtime_def wf_snap_def I_def ts_def v_def)
  ultimately show ?thesis by simp
qed

lemma wf_ApplyWrites_concurrent: "wf_snap s \<Longrightarrow> wf_snap (ApplyWrites_concurrent rt wss s)"
  by (auto simp: wf_snap_def ApplyWrites_concurrent_def dest: seq_put_all [rotated 2])

lemma IsSealed_ApplyWrites_concurrent [simp]: "IsSealed (ApplyWrites_concurrent rt wss s) = IsSealed s"
  by (simp add: ApplyWrites_concurrent_def IsSealed_def)

lemma aria_round_pool:
  assumes "wf_aria_runtime rt"
  shows "mset (as_txBatch (aria_round rt ex bs st)) +
     mset (map ((!) (take bs (as_txBatch st)))
       (aria_committed (aria_execute ex (as_snapshot st) (take bs (as_txBatch st))))) =
   mset (as_txBatch st)"
proof -
  let ?ts = "take bs (as_txBatch st)" and ?I = "aria_execute ex (as_snapshot st) (take bs (as_txBatch st))"
  have "mset (map ((!) ?ts) (aria_aborted ?I)) + mset (map ((!) ?ts) (aria_committed ?I)) = mset ?ts"
    using mset_idx [of ?ts "aria_aborts ?I"] by (simp add: aria_aborted_def aria_committed_def)
  then have "mset (as_txBatch (aria_round rt ex bs st)) + mset (map ((!) ?ts) (aria_committed ?I)) =
      mset ?ts + mset (drop bs (as_txBatch st))"
    by (simp add: aria_round_eq(1) [OF assms] ac_simps)
  then show ?thesis
    by (metis append_take_drop_id mset_append)
qed

lemma aria_round_decreases:
  assumes "wf_aria_runtime rt" and "bs > 0" and "as_txBatch st \<noteq> []"
  shows "length (as_txBatch (aria_round rt ex bs st)) < length (as_txBatch st)"
proof -
  let ?I = "aria_execute ex (as_snapshot st) (take bs (as_txBatch st))"
  have "0 \<in> set (aria_committed ?I)"
    using assms(2,3) by (simp add: aria_committed_def aria_aborts_def)
  then have "length (aria_committed ?I) > 0"
    by (cases "aria_committed ?I") auto
  moreover have "length (as_txBatch (aria_round rt ex bs st)) + length (aria_committed ?I) = length (as_txBatch st)"
    using arg_cong [OF aria_round_pool [OF assms(1), of ex bs st], of size] by simp
  ultimately show ?thesis by linarith
qed

section \<open>The loop\<close>

lemma aria_loop_unfold:
  "as_txBatch st = [] \<Longrightarrow> aria_loop rt ex bs r st = Some (r, st)"
  "as_txBatch st \<noteq> [] \<Longrightarrow> timed_out (ar_go rt) (r + 1) \<Longrightarrow> aria_loop rt ex bs r st = Some (r + 1, st)"
  "as_txBatch st \<noteq> [] \<Longrightarrow> \<not> timed_out (ar_go rt) (r + 1) \<Longrightarrow>
     aria_loop rt ex bs r st = aria_loop rt ex bs (r + 1) (aria_round rt ex bs st)"
  by (subst aria_loop.simps; simp)+

interpretation aria_rounds: round_loop "aria_loop rt ex bs" "aria_round rt ex bs" as_txBatch
  "timed_out (ar_go rt)" "wf_aria_runtime rt \<and> bs > 0"
  for rt ex bs
  by unfold_locales (simp_all add: aria_loop_unfold aria_round_decreases)

text \<open>
  What the rounds keep: some order of the transactions committed so far is a serial execution
  from the initial view with the recorded outcomes, ending in the view of the snapshot.
\<close>

definition aria_inv ::
    "exec_fun \<Rightarrow> Transaction list \<Rightarrow> view \<Rightarrow> aria_state \<Rightarrow> Transaction list \<Rightarrow> bool" where
  "aria_inv ex txs0 v0 st ord \<longleftrightarrow>
     wf_snap (as_snapshot st) \<and> \<not> IsSealed (as_snapshot st) \<and>
     mset ord + mset (as_txBatch st) = mset txs0 \<and>
     (let (outs, v) = serial_run ex v0 ord
      in v = GetKey (as_snapshot st) \<and>
         mset (as_blockTxs st) = mset (map2 (\<lambda>t out. t\<lparr>tx_Result := snd out\<rparr>) ord outs) \<and>
         (\<forall>(t, out)\<in>set (zip ord outs). map_of (as_rwSets st) (TxId t) = Some (fst out)))"

lemma rws_extended:
  assumes old: "\<forall>(t, out)\<in>set (zip ord outs). map_of m (TxId t) = Some (fst out)" and len: "length outs = length ord"
    and dist: "distinct (map TxId ord @ map f S)" and perm: "mset S = mset C"
  shows "(t, out) \<in> set (zip ord outs) \<Longrightarrow> (map_of m ++ map_of (rev (map (\<lambda>i. (f i, g i)) C))) (TxId t) = Some (fst out)"
    and "i \<in> set S \<Longrightarrow> (map_of m ++ map_of (rev (map (\<lambda>i. (f i, g i)) C))) (f i) = Some (g i)"
proof -
  have "distinct (map f C)"
    using dist perm by (metis distinct_append mset_eq_imp_distinct_iff mset_map)
  then have rev: "map_of (rev (map (\<lambda>i. (f i, g i)) C)) = map_of (map (\<lambda>i. (f i, g i)) C)"
    by (intro map_of_rev_distinct) (simp add: comp_def)
  have SC: "set S = set C"
    using perm by (metis set_mset_mset)
  show "(map_of m ++ map_of (rev (map (\<lambda>i. (f i, g i)) C))) (f i) = Some (g i)" if "i \<in> set S"
  proof -
    have "map_of (map (\<lambda>i. (f i, g i)) C) (f i) = Some (g i)"
      using \<open>distinct (map f C)\<close> that SC by (intro map_of_is_SomeI) (auto simp: comp_def)
    then show ?thesis by (simp add: rev)
  qed
  show "(map_of m ++ map_of (rev (map (\<lambda>i. (f i, g i)) C))) (TxId t) = Some (fst out)" if "(t, out) \<in> set (zip ord outs)"
  proof -
    have "TxId t \<notin> f ` set C"
      using dist SC that by (auto dest: set_zip_leftD)
    then have "map_of (map (\<lambda>i. (f i, g i)) C) (TxId t) = None"
      by (auto simp: map_of_eq_None_iff)
    then show ?thesis using old that by (auto simp: rev map_add_def)
  qed
qed

context executor
begin

lemma aria_round_serial:
  fixes st :: aria_state and bs :: nat
  defines "ts \<equiv> take bs (as_txBatch st)" and "v \<equiv> GetKey (as_snapshot st)"
  defines "S \<equiv> aria_serial (aria_execute ex (as_snapshot st) ts)"
  assumes rt: "wf_aria_runtime rt" and snap: "wf_snap (as_snapshot st)" "\<not> IsSealed (as_snapshot st)"
    and dw: "distinct_writes ex (set ts)" and cov: "\<forall>t\<in>set ts. covered t" and total: "total_view v"
  shows "serial_run ex v (map ((!) ts) S) =
    (map (\<lambda>i. ex v (ts ! i)) S, GetKey (as_snapshot (aria_round rt ex bs st)))"
proof -
  let ?I = "aria_execute ex (as_snapshot st) ts"
  have lt: "i < length ts" if "i \<in> set S" for i
    using that by (simp add: S_def aria_serial_def aria_committed_def)
  have "\<not> feeds (ex v (ts ! i)) (ex v (ts ! j))" if "i \<in> set S" "j \<in> set S" "\<not> raw_with ?I i j" for i j
    using that lt by (auto simp: feeds_iff raw_with_def aria_execute_nth v_def)
  then have "sorted_wrt (\<lambda>t u. \<not> feeds (ex v t) (ex v u)) (map ((!) ts) S)"
    unfolding sorted_wrt_map using aria_serial_sorted [of ?I] S_def by (auto intro: sorted_wrt_mono_rel [rotated])
  then have "serial_run ex v (map ((!) ts) S) = (map (ex v) (map ((!) ts) S),
      apply_writes v (concat (map (\<lambda>t. writes_of (ex v t)) (map ((!) ts) S))))"
    using total cov lt by (intro parallel_is_serial) auto
  then show ?thesis
    using aria_round_view [OF rt snap, of ex bs] dw total
    by (simp add: comp_def ts_def [symmetric] v_def [symmetric] S_def [symmetric])
qed

lemma aria_inv_round:
  assumes inv: "aria_inv ex txs0 v0 st ord" and rt: "wf_aria_runtime rt" and total: "total_view v0"
    and dw: "distinct_writes ex (set txs0)" and cov: "\<forall>t\<in>set txs0. covered t" and ids: "distinct (map TxId txs0)"
  shows "\<exists>ord'. aria_inv ex txs0 v0 (aria_round rt ex bs st) ord'"
proof -
  let ?ts = "take bs (as_txBatch st)" and ?v = "GetKey (as_snapshot st)"
  let ?I = "aria_execute ex (as_snapshot st) ?ts" and ?st = "aria_round rt ex bs st"
  let ?S = "aria_serial ?I"
  obtain outs where run: "serial_run ex v0 ord = (outs, ?v)"
    and block: "mset (as_blockTxs st) = mset (map2 (\<lambda>t out. t\<lparr>tx_Result := snd out\<rparr>) ord outs)"
    and rws: "\<forall>(t, out)\<in>set (zip ord outs). map_of (as_rwSets st) (TxId t) = Some (fst out)"
    using inv by (auto simp: aria_inv_def Let_def split: prod.splits)
  have len: "length outs = length ord"
    using length_serial_run [of ex v0 ord] run by simp
  have pool: "mset ord + mset (as_txBatch st) = mset txs0"
    using inv by (simp add: aria_inv_def)
  have "set ?ts \<subseteq> set (as_txBatch st)" by (rule set_take_subset)
  also have "\<dots> \<subseteq> set txs0"
    using pool by (metis mset_subset_eq_add_right set_mset_mono set_mset_mset)
  finally have sub: "set ?ts \<subseteq> set txs0" .
  have r: "serial_run ex ?v (map ((!) ?ts) ?S) = (map (\<lambda>i. ex ?v (?ts ! i)) ?S, GetKey (as_snapshot ?st))"
    using inv rt dw cov sub serial_run_total [OF total, of ex ord] run
    by (intro aria_round_serial) (auto simp: aria_inv_def distinct_writes_def)
  let ?ord = "ord @ map ((!) ?ts) ?S" and ?outs = "outs @ map (\<lambda>i. ex ?v (?ts ! i)) ?S"
  have m: "mset ?ord + mset (as_txBatch ?st) = mset txs0"
    using pool aria_round_pool [OF rt, of ex bs st] by (simp add: ac_simps mset_aria_serial)
  have "serial_run ex v0 ?ord = (?outs, GetKey (as_snapshot ?st))"
    by (simp only: serial_run_append run r Let_def split)
  moreover have "mset (as_blockTxs ?st) = mset (map2 (\<lambda>t out. t\<lparr>tx_Result := snd out\<rparr>) ?ord ?outs)"
    using len block by (simp add: aria_round_eq(2) [OF rt] zip_map_map map_zip_map map_zip_map2 zip_same_conv_map
        mset_aria_serial [symmetric] comp_def)
  moreover have "map_of (as_rwSets ?st) (TxId t) = Some (fst out)" if "(t, out) \<in> set (zip ?ord ?outs)" for t out
  proof -
    have "distinct (map TxId ?ord @ map TxId (as_txBatch ?st))"
      using m ids by (metis map_append mset_append mset_eq_imp_distinct_iff mset_map)
    then have "distinct (map TxId ?ord)"
      by (simp only: distinct_append)
    then have d: "distinct (map TxId ord @ map (\<lambda>i. TxId (?ts ! i)) ?S)"
      by (simp add: comp_def)
    note ext = rws_extended [OF rws len d mset_aria_serial, where g = "\<lambda>i. fst (ex ?v (?ts ! i))"]
    from that len consider "(t, out) \<in> set (zip ord outs)"
      | i where "i \<in> set ?S" "t = ?ts ! i" "out = ex ?v (?ts ! i)"
      by (auto simp: zip_map_map zip_same_conv_map)
    then show ?thesis
      unfolding aria_round_eq(3) [OF rt] by cases (use ext in blast, use ext(2) in simp)
  qed
  ultimately show ?thesis
    using m inv rt wf_ApplyWrites_concurrent
    by (intro exI [of _ ?ord]) (auto simp: aria_inv_def aria_round_eq(4))
qed

lemma aria_block:
  assumes rt: "wf_aria_runtime rt" and bs: "as_batchSize sch > 0" and snap: "wf_snap s" "\<not> IsSealed s"
    and total: "total_view (GetKey s)" and dw: "distinct_writes ex (set txs)"
    and cov: "\<forall>t\<in>set txs. covered t" and ids: "distinct (map TxId txs)"
  shows "\<exists>n st ord. aria_Schedule rt ex sch txs s = Some (sch\<lparr>as_txRWSetMap := as_rwSets st\<rparr>, n, st) \<and>
    aria_inv ex txs (GetKey s) st ord \<and> n \<le> length txs \<and> (as_txBatch st = [] \<or> timed_out (ar_go rt) n)"
proof -
  let ?st = "\<lparr>as_txBatch = txs, as_blockTxs = [], as_rwSets = [], as_snapshot = s\<rparr>"
  have "aria_inv ex txs (GetKey s) ?st []"
    using snap by (simp add: aria_inv_def)
  then obtain n st where "aria_loop rt ex (as_batchSize sch) 0 ?st = Some (n, st)"
      "\<exists>ord. aria_inv ex txs (GetKey s) st ord" "n \<le> length txs" "as_txBatch st = [] \<or> timed_out (ar_go rt) n"
    using aria_rounds.loop_returns [of rt "as_batchSize sch" "\<lambda>st. \<exists>ord. aria_inv ex txs (GetKey s) st ord" ?st ex 0]
      rt bs aria_inv_round [OF _ rt total dw cov ids] by force
  then show ?thesis
    by (auto simp: aria_Schedule_def)
qed

end

end
