(* ===== verification/Demo.thy ===== *)
theory Demo
  imports PDCC_Serial OCC Aria_Serial
begin

text \<open>
  A small chain on which the properties are exercised: one contract \<open>c\<close> whose method is the key it
  reads before it writes the key \<open>k\<close>, an empty store, gas disabled.
\<close>

definition demo_result :: ContractResult where
  "demo_result = \<lparr>cr_Code = 0, cr_Result = None, cr_Message = [], cr_GasUsed = 0, cr_ContractEvent = []\<rparr>"

definition demo_env :: vm_env where
  "demo_env = \<lparr>
     RunContract = (\<lambda>_ c m ps g ty. GetState ''c'' m (\<lambda>_. PutState ''c'' ''k'' (Some m)
       (\<lambda>_. Ret demo_result ExecOrderTxTypeNormal SUCCESS))),
     byteCodeOk = (\<lambda>_. True), verifyPolicy = (\<lambda>_ _. True)\<rparr>"

definition demo_helper :: CommonVMHelper where
  "demo_helper = \<lparr>
     h_chainConf = Some \<lparr>AccountConfig_EnableGas = None, Core_EnableOptimizeChargeGas = None,
                         Vm_Native_Multisign_EnableManualRun = None\<rparr>,
     h_env = demo_env,
     h_GetContractByName = (\<lambda>n. Inr \<lparr>c_Name = n, c_RuntimeType = GO\<rparr>),
     h_bytecodeError = (\<lambda>_. None),
     h_payerPk = (\<lambda>_ _. Inr ''pk''),
     h_payerAddr = (\<lambda>_ _. Inr ''addr''),
     h_multiSignCallee = (\<lambda>_. None),
     h_valueMaxLength = 1048576,
     h_gasConfig = None\<rparr>"

definition demo_tx :: "string \<Rightarrow> string \<Rightarrow> Transaction" where
  "demo_tx txid key = \<lparr>
     tx_Payload = \<lparr>p_TxId = txid, p_TxType = INVOKE_CONTRACT, p_ContractName = ''c'', p_Method = key,
                   p_Parameters = [], p_Limit = None\<rparr>,
     tx_Result = None\<rparr>"

definition demo_store :: BlockchainStore where
  "demo_store = \<lparr>ReadObject = (\<lambda>_ _. Inr None), ReadObjects = (\<lambda>_ ks. Inr (map (\<lambda>_. None) ks))\<rparr>"

definition demo_snapshot :: SnapshotImpl where
  "demo_snapshot = makeSnapshotImpl demo_store 2030800"

abbreviation demo_exec :: exec_fun where
  "demo_exec \<equiv> vm_exec demo_helper 2030800 []"

lemma GetKey_make: "GetKey (makeSnapshotImpl st ver) = ReadObject st"
  by (simp add: fun_eq_iff GetKey_layers under_writes_def makeSnapshotImpl_def shard_kv.get_empty)

lemma GetKey_demo [simp]: "GetKey demo_snapshot = (\<lambda>_ _. Inr None)"
  by (simp add: demo_snapshot_def GetKey_make demo_store_def)

lemma demo_total [simp]: "total_view (\<lambda>_ _. Inr None)"
  by (simp add: total_view_def)

lemma demo_wf [simp]: "wf_snap demo_snapshot" "\<not> IsSealed demo_snapshot"
  by (simp_all add: demo_snapshot_def IsSealed_def makeSnapshotImpl_def [of demo_store] wf_makeSnapshotImpl [unfolded makeSnapshotImpl_def])

lemma demo_covered: "key \<noteq> ''TRIG'' \<Longrightarrow> vm_covered demo_helper (demo_tx txid key)"
  by (rule vm_covered_no_trig)
    (auto simp: demo_helper_def demo_tx_def env_ok_def demo_env_def name_ok_def)

lemma demo_exec_eq:
  "v ''c'' key = Inr b \<Longrightarrow> demo_exec v (demo_tx txid key) =
     (\<lparr>rw_TxId = txid,
       TxReads = [\<lparr>r_ContractName = ''c'', r_Key = key, r_Value = b\<rparr>],
       TxWrites = [\<lparr>w_ContractName = ''c'', w_Key = ''k'', w_Value = Some key\<rparr>]\<rparr>,
      Some \<lparr>res_Code = SUCCESS, res_ContractResult = demo_result, res_Message = []\<rparr>)"
proof -
  let ?tx = "demo_tx txid key"
  let ?rd = "\<lparr>r_ContractName = ''c'', r_Key = key, r_Value = b\<rparr>"
  let ?wr = "\<lparr>w_ContractName = ''c'', w_Key = ''k'', w_Value = Some key\<rparr>"
  let ?ctx = "\<lparr>sc_tx = ?tx, sc_blockVersion = 2030800,
    sc_frames = [[(''c'', \<lparr>txReadKeyMap = [(simKey ''c'' key, ?rd)], txWriteKeyMap = [(simKey ''c'' ''k'', ?wr)]\<rparr>)]],
    sc_relyCache = [], sc_txResult = None\<rparr>"
  assume v: "v ''c'' key = Inr b"
  have run: "run_prog demo_env v (RunContract demo_env pl c key ps g ty) (NewTxSimContext ?tx 2030800) =
      ((demo_result, ExecOrderTxTypeNormal, SUCCESS), ?ctx)" for pl c ps g ty
    by (simp add: demo_env_def run_prog_steps v sim_Get_def sim_Put_def getFromWriteSet_def getFromReadSet_def
        getFromRelyCache_def NewTxSimContext_def PutIntoReadSet_def putIntoWriteSet_def update_current_def
        empty_rwSet_def maxKeyLength_def)
  have vm: "ExecuteTx demo_helper 2030800 [] v ?tx =
      \<lparr>er_ctx = ?ctx\<lparr>sc_txResult := Some \<lparr>res_Code = SUCCESS, res_ContractResult = demo_result, res_Message = []\<rparr>\<rparr>,
       er_specialTxType = ExecOrderTxTypeNormal, er_runVmSuccess = True, er_tx = ?tx,
       er_cache = [(''c'', \<lparr>c_Name = ''c'', c_RuntimeType = GO\<rparr>)]\<rparr>"
    using run
    by (simp add: ExecuteTx_def guarded_run_def guard_version_def run_version_def GuardForExecuteTx2300_def Let_def
        CheckGasEnable_def IsOptimizeChargeGasEnabled_def
        RunVM2300_def prepare_vm_def ParseParameter2220_def GetContractFromCache_def GetContractBytecode_def
        finish_2300_def call_contract_of_def demo_helper_def demo_tx_def vm_done_def SetTxResult_def init_result_def)
  show ?thesis
    unfolding vm_exec_def vm
    by (simp add: Let_def GetTxRWSet_def collectReadSetAndKey_def collectWriteSetAndKey_def v235_def
        blockVersion2312_def merge_map_def demo_tx_def)
qed

text \<open>Two transactions in conflict: the first writes the key the second reads.\<close>

definition demo_txs :: "Transaction list" where
  "demo_txs = [demo_tx ''t1'' ''a'', demo_tx ''t2'' ''k'']"

lemma demo_txs_covered: "\<forall>t\<in>set demo_txs. vm_covered demo_helper t"
  by (simp add: demo_txs_def demo_covered)

lemma demo_keys_agree: "keys_agree demo_exec (set demo_txs)"
proof (rule keys_agree_single_contract [of _ _ "''c''"], intro ballI allI impI)
  fix t and v :: view
  assume "t \<in> set demo_txs" and "total_view v"
  then obtain txid key b where t: "t = demo_tx txid key" and "v ''c'' key = Inr b"
    unfolding total_view_def by (auto simp: demo_txs_def) metis+
  then show "(\<forall>w\<in>set (writes_of (demo_exec v t)). w_ContractName w = ''c'') \<and>
      (\<forall>r\<in>set (reads_of (demo_exec v t)). r_ContractName r = ''c'')"
    by (simp add: t demo_exec_eq)
qed

text \<open>A run of the first transaction under optimistic concurrency control.\<close>

definition demo_out :: outcome where
  "demo_out =
     (\<lparr>rw_TxId = ''t1'',
       TxReads = [\<lparr>r_ContractName = ''c'', r_Key = ''a'', r_Value = None\<rparr>],
       TxWrites = [\<lparr>w_ContractName = ''c'', w_Key = ''k'', w_Value = Some ''a''\<rparr>]\<rparr>,
      Some \<lparr>res_Code = SUCCESS, res_ContractResult = demo_result, res_Message = []\<rparr>)"

definition demo_sim :: TxSimContext where
  "demo_sim =
     \<lparr>sim_tx = (demo_tx ''t1'' ''a'')\<lparr>tx_Result := snd demo_out\<rparr>, sim_txExecSeq = 0,
      sim_GetTxRWSet = (\<lambda>_. fst demo_out), sim_GetTxResult = snd demo_out\<rparr>"

abbreviation demo_U :: "(string \<times> string) set" where
  "demo_U \<equiv> {(''c'', ''a''), (''c'', ''k'')}"

lemma demo_sim_applied:
  defines "s \<equiv> snap (snd (ApplyTxSimContext demo_sim ExecOrderTxTypeNormal True False demo_snapshot))"
  shows "txTable s = [sim_tx demo_sim]" and "txRWSetTable s = [fst demo_out]" and "specialTxTable s = []"
proof -
  have k: "\<not> key_conflicted demo_snapshot n k" for n k
    by (simp add: key_conflicted_def demo_snapshot_def makeSnapshotImpl_def shard_kv.get_empty)
  have t: "txTable (snap demo_snapshot) = []" "txRWSetTable (snap demo_snapshot) = []" "specialTxTable (snap demo_snapshot) = []" "GetSnapshotSize demo_snapshot = 0"
    by (simp_all add: demo_snapshot_def makeSnapshotImpl_def GetSnapshotSize_def)
  have c: "p_ContractName (tx_Payload (sim_tx demo_sim)) \<notin> set SZContractList"
    by (simp add: demo_sim_def demo_tx_def SZContractList_def)
  have r: "sim_GetTxRWSet demo_sim True = fst demo_out"
    by (simp add: demo_sim_def)
  show "txTable s = [sim_tx demo_sim]" and "txRWSetTable s = [fst demo_out]" and "specialTxTable s = []"
    unfolding s_def by (simp_all add: ApplyTxSimContext_def applyNormalTxSimContext_def applyNormal_locked_def applyOptimize_def k t c r
        list_ex_iff Let_def split_beta)
qed

lemma demo_occ_reach:
  assumes out: "ex (ReadObject demo_store) (demo_tx ''t1'' ''a'') = demo_out"
  shows "\<exists>st. occ_reach ex demo_U \<lparr>oc_snapshot = demo_snapshot, oc_running = [], oc_pool = demo_txs\<rparr> st \<and>
     txTable (snap (oc_snapshot st)) = [sim_tx demo_sim] \<and> txRWSetTable (snap (oc_snapshot st)) = [fst demo_out] \<and>
     specialTxTable (snap (oc_snapshot st)) = []"
proof -
  let ?t = "demo_tx ''t1'' ''a''" and ?t2 = "demo_tx ''t2'' ''k''"
  let ?x = "\<lparr>run_tx = ?t, run_seq = 0, run_reads = []\<rparr>"
  let ?r = "\<lparr>r_ContractName = ''c'', r_Key = ''a'', r_Value = None\<rparr>"
  have size: "GetSnapshotSize demo_snapshot = 0"
    by (simp add: demo_snapshot_def makeSnapshotImpl_def GetSnapshotSize_def)
  have r1: "occ_reach ex demo_U \<lparr>oc_snapshot = demo_snapshot, oc_running = [], oc_pool = demo_txs\<rparr>
      \<lparr>oc_snapshot = demo_snapshot, oc_running = [?x], oc_pool = [?t2]\<rparr>"
    using occ_reach.step [OF occ_reach.start occ_step.begin_tx [of demo_snapshot ex demo_U "[]" "[]" ?t "[?t2]"]]
    by (simp add: demo_txs_def size)
  have r2: "occ_reach ex demo_U \<lparr>oc_snapshot = demo_snapshot, oc_running = [], oc_pool = demo_txs\<rparr>
      \<lparr>oc_snapshot = demo_snapshot, oc_running = [?x\<lparr>run_reads := [?r]\<rparr>], oc_pool = [?t2]\<rparr>"
    using occ_step.read_key [of demo_snapshot "''c''" "''a''" None demo_U ex "[]" ?x "[]" "[?t2]"]
    by (intro occ_reach.step [OF r1]) simp
  obtain ok n s' where ap: "ApplyTxSimContext demo_sim ExecOrderTxTypeNormal True False demo_snapshot = ((ok, n), s')"
    by (metis surj_pair)
  have res: "out_of demo_sim True = demo_out"
    by (simp add: demo_sim_def out_of_def)
  have sim: "sim_txExecSeq demo_sim = 0" "sim_tx demo_sim = ?t\<lparr>tx_Result := sim_GetTxResult demo_sim\<rparr>"
    by (simp_all add: demo_sim_def)
  have "seen (ReadObject demo_store) (reads_of (out_of demo_sim True)) (?x\<lparr>run_reads := [?r]\<rparr>)"
    by (simp add: res seen_def demo_out_def demo_store_def)
  then have "occ_step ex demo_U \<lparr>oc_snapshot = demo_snapshot, oc_running = [?x\<lparr>run_reads := [?r]\<rparr>], oc_pool = [?t2]\<rparr>
      \<lparr>oc_snapshot = s', oc_running = [], oc_pool = if ok then [?t2] else [?t2] @ [sim_tx demo_sim]\<rparr>"
    using occ_step.apply_tx_step [of demo_sim "?x\<lparr>run_reads := [?r]\<rparr>" True ex "ReadObject demo_store"
        ExecOrderTxTypeNormal demo_snapshot ok n s' demo_U "[]" "[]" "[?t2]"] ap out res sim
    by simp
  then have "occ_reach ex demo_U \<lparr>oc_snapshot = demo_snapshot, oc_running = [], oc_pool = demo_txs\<rparr>
      \<lparr>oc_snapshot = s', oc_running = [], oc_pool = if ok then [?t2] else [?t2] @ [sim_tx demo_sim]\<rparr>"
    by (rule occ_reach.step [OF r2])
  moreover have "txTable (snap s') = [sim_tx demo_sim]" "txRWSetTable (snap s') = [fst demo_out]" "specialTxTable (snap s') = []"
    using demo_sim_applied ap by simp_all
  ultimately show ?thesis by auto
qed

text \<open>Goroutines that run one after the other.\<close>

definition sequential_runtime :: aria_runtime where
  "sequential_runtime = \<lparr>ar_reserveWrite = concat, ar_reserveRead = concat, ar_go = default_runtime\<rparr>"

lemma wf_sequential_runtime [simp]: "wf_aria_runtime sequential_runtime"
  by (simp add: wf_aria_runtime_def sequential_runtime_def concat_in_interleavings)

lemma demo_distinct_writes: "distinct_writes demo_exec (set demo_txs)"
  unfolding distinct_writes_def
proof (intro ballI allI impI)
  fix t and v :: view
  assume "t \<in> set demo_txs" and "total_view v"
  then obtain txid key b where "t = demo_tx txid key" and "v ''c'' key = Inr b"
    unfolding total_view_def by (auto simp: demo_txs_def) metis+
  then show "distinct (map wkey (writes_of (demo_exec v t)))"
    by (simp add: demo_exec_eq)
qed

end
