(* ===== verification/TxVM.thy ===== *)
theory TxVM
  imports VMCore
begin

text \<open>
  Running the virtual machine for the default scheduler: when a call is charged for
  (\<^verbatim>\<open>checkNativeFilter\<close> in \<^verbatim>\<open>scheduler.go\<close>), the gas of payload, read-write set and events
  (\<^verbatim>\<open>gas.go\<close>), the guards and the versions of \<^verbatim>\<open>runVM\<close> (\<^verbatim>\<open>run_vm.go\<close>). Gas is a 64-bit word; sums wrap
  around, only the product of size and price is checked.
\<close>

section \<open>When a call is charged for\<close>

definition checkMultiSignFilterOld :: "CommonVMHelper \<Rightarrow> gas_filter" where
  "checkMultiSignFilterOld h contractName method tx v =
     (if contractName = ''MULTI_SIGN'' \<and> method = ''TRIG'' \<and>
         (case h_chainConf h of None \<Rightarrow> False | Some cfg \<Rightarrow> getMultiSignEnableManualRun cfg)
      then
        (let multiSignReqId = last_param ''TX_ID'' (p_Parameters (tx_Payload tx)) in
         case v contractName (case multiSignReqId of None \<Rightarrow> [] | Some k \<Rightarrow> k) of
           Inl _ \<Rightarrow> True
         | Inr multiSignInfoBytes \<Rightarrow>
             (case h_multiSignCallee h multiSignInfoBytes of
                None \<Rightarrow> True
              | Some (calleeContractName, calleeMethod) \<Rightarrow>
                  calleeContractName = ''CONTRACT_MANAGE'' \<and>
                  (calleeMethod = ''INIT_CONTRACT'' \<or> calleeMethod = ''UPGRADE_CONTRACT'')))
      else False)"

definition checkMultiSignFilter2312 :: "string \<Rightarrow> bool" where
  "checkMultiSignFilter2312 contractName \<longleftrightarrow> contractName = ''MULTI_SIGN''"

definition checkNativeFilter :: "CommonVMHelper \<Rightarrow> nat \<Rightarrow> gas_filter" where
  "checkNativeFilter h version contractName method tx v =
     (if \<not> IsNativeContract contractName then True
      else if version < blockVersion2312
      then
        (if method = ''INIT_CONTRACT'' \<or> method = ''UPGRADE_CONTRACT'' then True
         else checkMultiSignFilterOld h contractName method tx v)
      else if contractName = ''CONTRACT_MANAGE'' \<and> (method = ''INIT_CONTRACT'' \<or> method = ''UPGRADE_CONTRACT'')
      then True
      else checkMultiSignFilter2312 contractName)"

section \<open>Gas\<close>

definition MultiplyGasPrice :: "nat \<Rightarrow> decimal \<Rightarrow> string + 64 word" where
  "MultiplyGasPrice dataSize gasPrice =
     (let (coefficient, decimals) = gasPrice in
      if coefficient = 0 \<or> dataSize = 0 then Inr 0
      else
        (let gas = (dataSize * coefficient + (10 ^ decimals - 1)) div 10 ^ decimals in
         if gas > 2 ^ 64 - 1 then Inl ''uint64 overflow'' else Inr (word_of_nat gas)))"

definition payload_size :: "Payload \<Rightarrow> nat" where
  "payload_size payload =
     fold (\<lambda>(key, val) dataSize. dataSize + (length key + bytes_len val)) (p_Parameters payload)
       (length (p_ContractName payload) + length (p_Method payload) + length (p_TxId payload))"

definition calcInstallTxGasUsed :: "Payload \<Rightarrow> GasConfig option \<Rightarrow> string + 64 word" where
  "calcInstallTxGasUsed payload gasConfig =
     (case gasConfig of
        None \<Rightarrow> Inr 0
      | Some cfg \<Rightarrow>
          (case MultiplyGasPrice (payload_size payload) (gasPriceForInstall cfg) of
             Inl e \<Rightarrow> Inl e
           | Inr dataGas \<Rightarrow> Inr (baseGasForInstall cfg + dataGas)))"

definition calcInvokeTxGasUsed :: "Payload \<Rightarrow> GasConfig option \<Rightarrow> string + 64 word" where
  "calcInvokeTxGasUsed payload gasConfig =
     (case gasConfig of
        None \<Rightarrow> Inr 0
      | Some cfg \<Rightarrow>
          (case MultiplyGasPrice (payload_size payload) (gasPriceForInvoke cfg) of
             Inl e \<Rightarrow> Inl e
           | Inr dataGas \<Rightarrow> Inr (baseGasForInvoke cfg + dataGas)))"

text \<open>The parameters of a multi-sign request name the call to be signed.\<close>

definition string_param :: "string \<Rightarrow> (string \<times> bytes) list \<Rightarrow> string" where
  "string_param name ps = (case last_param name ps of None \<Rightarrow> [] | Some s \<Rightarrow> s)"

definition calcTxGasUsed :: "CommonVMHelper \<Rightarrow> txSimContextImpl \<Rightarrow> string + 64 word" where
  "calcTxGasUsed h ctx =
     (let payload = tx_Payload (sc_tx ctx);
          contractName = p_ContractName payload;
          method = p_Method payload;
          installs = (\<lambda>m. m = ''INIT_CONTRACT'' \<or> m = ''UPGRADE_CONTRACT'')
      in if sc_blockVersion ctx < blockVersion2312 then Inr 0
         else if h_gasConfig h = None then Inr 0
         else if \<not> IsNativeContract contractName then calcInvokeTxGasUsed payload (h_gasConfig h)
         else if contractName = ''CONTRACT_MANAGE''
         then (if installs method then calcInstallTxGasUsed payload (h_gasConfig h) else Inr 0)
         else if contractName = ''MULTI_SIGN''
         then
           (if method = ''REQ'' \<and> string_param ''SYS_CONTRACT_NAME'' (p_Parameters payload) = ''CONTRACT_MANAGE'' \<and>
               installs (string_param ''SYS_METHOD'' (p_Parameters payload))
            then calcInstallTxGasUsed payload (h_gasConfig h)
            else calcInvokeTxGasUsed payload (h_gasConfig h))
         else Inr 0)"

text \<open>The parts of a key between separators.\<close>

fun strings_Split :: "string \<Rightarrow> char \<Rightarrow> string list" where
  "strings_Split [] sep = [[]]"
| "strings_Split (c # cs) sep =
     (if c = sep then [] # strings_Split cs sep
      else case strings_Split cs sep of [] \<Rightarrow> [[c]] | l # ls \<Rightarrow> (c # l) # ls)"

definition item_size :: "string \<Rightarrow> string \<Rightarrow> bytes \<Rightarrow> nat" where
  "item_size contractName key val =
     fold (\<lambda>keyLabel dataSize. dataSize + length keyLabel) (strings_Split key (CHR ''#'')) (length contractName) +
     bytes_len val"

definition calcReadSetItemSize :: "TxRead \<Rightarrow> nat" where
  "calcReadSetItemSize txRead = item_size (r_ContractName txRead) (r_Key txRead) (r_Value txRead)"

definition calcWriteSetItemSize :: "TxWrite \<Rightarrow> nat" where
  "calcWriteSetItemSize txWrite = item_size (w_ContractName txWrite) (w_Key txWrite) (w_Value txWrite)"

definition calcTxRWSetGasUsed :: "CommonVMHelper \<Rightarrow> txSimContextImpl \<Rightarrow> bool \<Rightarrow> string + 64 word" where
  "calcTxRWSetGasUsed h ctx isTxSuccess =
     (if sc_blockVersion ctx < blockVersion2312 then Inr 0
      else
        case h_gasConfig h of
          None \<Rightarrow> Inr 0
        | Some cfg \<Rightarrow>
            (let rwSet = GetTxRWSet isTxSuccess ctx;
                 readSize = fold (\<lambda>r dataSize. if IsNativeContract (r_ContractName r) then dataSize
                               else dataSize + calcReadSetItemSize r) (TxReads rwSet) 0;
                 dataSize = fold (\<lambda>w dataSize. if IsNativeContract (w_ContractName w) then dataSize
                               else dataSize + calcWriteSetItemSize w) (TxWrites rwSet) readSize
             in MultiplyGasPrice dataSize (gasPriceForInvoke cfg)))"

definition event_size :: "ContractEvent \<Rightarrow> nat" where
  "event_size event =
     fold (\<lambda>dataItem dataSize. dataSize + length dataItem) (ev_EventData event)
       (length (ev_ContractName event) + length (ev_ContractVersion event) + length (ev_Topic event))"

definition calcTxEventGasUsed :: "CommonVMHelper \<Rightarrow> txSimContextImpl \<Rightarrow> ContractEvent list \<Rightarrow> string + 64 word" where
  "calcTxEventGasUsed h ctx events =
     (if sc_blockVersion ctx < blockVersion2312 then Inr 0
      else
        case h_gasConfig h of
          None \<Rightarrow> Inr 0
        | Some cfg \<Rightarrow>
            MultiplyGasPrice
              (fold (\<lambda>event dataSize. if IsNativeContract (ev_ContractName event) then dataSize
                 else dataSize + event_size event) events 0)
              (gasPriceForInvoke cfg))"

section \<open>Charging and refunding\<close>

definition chargeGasLimit ::
    "CommonVMHelper \<Rightarrow> nat \<Rightarrow> Transaction \<Rightarrow> txSimContextImpl \<Rightarrow> string \<Rightarrow> string \<Rightarrow> string \<Rightarrow> Result \<Rightarrow> view \<Rightarrow>
     Result \<times> string option \<times> txSimContextImpl" where
  "chargeGasLimit h version = charge_gas (checkNativeFilter h version) h"

definition refundGas ::
    "CommonVMHelper \<Rightarrow> nat \<Rightarrow> Transaction \<Rightarrow> txSimContextImpl \<Rightarrow> string \<Rightarrow> string \<Rightarrow> string \<Rightarrow> Result \<Rightarrow>
     ContractResult \<Rightarrow> view \<Rightarrow> Result \<times> string option \<times> txSimContextImpl" where
  "refundGas h version = refund_gas (checkNativeFilter h version) h"

definition checkRefundGas ::
    "CommonVMHelper \<Rightarrow> nat \<Rightarrow> Transaction \<Rightarrow> txSimContextImpl \<Rightarrow> string \<Rightarrow> string \<Rightarrow> string \<Rightarrow> Result \<Rightarrow>
     ContractResult \<Rightarrow> bool \<Rightarrow> view \<Rightarrow> Result \<times> string option \<times> txSimContextImpl" where
  "checkRefundGas h version = check_refund_gas (checkNativeFilter h version) h"

definition getAccountMgrContractAndPk ::
    "CommonVMHelper \<Rightarrow> nat \<Rightarrow> Transaction \<Rightarrow> string \<Rightarrow> string \<Rightarrow> view \<Rightarrow> string + string" where
  "getAccountMgrContractAndPk h version = account_pk (checkNativeFilter h version) h"

section \<open>Guards\<close>

definition gasLimitNotSet :: Result where
  "gasLimitNotSet =
     \<lparr>res_Code = GAS_LIMIT_NOT_SET,
      res_ContractResult = \<lparr>cr_Code = 1, cr_Result = None, cr_Message = ''field `GasLimit` must be set in payload.'',
                            cr_GasUsed = 0, cr_ContractEvent = []\<rparr>,
      res_Message = ''field `GasLimit` must be set in payload.''\<rparr>"

definition guardForExecuteTx2220 ::
    "Transaction \<Rightarrow> txSimContextImpl \<Rightarrow> bool \<Rightarrow> bool \<times> txSimContextImpl" where
  "guardForExecuteTx2220 tx ctx enableOptimizedChargeGas =
     (case tx_Result tx of
        None \<Rightarrow> (True, ctx)
      | Some res \<Rightarrow>
          if res_Code res = GAS_BALANCE_NOT_ENOUGH_FAILED \<and> enableOptimizedChargeGas
          then (False, SetTxResult (Some res) ctx)
          else (True, ctx))"

text \<open>The message for an account that cannot pay, by the status found for it.\<close>

definition account_message :: "TxStatusCode \<Rightarrow> string \<Rightarrow> string option" where
  "account_message code addr =
     (case code of
        GAS_BALANCE_NOT_ENOUGH_FAILED \<Rightarrow> Some (''`'' @ addr @ ''` has no enough balance to execute tx.'')
      | GET_ACCOUNT_BALANCE_FAILED \<Rightarrow> Some (''get account `'' @ addr @ ''` balance failed.'')
      | PARSE_ACCOUNT_BALANCE_FAILED \<Rightarrow> Some (''parse account `'' @ addr @ ''` balance failed.'')
      | GET_ACCOUNT_STATUS_FAILED \<Rightarrow> Some (''get account `'' @ addr @ ''` status failed.'')
      | ACCOUNT_STATUS_FROZEN \<Rightarrow> Some (''the account `'' @ addr @ ''` has been frozen.'')
      | _ \<Rightarrow> None)"

definition guardForExecuteTx2300 ::
    "CommonVMHelper \<Rightarrow> Transaction \<Rightarrow> txSimContextImpl \<Rightarrow> bool \<Rightarrow> bool \<Rightarrow> view \<Rightarrow> TxStatusCode \<Rightarrow> nat \<Rightarrow>
     bool \<times> txSimContextImpl \<times> Transaction" where
  "guardForExecuteTx2300 h tx ctx enableGas enableOptimizeChargeGas v accountStatus version =
     (if enableOptimizeChargeGas
      then
        (if p_Limit (tx_Payload tx) = None then (False, SetTxResult (Some gasLimitNotSet) ctx, tx)
         else if tx_Result tx \<noteq> None \<or> version \<ge> blockVersion2340 \<and> accountStatus \<noteq> SUCCESS
         then
           (let txResultCode = (case tx_Result tx of Some res \<Rightarrow> res_Code res | None \<Rightarrow> accountStatus) in
            case account_message txResultCode (case h_payerAddr h v tx of Inl _ \<Rightarrow> [] | Inr addr \<Rightarrow> addr) of
              None \<Rightarrow> (True, ctx, tx)
            | Some errMsg \<Rightarrow>
                (False, SetTxResult (Some
                   \<lparr>res_Code = txResultCode,
                    res_ContractResult = \<lparr>cr_Code = 1, cr_Result = None, cr_Message = errMsg, cr_GasUsed = 0,
                                          cr_ContractEvent = []\<rparr>,
                    res_Message = errMsg\<rparr>) ctx, tx))
         else (True, ctx, tx))
      else if enableGas
      then
        (if p_Limit (tx_Payload tx) = None
         then (False, SetTxResult (Some gasLimitNotSet) ctx,
               if tx_Result tx = None then tx\<lparr>tx_Result := Some gasLimitNotSet\<rparr> else tx)
         else (True, ctx, tx))
      else (True, ctx, tx))"

section \<open>Running the virtual machine\<close>

definition getContractDirectly ::
    "CommonVMHelper \<Rightarrow> string \<Rightarrow> contract_cache \<Rightarrow> (string + Contract) \<times> contract_cache" where
  "getContractDirectly h contractName cache = (h_GetContractByName h contractName, cache)"

text \<open>The older versions also load the byte code of contracts of runtime GO.\<close>

definition getContractBytecode2220 :: "CommonVMHelper \<Rightarrow> Contract \<Rightarrow> string option" where
  "getContractBytecode2220 h contract =
     (if c_RuntimeType contract \<noteq> NATIVE \<and> c_RuntimeType contract \<noteq> DOCKER_GO
      then h_bytecodeError h (c_Name contract)
      else None)"

definition getContractBytecode2210 :: "CommonVMHelper \<Rightarrow> Transaction \<Rightarrow> Contract \<Rightarrow> string option" where
  "getContractBytecode2210 h tx contract =
     (if c_RuntimeType contract \<noteq> NATIVE \<and> c_RuntimeType contract \<noteq> DOCKER_GO
      then h_bytecodeError h (p_ContractName (tx_Payload tx))
      else None)"

definition gas_error :: "Result \<Rightarrow> ExecOrderTxType \<Rightarrow> string \<Rightarrow> txSimContextImpl \<Rightarrow> contract_cache \<Rightarrow> vm_outcome" where
  "gas_error result ty err ctx cache =
     \<lparr>vo_result = result\<lparr>res_Code := INTERNAL_ERROR, res_Message := err,
        res_ContractResult := (res_ContractResult result)\<lparr>cr_Code := 1, cr_Message := err\<rparr>\<rparr>,
      vo_specialTxType = ty, vo_err = Some err, vo_ctx = ctx, vo_cache = cache\<rparr>"

text \<open>The gas of the read-write set and of the events is added to the gas the contract used.\<close>

definition add_calc_gas ::
    "CommonVMHelper \<Rightarrow> txSimContextImpl \<Rightarrow> TxStatusCode \<Rightarrow> ContractResult \<Rightarrow> string + ContractResult" where
  "add_calc_gas h ctx code payload =
     (if blockVersion2312 \<le> sc_blockVersion ctx
      then
        (case calcTxRWSetGasUsed h ctx (code = SUCCESS) of
           Inl e \<Rightarrow> Inl e
         | Inr gasRWSet \<Rightarrow>
             (case calcTxEventGasUsed h ctx (cr_ContractEvent payload) of
                Inl e \<Rightarrow> Inl e
              | Inr gasEvents \<Rightarrow> Inr (payload\<lparr>cr_GasUsed := cr_GasUsed payload + gasRWSet + gasEvents\<rparr>)))
      else Inr payload)"

definition finish_with_gas ::
    "CommonVMHelper \<Rightarrow> nat \<Rightarrow> Transaction \<Rightarrow> bool \<Rightarrow> Contract \<Rightarrow> contract_cache \<Rightarrow> string \<Rightarrow> Result \<Rightarrow> view \<Rightarrow>
     (ContractResult \<times> ExecOrderTxType \<times> TxStatusCode) \<times> txSimContextImpl \<Rightarrow> vm_outcome" where
  "finish_with_gas h version tx enableOptimizeChargeGas contract cache pk result v called =
     (let ((payload, ty, code), ctx2) = called in
      case add_calc_gas h ctx2 code payload of
        Inl e \<Rightarrow> gas_error result ty e ctx2 cache
      | Inr payload' \<Rightarrow>
          finish_2300 (checkNativeFilter h version) h tx enableOptimizeChargeGas contract cache pk result v
            ((payload', ty, code), ctx2))"

definition runVM2300_main ::
    "CommonVMHelper \<Rightarrow> nat \<Rightarrow> Transaction \<Rightarrow> bool \<Rightarrow> view \<Rightarrow> Contract \<Rightarrow> (string \<times> bytes) list \<Rightarrow> contract_cache \<Rightarrow>
     string \<Rightarrow> Result \<Rightarrow> txSimContextImpl \<Rightarrow> vm_outcome" where
  "runVM2300_main h version tx enableOptimizeChargeGas v contract parameters cache pk result ctx =
     (case calcTxGasUsed h ctx of
        Inl e \<Rightarrow> gas_error result ExecOrderTxTypeNormal e ctx cache
      | Inr gasUsed \<Rightarrow>
          finish_with_gas h version tx enableOptimizeChargeGas contract cache pk result v
            (call_contract_of h tx contract parameters gasUsed v ctx))"

definition runVM2300 ::
    "CommonVMHelper \<Rightarrow> nat \<Rightarrow> Transaction \<Rightarrow> txSimContextImpl \<Rightarrow> bool \<Rightarrow> view \<Rightarrow> contract_cache \<Rightarrow> vm_outcome" where
  "runVM2300 h version tx ctx enableOptimizeChargeGas v cache =
     prepare_vm (GetContractFromCache h) (GetContractBytecode h) tx ctx cache
       (ParseParameter2220 h (p_Parameters (tx_Payload tx)) (\<not> enableOptimizeChargeGas))
       (\<lambda>contract parameters cache'.
          if CheckGasEnable h \<and> \<not> enableOptimizeChargeGas
          then charge_then (checkNativeFilter h version) h tx ctx cache' (c_Name contract) (p_Method (tx_Payload tx)) v
                 (runVM2300_main h version tx enableOptimizeChargeGas v contract parameters cache')
          else runVM2300_main h version tx enableOptimizeChargeGas v contract parameters cache' [] init_result ctx)"

definition runVM2220 ::
    "CommonVMHelper \<Rightarrow> nat \<Rightarrow> Transaction \<Rightarrow> txSimContextImpl \<Rightarrow> bool \<Rightarrow> view \<Rightarrow> contract_cache \<Rightarrow> vm_outcome" where
  "runVM2220 h version tx ctx enableOptimizeChargeGas v cache =
     prepare_vm (getContractDirectly h) (getContractBytecode2220 h) tx ctx cache
       (ParseParameter2220 h (p_Parameters (tx_Payload tx)) (\<not> enableOptimizeChargeGas))
       (\<lambda>contract parameters cache'.
          let main = (\<lambda>pk result ctx'. finish_2220 (checkNativeFilter h version) h tx enableOptimizeChargeGas contract
                        cache' pk result v (call_contract_of h tx contract parameters 0 v ctx'))
          in if CheckGasEnable h \<and> \<not> enableOptimizeChargeGas
             then charge_then (checkNativeFilter h version) h tx ctx cache' (c_Name contract) (p_Method (tx_Payload tx)) v main
             else main [] init_result ctx)"

definition runVM2210 ::
    "CommonVMHelper \<Rightarrow> nat \<Rightarrow> Transaction \<Rightarrow> txSimContextImpl \<Rightarrow> view \<Rightarrow> contract_cache \<Rightarrow> vm_outcome" where
  "runVM2210 h version tx ctx v cache =
     prepare_vm (getContractDirectly h) (getContractBytecode2210 h tx) tx ctx cache
       (ParseParameter2210 h (p_Parameters (tx_Payload tx)))
       (\<lambda>contract parameters cache'.
          charge_then (checkNativeFilter h version) h tx ctx cache' (p_ContractName (tx_Payload tx)) (p_Method (tx_Payload tx)) v
            (\<lambda>pk result ctx'. finish_2210 (checkNativeFilter h version) h tx cache' pk result v
               (call_contract_of h tx contract parameters 0 v ctx')))"

section \<open>Every version is local\<close>

lemma finish_with_gas_stage:
  assumes "env_ok (h_env h)"
  shows "local_stage (checkNativeFilter h version) h tx v v' ctx2
    (finish_with_gas h version tx opt ct ca pk res v ((payload, ty, code), ctx2))
    (finish_with_gas h version tx opt ct ca pk res v' ((payload, ty, code), ctx2))"
  using assms
  by (cases "add_calc_gas h ctx2 code payload")
    (simp_all add: finish_with_gas_def gas_error_def finish_2300_stage local_stage_refl)

lemma runVM2300_main_stage:
  assumes "env_ok (h_env h)"
  shows "local_stage (checkNativeFilter h version) h tx v v' ctx (runVM2300_main h version tx opt v ct ps ca pk res ctx)
    (runVM2300_main h version tx opt v' ct ps ca pk res ctx)"
proof (cases "calcTxGasUsed h ctx")
  case (Inr gasUsed)
  then show ?thesis
    unfolding runVM2300_main_def by (simp add: call_stage assms finish_with_gas_stage)
qed (simp add: runVM2300_main_def gas_error_def local_stage_refl)

lemma runVM_stages:
  assumes "env_ok (h_env h)"
  shows "local_stage (checkNativeFilter h version) h tx v v' ctx (runVM2300 h version tx ctx opt v ca) (runVM2300 h version tx ctx opt v' ca)"
    and "local_stage (checkNativeFilter h version) h tx v v' ctx (runVM2220 h version tx ctx opt v ca) (runVM2220 h version tx ctx opt v' ca)"
    and "local_stage (checkNativeFilter h version) h tx v v' ctx (runVM2210 h version tx ctx v ca) (runVM2210 h version tx ctx v' ca)"
  unfolding runVM2300_def runVM2220_def runVM2210_def Let_def
  by (intro prepare_vm_stage; simp add: assms charge_then_stage call_stage runVM2300_main_stage finish_2220_stage finish_2210_stage)+

lemma guardForExecuteTx2300_cases:
  "guardForExecuteTx2300 h tx ctx g opt v st ver = (True, ctx, tx) \<or>
   (\<exists>r t. guardForExecuteTx2300 h tx ctx g opt v st ver = (False, SetTxResult r ctx, t))"
  unfolding guardForExecuteTx2300_def Let_def by (simp split: option.split) blast

lemma guardForExecuteTx2300_same:
  "h_payerAddr h v' tx = h_payerAddr h v tx \<Longrightarrow>
     guardForExecuteTx2300 h tx ctx g opt v' st ver = guardForExecuteTx2300 h tx ctx g opt v st ver"
  by (simp add: guardForExecuteTx2300_def)

end
