(* ===== verification/SenderCollection.thy ===== *)
theory SenderCollection
  imports TxVM Snapshot
begin

text \<open>
  Optimised charging, \<^verbatim>\<open>sender_collection.go\<close> and the parts of \<^verbatim>\<open>scheduler.go\<close> and \<^verbatim>\<open>config_helper.go\<close>
  around it: transactions are grouped by the address that pays for them, gas is counted per address while they run,
  and one transaction at the end of the block charges all of it, which the verifier recomputes.

  Balances and gas are 64-bit words, gas limits and balances are compared as signed values where the
  code does so. Maps are association lists; where the code iterates over one, the order is an argument.
\<close>

section \<open>Numbers\<close>

fun parse_digits :: "nat \<Rightarrow> string \<Rightarrow> nat option" where
  "parse_digits acc [] = Some acc"
| "parse_digits acc (c # cs) =
     (if CHR ''0'' \<le> c \<and> c \<le> CHR ''9'' then parse_digits (acc * 10 + (of_char c - 48)) cs else None)"

definition ParseUint :: "string \<Rightarrow> 64 word option" where
  "ParseUint s =
     (if s = [] then None
      else case parse_digits 0 s of
             None \<Rightarrow> None
           | Some n \<Rightarrow> if n < 2 ^ 64 then Some (word_of_nat n) else None)"

definition ParseInt :: "string \<Rightarrow> int option" where
  "ParseInt s =
     (let (neg, ds) = (case s of c # cs \<Rightarrow> if c = CHR ''-'' then (True, cs) else if c = CHR ''+'' then (False, cs) else (False, s)
                       | [] \<Rightarrow> (False, []))
      in if ds = [] then None
         else case parse_digits 0 ds of
                None \<Rightarrow> None
              | Some n \<Rightarrow>
                  if neg then (if n \<le> 2 ^ 63 then Some (- int n) else None)
                  else (if n < 2 ^ 63 then Some (int n) else None))"

definition uint64SafeAdd :: "64 word \<Rightarrow> 64 word \<Rightarrow> 64 word \<times> bool" where
  "uint64SafeAdd num1 num2 = (let result = num1 + num2 in if result < num1 then (0, True) else (result, False))"

definition uint64SafeSub :: "64 word \<Rightarrow> 64 word \<Rightarrow> 64 word \<times> bool" where
  "uint64SafeSub num1 num2 = (let result = num1 - num2 in if sint result \<ge> 0 then (result, False) else (0, True))"

section \<open>State\<close>

record TxCollection =
  tc_accountBalance :: "64 word"
  tc_totalGasUsed :: "64 word"
  tc_txs :: "Transaction list"
  tc_accountStatus :: TxStatusCode

record SenderCollection =
  sn_txsMap :: "(string \<times> TxCollection) list"
  sn_txAddressCache :: "(string \<times> string) list"
  sn_specialTxTable :: "Transaction list"

text \<open>The second component tells whether the sum would exceed 64 bits; then the collection stays.\<close>

definition addTxGas :: "64 word \<Rightarrow> TxCollection \<Rightarrow> TxCollection \<times> bool" where
  "addTxGas gas g =
     (let totalGasUsed = tc_totalGasUsed g + gas in
      if totalGasUsed < tc_totalGasUsed g then (g, True) else (g\<lparr>tc_totalGasUsed := totalGasUsed\<rparr>, False))"

section \<open>Balances\<close>

definition account_key :: "string \<Rightarrow> string" where
  "account_key address = ''__account_prefix__'' @ address"

definition frozen_key :: "string \<Rightarrow> string" where
  "frozen_key address = ''__frozen_account__'' @ address"

definition getAccountBalanceFromSnapshot2300 :: "view \<Rightarrow> string \<Rightarrow> int \<times> string option" where
  "getAccountBalanceFromSnapshot2300 v address =
     (case v ''ACCOUNT_MANAGER'' (account_key address) of
        Inl e \<Rightarrow> (-1, Some e)
      | Inr balanceData \<Rightarrow>
          if bytes_len balanceData = 0 then (0, None)
          else
            case ParseInt (the balanceData) of
              None \<Rightarrow> (0, Some ''parse error'')
            | Some balance \<Rightarrow> (balance, None))"

definition getAccountBalanceFromSnapshot2312 :: "view \<Rightarrow> string \<Rightarrow> int \<times> TxStatusCode" where
  "getAccountBalanceFromSnapshot2312 v address =
     (case v ''ACCOUNT_MANAGER'' (account_key address) of
        Inl e \<Rightarrow> (-1, GET_ACCOUNT_BALANCE_FAILED)
      | Inr balanceData \<Rightarrow>
          (let parsed = (if bytes_len balanceData = 0 then Some 0 else ParseInt (the balanceData)) in
           case parsed of
             None \<Rightarrow> (0, PARSE_ACCOUNT_BALANCE_FAILED)
           | Some balance \<Rightarrow>
               (case v ''ACCOUNT_MANAGER'' (frozen_key address) of
                  Inl e \<Rightarrow> (-1, GET_ACCOUNT_STATUS_FAILED)
                | Inr frozenData \<Rightarrow>
                    if frozenData = Some ''1'' then (0, ACCOUNT_STATUS_FROZEN) else (balance, SUCCESS))))"

definition getAccountBalanceFromSnapshot2310 :: "view \<Rightarrow> string \<Rightarrow> int \<times> string option" where
  "getAccountBalanceFromSnapshot2310 v address =
     (case v ''ACCOUNT_MANAGER'' (account_key address) of
        Inl e \<Rightarrow> (-1, Some e)
      | Inr balanceData \<Rightarrow>
          (let parsed = (if bytes_len balanceData = 0 then Some 0 else ParseInt (the balanceData)) in
           case parsed of
             None \<Rightarrow> (0, Some ''parse error'')
           | Some balance \<Rightarrow>
               (case v ''ACCOUNT_MANAGER'' (frozen_key address) of
                  Inl e \<Rightarrow> (-1, Some e)
                | Inr frozenData \<Rightarrow>
                    if frozenData = Some ''1'' then (0, Some (''account `'' @ address @ ''` has been locked''))
                    else (balance, None))))"

text \<open>The version is that of the last chain configuration.\<close>

definition getAccountBalanceFromSnapshotLt2312 :: "nat \<Rightarrow> view \<Rightarrow> string \<Rightarrow> int \<times> string option" where
  "getAccountBalanceFromSnapshotLt2312 cfgVersion v address =
     (if cfgVersion < blockVersion2310 then getAccountBalanceFromSnapshot2300 v address
      else getAccountBalanceFromSnapshot2310 v address)"

section \<open>Grouping by payer\<close>

definition failed_result :: "TxStatusCode \<Rightarrow> string \<Rightarrow> string \<Rightarrow> Result" where
  "failed_result code contractMsg msg =
     \<lparr>res_Code = code,
      res_ContractResult = \<lparr>cr_Code = 1, cr_Result = None, cr_Message = contractMsg, cr_GasUsed = 0, cr_ContractEvent = []\<rparr>,
      res_Message = msg\<rparr>"

definition preHandleTxCollectionMap2310 ::
    "nat \<Rightarrow> view \<Rightarrow> (string \<times> TxCollection) list \<Rightarrow> (string \<times> TxCollection) list" where
  "preHandleTxCollectionMap2310 cfgVersion v =
     map (\<lambda>(senderAddress, txCollection).
       let (balance, err) = getAccountBalanceFromSnapshotLt2312 cfgVersion v senderAddress;
           txs = (case err of
                    None \<Rightarrow> tc_txs txCollection
                  | Some e \<Rightarrow> map (\<lambda>tx. tx\<lparr>tx_Result := Some (failed_result CONTRACT_FAIL [] (''get account balance failed: err = '' @ e))\<rparr>)
                                (tc_txs txCollection))
       in (senderAddress, txCollection\<lparr>tc_txs := txs, tc_accountBalance := word_of_int balance\<rparr>))"

definition preHandleTxCollectionMap2312 ::
    "view \<Rightarrow> (string \<times> TxCollection) list \<Rightarrow> (string \<times> TxCollection) list" where
  "preHandleTxCollectionMap2312 v =
     map (\<lambda>(senderAddress, txCollection).
       let (balance, errCode) = getAccountBalanceFromSnapshot2312 v senderAddress;
           errMsg = ''get account balance failed: errCode'';
           txs = (if errCode \<noteq> SUCCESS
                  then map (\<lambda>tx. tx\<lparr>tx_Result := Some (failed_result errCode errMsg errMsg)\<rparr>) (tc_txs txCollection)
                  else tc_txs txCollection)
       in (senderAddress, txCollection\<lparr>tc_txs := txs, tc_accountBalance := word_of_int balance\<rparr>))"

definition empty_collection :: TxCollection where
  "empty_collection = \<lparr>tc_accountBalance = 0, tc_totalGasUsed = 0, tc_txs = [], tc_accountStatus = SUCCESS\<rparr>"

fun group_txs :: "CommonVMHelper \<Rightarrow> view \<Rightarrow> Transaction list \<Rightarrow> (string \<times> TxCollection) list \<Rightarrow> (string \<times> TxCollection) list" where
  "group_txs h v [] m = m"
| "group_txs h v (tx # txs) m =
     (case h_payerAddr h v tx of
        Inl _ \<Rightarrow> group_txs h v txs m
      | Inr address \<Rightarrow>
          (let txCollection = (case map_of m address of None \<Rightarrow> empty_collection | Some c \<Rightarrow> c)
           in group_txs h v txs (AList.update address (txCollection\<lparr>tc_txs := tc_txs txCollection @ [tx]\<rparr>) m)))"

definition getSenderTxCollection ::
    "CommonVMHelper \<Rightarrow> nat \<Rightarrow> view \<Rightarrow> Transaction list \<Rightarrow> (string \<times> TxCollection) list" where
  "getSenderTxCollection h cfgVersion v txBatch =
     (let txCollectionMap = group_txs h v txBatch [] in
      if cfgVersion < blockVersion2312 then preHandleTxCollectionMap2310 cfgVersion v txCollectionMap
      else preHandleTxCollectionMap2312 v txCollectionMap)"

definition new_collection234 :: "nat \<Rightarrow> view \<Rightarrow> string \<Rightarrow> TxCollection" where
  "new_collection234 version v address =
     (let (balance, statusCode) =
            (if version < blockVersion2310 then (fst (getAccountBalanceFromSnapshot2300 v address), SUCCESS)
             else getAccountBalanceFromSnapshot2312 v address)
      in \<lparr>tc_accountBalance = word_of_int balance, tc_totalGasUsed = 0, tc_txs = [], tc_accountStatus = statusCode\<rparr>)"

text \<open>
  A transaction with a payer goes to the parallel queue of its address or, where the balance does not
  suffice for the gas limits so far, to the special ones. One whose limit makes the sum exceed 64 bits goes to neither.
\<close>

definition place_tx :: "CommonVMHelper \<Rightarrow> nat \<Rightarrow> view \<Rightarrow> Transaction \<Rightarrow> TxCollection \<Rightarrow> TxCollection \<times> Transaction list" where
  "place_tx h version v tx txCollection =
     (let parallel = (\<lambda>c. (c\<lparr>tc_txs := tc_txs c @ [tx]\<rparr>, [])) in
      if checkNativeFilter h version (p_ContractName (tx_Payload tx)) (p_Method (tx_Payload tx)) tx v
      then
        (if tc_accountStatus txCollection \<noteq> SUCCESS then parallel txCollection
         else
           (let (txCollection', overflow) =
                  (case p_Limit (tx_Payload tx) of None \<Rightarrow> (txCollection, False) | Some limit \<Rightarrow> addTxGas limit txCollection)
            in if overflow then (txCollection', [])
               else if tc_totalGasUsed txCollection' > tc_accountBalance txCollection' then (txCollection', [tx])
               else parallel txCollection'))
      else parallel txCollection)"

fun getSenderTxCollection234 ::
    "CommonVMHelper \<Rightarrow> nat \<Rightarrow> view \<Rightarrow> Transaction list \<Rightarrow> SenderCollection \<Rightarrow> SenderCollection" where
  "getSenderTxCollection234 h version v [] s = s"
| "getSenderTxCollection234 h version v (tx # txs) s =
     (case h_payerAddr h v tx of
        Inl _ \<Rightarrow> getSenderTxCollection234 h version v txs s
      | Inr address \<Rightarrow>
          (let txCollection = (case map_of (sn_txsMap s) address of None \<Rightarrow> new_collection234 version v address | Some c \<Rightarrow> c);
               (txCollection', special) = place_tx h version v tx txCollection
           in getSenderTxCollection234 h version v txs
                \<lparr>sn_txsMap = AList.update address txCollection' (sn_txsMap s),
                 sn_txAddressCache = AList.update (TxId tx) address (sn_txAddressCache s),
                 sn_specialTxTable = sn_specialTxTable s @ special\<rparr>))"

definition NewSenderCollection :: "CommonVMHelper \<Rightarrow> nat \<Rightarrow> nat \<Rightarrow> view \<Rightarrow> Transaction list \<Rightarrow> SenderCollection" where
  "NewSenderCollection h version cfgVersion v txBatch =
     (if version < blockVersion2340
      then \<lparr>sn_txsMap = getSenderTxCollection h cfgVersion v txBatch, sn_txAddressCache = [], sn_specialTxTable = []\<rparr>
      else getSenderTxCollection234 h version v txBatch
             \<lparr>sn_txsMap = [], sn_txAddressCache = [], sn_specialTxTable = []\<rparr>)"

definition getParallelTxsNum :: "SenderCollection \<Rightarrow> nat" where
  "getParallelTxsNum s = fold (\<lambda>(_, txCollection) num. num + length (tc_txs txCollection)) (sn_txsMap s) 0"

definition Clear :: "SenderCollection \<Rightarrow> SenderCollection" where
  "Clear s = s\<lparr>sn_txsMap := []\<rparr>"

definition resetTotalGasUsed :: "SenderCollection \<Rightarrow> SenderCollection" where
  "resetTotalGasUsed s = s\<lparr>sn_txsMap := map (\<lambda>(a, c). (a, c\<lparr>tc_totalGasUsed := 0\<rparr>)) (sn_txsMap s)\<rparr>"

section \<open>Counting gas while transactions run\<close>

definition find_collection :: "SenderCollection \<Rightarrow> Transaction \<Rightarrow> (string \<times> TxCollection) option" where
  "find_collection s tx =
     (case map_of (sn_txAddressCache s) (TxId tx) of
        None \<Rightarrow> None
      | Some address \<Rightarrow>
          (case map_of (sn_txsMap s) address of None \<Rightarrow> None | Some c \<Rightarrow> Some (address, c)))"

definition checkBalanceInSenderCollection :: "SenderCollection \<Rightarrow> Transaction \<Rightarrow> string option" where
  "checkBalanceInSenderCollection s tx =
     (case p_Limit (tx_Payload tx) of
        None \<Rightarrow> Some ''tx need charge gas, but not gas limit was supplied''
      | Some limit \<Rightarrow>
          (case find_collection s tx of
             None \<Rightarrow> Some ''cannot find account balance''
           | Some (_, senderTxs) \<Rightarrow>
               if tc_totalGasUsed senderTxs \<ge> tc_accountBalance senderTxs then Some ''account balance is not enough''
               else
                 (let (totalGasUsed, overflow) = uint64SafeAdd (tc_totalGasUsed senderTxs) limit in
                  if overflow then Some ''totalGasUsed is overflow''
                  else if totalGasUsed > tc_accountBalance senderTxs then Some ''account balance is not enough''
                  else None)))"

text \<open>The gas to charge, the error, and the collection afterwards.\<close>

definition charge_collection ::
    "64 word \<Rightarrow> 64 word \<Rightarrow> TxCollection \<Rightarrow> 64 word \<times> string option \<times> TxCollection" where
  "charge_collection limit gasUsed senderTxs =
     (if gasUsed > limit
      then
        (let (senderTxs', overflow) = addTxGas limit senderTxs
         in (limit, Some (if overflow then ''totalGasUsed is overflow'' else ''gasUsed is greater than gasLimit''), senderTxs'))
      else
        (let (totalGasUsed, overflow) = uint64SafeAdd (tc_totalGasUsed senderTxs) gasUsed in
         if overflow then (gasUsed, Some ''totalGasUsed is overflow'', senderTxs)
         else if totalGasUsed > tc_accountBalance senderTxs
         then
           (let (gasAvailable, overflow2) = uint64SafeSub (tc_accountBalance senderTxs) (tc_totalGasUsed senderTxs)
            in (if overflow2 then 0 else gasAvailable, Some ''account balance remains'',
                senderTxs\<lparr>tc_totalGasUsed := tc_accountBalance senderTxs\<rparr>))
         else (gasUsed, None, senderTxs\<lparr>tc_totalGasUsed := totalGasUsed\<rparr>)))"

definition chargeGasInSenderCollection ::
    "SenderCollection \<Rightarrow> Transaction \<Rightarrow> Result \<Rightarrow> bool \<Rightarrow> 64 word \<times> string option \<times> SenderCollection" where
  "chargeGasInSenderCollection s tx txResult txNeedChargeGas =
     (if \<not> txNeedChargeGas then (0, None, s)
      else
        case p_Limit (tx_Payload tx) of
          None \<Rightarrow> (0, Some ''tx need charge gas, but not gas limit was supplied'', s)
        | Some limit \<Rightarrow>
            (case find_collection s tx of
               None \<Rightarrow> (0, Some ''cannot find account balance'', s)
             | Some (address, senderTxs) \<Rightarrow>
                 (let (gas, err, senderTxs') = charge_collection limit (cr_GasUsed (res_ContractResult txResult)) senderTxs
                  in (gas, err, s\<lparr>sn_txsMap := AList.update address senderTxs' (sn_txsMap s)\<rparr>))))"

section \<open>Dispatching\<close>

text \<open>
  Before version 2.3.4 the dispatcher sets the result of the transactions the balance does not suffice
  for. The limit is cast to a signed number first.
\<close>

definition dispatch_step ::
    "CommonVMHelper \<Rightarrow> nat \<Rightarrow> view \<Rightarrow> string \<Rightarrow> Transaction \<Rightarrow> 64 word \<Rightarrow> Transaction \<times> 64 word" where
  "dispatch_step h version v addr tx balance =
     (let txNeedChargeGas =
            checkNativeFilter h version (p_ContractName (tx_Payload tx)) (p_Method (tx_Payload tx)) tx v
      in if p_Limit (tx_Payload tx) = None \<and> txNeedChargeGas
         then (tx\<lparr>tx_Result := Some gasLimitNotSet\<rparr>, balance)
         else if txNeedChargeGas \<and> tx_Result tx \<noteq> None then (tx, balance)
         else
           (let gasLimit = (if \<not> txNeedChargeGas then 0 else the (p_Limit (tx_Payload tx))) in
            if sint (balance - gasLimit) < 0
            then
              (let errMsg = ''`'' @ addr @ ''` has no enough balance to execute tx.''
               in (tx\<lparr>tx_Result := Some (failed_result GAS_BALANCE_NOT_ENOUGH_FAILED errMsg errMsg)\<rparr>, balance))
            else (tx, balance - gasLimit)))"

fun dispatch_collection ::
    "CommonVMHelper \<Rightarrow> nat \<Rightarrow> view \<Rightarrow> string \<Rightarrow> Transaction list \<Rightarrow> 64 word \<Rightarrow> Transaction list" where
  "dispatch_collection h version v addr [] balance = []"
| "dispatch_collection h version v addr (tx # txs) balance =
     (let (tx', balance') = dispatch_step h version v addr tx balance
      in tx' # dispatch_collection h version v addr txs balance')"

definition dispatchTxsInSenderCollection ::
    "((string \<times> TxCollection) list \<Rightarrow> (string \<times> TxCollection) list) \<Rightarrow> CommonVMHelper \<Rightarrow> nat \<Rightarrow> view \<Rightarrow> SenderCollection \<Rightarrow>
     Transaction list" where
  "dispatchTxsInSenderCollection order h version v s =
     concat (map (\<lambda>(addr, c). dispatch_collection h version v addr (tc_txs c) (tc_accountBalance c)) (order (sn_txsMap s)))"

definition dispatchTxsInSenderCollection234 ::
    "((string \<times> TxCollection) list \<Rightarrow> (string \<times> TxCollection) list) \<Rightarrow> SenderCollection \<Rightarrow> Transaction list" where
  "dispatchTxsInSenderCollection234 order s = concat (map (\<lambda>(_, c). tc_txs c) (order (sn_txsMap s)))"
end
