(* ===== verification/TxExec.thy ===== *)
theory TxExec
  imports SenderCollection
begin

text \<open>
  Execution of one transaction by the default scheduler (\<^verbatim>\<open>executeTx\<close> and
  \<^verbatim>\<open>processSenderCollectionIn234\<close> in \<^verbatim>\<open>scheduler.go\<close>): from version 2.3.4 on, where optimised charging is
  enabled, the payer's balance is checked before the run and charged after it. For a given state of the collection
  this is an \<open>executor\<close>.
\<close>

section \<open>Execution\<close>

definition processSenderCollectionIn234 ::
    "SenderCollection \<Rightarrow> Transaction \<Rightarrow> bool \<Rightarrow> bool \<Rightarrow> txSimContextImpl \<Rightarrow> TxStatusCode \<times> bool \<times> txSimContextImpl" where
  "processSenderCollectionIn234 collection tx txNeedChargeGas enableOptimizeChargeGas ctx =
     (if \<not> (txNeedChargeGas \<and> enableOptimizeChargeGas) then (SUCCESS, False, ctx)
      else
        case find_collection collection tx of
          None \<Rightarrow> (SUCCESS, True, ctx)
        | Some (_, col) \<Rightarrow>
            if tc_accountStatus col \<noteq> SUCCESS then (tc_accountStatus col, False, ctx)
            else
              (case checkBalanceInSenderCollection collection tx of
                 None \<Rightarrow> (SUCCESS, False, ctx)
               | Some err2 \<Rightarrow> (SUCCESS, True, SetTxResult (Some (failed_result CONTRACT_FAIL err2 err2)) ctx)))"

definition guard_tx ::
    "CommonVMHelper \<Rightarrow> nat \<Rightarrow> SenderCollection \<Rightarrow> view \<Rightarrow> Transaction \<Rightarrow> bool \<times> txSimContextImpl \<times> Transaction" where
  "guard_tx h version collection v tx =
     (let ctx = NewTxSimContext tx version;
          enableGas = CheckGasEnable h;
          enableOptimizeChargeGas = IsOptimizeChargeGasEnabled h;
          txNeedChargeGas = checkNativeFilter h version (p_ContractName (tx_Payload tx)) (p_Method (tx_Payload tx)) tx v;
          (accountStatus, abnormal, ctx1) =
            (if version \<ge> blockVersion2340
             then processSenderCollectionIn234 collection tx txNeedChargeGas enableOptimizeChargeGas ctx
             else (SUCCESS, False, ctx))
      in if abnormal then (False, ctx1, tx)
         else if version \<ge> 2300
         then
           (if txNeedChargeGas
            then guardForExecuteTx2300 h tx ctx1 enableGas enableOptimizeChargeGas v accountStatus version
            else (True, ctx1, tx))
         else if version \<ge> 2220
         then (let (go, ctx2) = guardForExecuteTx2220 tx ctx1 enableOptimizeChargeGas in (go, ctx2, tx))
         else (True, ctx1, tx))"

definition run_vm :: "CommonVMHelper \<Rightarrow> nat \<Rightarrow> contract_cache \<Rightarrow> view \<Rightarrow> Transaction \<Rightarrow> txSimContextImpl \<Rightarrow> vm_outcome" where
  "run_vm h version cache v tx ctx =
     (if version \<ge> 2300 then runVM2300 h version tx ctx (IsOptimizeChargeGasEnabled h) v cache
      else if version \<ge> 2220 then runVM2220 h version tx ctx (IsOptimizeChargeGasEnabled h) v cache
      else runVM2210 h version tx ctx v cache)"

text \<open>The charge after the run, which replaces the result where the gas does not fit.\<close>

definition charge_after ::
    "CommonVMHelper \<Rightarrow> nat \<Rightarrow> view \<Rightarrow> Transaction \<Rightarrow> exec_result \<times> SenderCollection \<Rightarrow> exec_result \<times> SenderCollection" where
  "charge_after h version v tx st =
     (let (er, collection) = st;
          txNeedChargingGas =
            checkNativeFilter h version (p_ContractName (tx_Payload tx)) (p_Method (tx_Payload tx)) tx v \<and>
            p_TxType (tx_Payload tx) = INVOKE_CONTRACT;
          (gasCharged, err2, collection') =
            chargeGasInSenderCollection collection tx (the (sc_txResult (er_ctx er))) txNeedChargingGas
      in case err2 of
           None \<Rightarrow> (er, collection')
         | Some e \<Rightarrow>
             (er\<lparr>er_runVmSuccess := False,
                 er_ctx := SetTxResult (Some
                   \<lparr>res_Code = CONTRACT_FAIL,
                    res_ContractResult = \<lparr>cr_Code = 1, cr_Result = None, cr_Message = e, cr_GasUsed = gasCharged, cr_ContractEvent = []\<rparr>,
                    res_Message = e\<rparr>) (er_ctx er)\<rparr>, collection'))"

definition executeTx ::
    "CommonVMHelper \<Rightarrow> nat \<Rightarrow> contract_cache \<Rightarrow> SenderCollection \<Rightarrow> view \<Rightarrow> Transaction \<Rightarrow> exec_result \<times> SenderCollection" where
  "executeTx h version cache collection v tx =
     (let guard = guard_tx h version collection v tx;
          er = guarded_run guard (run_vm h version cache v (snd (snd guard))) cache
      in if fst guard \<and> version \<ge> blockVersion2340 \<and> IsOptimizeChargeGasEnabled h
         then charge_after h version v tx (er, collection)
         else (er, collection))"

text \<open>What \<^verbatim>\<open>handleTx\<close> takes from an execution.\<close>

definition tx_exec :: "CommonVMHelper \<Rightarrow> nat \<Rightarrow> contract_cache \<Rightarrow> SenderCollection \<Rightarrow> exec_fun" where
  "tx_exec h version cache collection v tx =
     (let er = fst (executeTx h version cache collection v tx)
      in (GetTxRWSet (er_runVmSuccess er) (er_ctx er), sc_txResult (er_ctx er)))"

section \<open>The executor\<close>

definition tx_covered :: "CommonVMHelper \<Rightarrow> nat \<Rightarrow> Transaction \<Rightarrow> bool" where
  "tx_covered h version tx \<longleftrightarrow> env_ok (h_env h) \<and> (\<forall>v v'. same_unrecorded (checkNativeFilter h version) h tx v v')"

text \<open>From version 2.3.1.2 on no request is read from the snapshot.\<close>

lemma tx_covered_payer:
  assumes "env_ok (h_env h)" and "version \<ge> blockVersion2312 \<or> p_Method (tx_Payload tx) \<noteq> ''TRIG''"
    and "\<And>v v'. h_payerPk h v' tx = h_payerPk h v tx" and "\<And>v v'. h_payerAddr h v' tx = h_payerAddr h v tx"
  shows "tx_covered h version tx"
  using assms by (auto simp: tx_covered_def same_unrecorded_def checkNativeFilter_def checkMultiSignFilterOld_def)

lemma guard_okI:
  "guard_ok tx version (True, NewTxSimContext tx version, tx)"
  "guard_ok tx version (False, SetTxResult r (NewTxSimContext tx version), t)"
  "guard_ok tx version (False, NewTxSimContext tx version, t)"
  by (auto simp: guard_ok_def SetTxResult_def NewTxSimContext_def)

lemma process_cases:
  "processSenderCollectionIn234 s tx need opt ctx = (st, ab, ctx1) \<Longrightarrow>
     (ab \<longrightarrow> (\<exists>r. ctx1 = SetTxResult r ctx) \<or> ctx1 = ctx) \<and> (\<not> ab \<longrightarrow> ctx1 = ctx)"
  by (auto simp: processSenderCollectionIn234_def split: if_splits option.splits)

lemma guard_tx_ok:
  "guard_ok tx version (guard_tx h version s v tx)"
  "fst (guard_tx h version s v tx) \<Longrightarrow> snd (snd (guard_tx h version s v tx)) = tx"
proof -
  let ?new = "NewTxSimContext tx version"
  obtain st ab ctx1 where p: "(if version \<ge> blockVersion2340
      then processSenderCollectionIn234 s tx (checkNativeFilter h version (p_ContractName (tx_Payload tx)) (p_Method (tx_Payload tx)) tx v)
        (IsOptimizeChargeGasEnabled h) ?new
      else (SUCCESS, False, ?new)) = (st, ab, ctx1)"
    by (metis surj_pair)
  have ctx1: "ab \<longrightarrow> (\<exists>r. ctx1 = SetTxResult r ?new) \<or> ctx1 = ?new" "\<not> ab \<longrightarrow> ctx1 = ?new"
    using p process_cases by (auto split: if_splits)
  have "guard_ok tx version (guard_tx h version s v tx) \<and>
      (fst (guard_tx h version s v tx) \<longrightarrow> snd (snd (guard_tx h version s v tx)) = tx)"
  proof (cases ab)
    case True
    then show ?thesis
      using ctx1(1) guard_okI by (auto simp: guard_tx_def Let_def p)
  next
    case False
    then show ?thesis
      using ctx1(2) guard_okI
        guardForExecuteTx2300_cases [of h tx ?new "CheckGasEnable h" "IsOptimizeChargeGasEnabled h" v st version]
      by (auto simp: guard_tx_def Let_def p guardForExecuteTx2220_def split: option.splits)
  qed
  then show "guard_ok tx version (guard_tx h version s v tx)"
    "fst (guard_tx h version s v tx) \<Longrightarrow> snd (snd (guard_tx h version s v tx)) = tx"
    by simp_all
qed

lemma guard_tx_same:
  "same_unrecorded (checkNativeFilter h version) h tx v v' \<Longrightarrow> guard_tx h version s v' tx = guard_tx h version s v tx"
  by (simp add: guard_tx_def same_unrecorded_def Let_def guardForExecuteTx2300_same [of h v' tx v] cong: if_cong)

definition base_run :: "CommonVMHelper \<Rightarrow> nat \<Rightarrow> contract_cache \<Rightarrow> SenderCollection \<Rightarrow> view \<Rightarrow> Transaction \<Rightarrow> exec_result" where
  "base_run h version cache s v tx = guarded_run (guard_tx h version s v tx) (run_vm h version cache v tx) cache"

lemma executeTx_base:
  "executeTx h version cache s v tx =
    (if fst (guard_tx h version s v tx) \<and> version \<ge> blockVersion2340 \<and> IsOptimizeChargeGasEnabled h
     then charge_after h version v tx (base_run h version cache s v tx, s) else (base_run h version cache s v tx, s))"
  using guard_tx_ok(2) [of h version s v tx]
  by (cases "guard_tx h version s v tx") (auto simp: executeTx_def base_run_def guarded_run_def Let_def)

lemma charge_after_ctx:
  "\<exists>r. er_ctx (fst (charge_after h version v tx (er, s))) = SetTxResult r (er_ctx er)"
proof -
  have "er_ctx er = SetTxResult (sc_txResult (er_ctx er)) (er_ctx er)"
    by (simp add: SetTxResult_def)
  then show ?thesis
    by (auto simp: charge_after_def split_beta Let_def split: option.splits)
qed

lemma base_run_local:
  assumes "tx_covered h version tx"
  shows "wf_ctx v (er_ctx (base_run h version cache s v tx))"
    and "sc_tx (er_ctx (base_run h version cache s v tx)) = tx"
    and "sc_blockVersion (er_ctx (base_run h version cache s v tx)) = version"
    and "total_view v \<Longrightarrow> agree_on v v' (recorded (er_ctx (base_run h version cache s v tx))) \<Longrightarrow>
      base_run h version cache s v' tx = base_run h version cache s v tx"
proof -
  have stage: "local_stage (checkNativeFilter h version) h tx v v' ctx (run_vm h version cache v tx ctx)
      (run_vm h version cache v' tx ctx)" for v' ctx
    using assms by (simp add: run_vm_def tx_covered_def runVM_stages)
  note loc = guarded_run_local [OF guard_tx_ok(1) [where v = v] guard_tx_same stage [of v'], where cache = cache]
  show "wf_ctx v (er_ctx (base_run h version cache s v tx))"
    "sc_tx (er_ctx (base_run h version cache s v tx)) = tx"
    "sc_blockVersion (er_ctx (base_run h version cache s v tx)) = version"
    unfolding base_run_def using loc(1-3) by simp_all
  show "base_run h version cache s v' tx = base_run h version cache s v tx"
    if "total_view v" "agree_on v v' (recorded (er_ctx (base_run h version cache s v tx)))"
    using loc(4) that assms by (simp add: base_run_def tx_covered_def)
qed

lemma executeTx_ctx:
  "\<exists>r. er_ctx (fst (executeTx h version cache s v tx)) = SetTxResult r (er_ctx (base_run h version cache s v tx))"
proof -
  have "er_ctx er = SetTxResult (sc_txResult (er_ctx er)) (er_ctx er)" for er
    by (simp add: SetTxResult_def)
  then show ?thesis
    using charge_after_ctx by (auto simp: executeTx_base)
qed

lemma executeTx_local:
  assumes "tx_covered h version tx"
  shows "wf_ctx v (er_ctx (fst (executeTx h version cache s v tx)))"
    and "sc_tx (er_ctx (fst (executeTx h version cache s v tx))) = tx"
    and "sc_blockVersion (er_ctx (fst (executeTx h version cache s v tx))) = version"
    and "total_view v \<Longrightarrow> agree_on v v' (recorded (er_ctx (fst (executeTx h version cache s v tx)))) \<Longrightarrow>
      executeTx h version cache s v' tx = executeTx h version cache s v tx"
proof -
  obtain r where r: "er_ctx (fst (executeTx h version cache s v tx)) = SetTxResult r (er_ctx (base_run h version cache s v tx))"
    using executeTx_ctx by blast
  show "wf_ctx v (er_ctx (fst (executeTx h version cache s v tx)))"
    "sc_tx (er_ctx (fst (executeTx h version cache s v tx))) = tx"
    "sc_blockVersion (er_ctx (fst (executeTx h version cache s v tx))) = version"
    by (simp_all add: r base_run_local [OF assms])
  assume "total_view v" "agree_on v v' (recorded (er_ctx (fst (executeTx h version cache s v tx))))"
  then have "base_run h version cache s v' tx = base_run h version cache s v tx"
    by (intro base_run_local(4) [OF assms]) (simp_all add: r)
  moreover have su: "same_unrecorded (checkNativeFilter h version) h tx v v'"
    using assms by (simp add: tx_covered_def)
  then have "charge_after h version v' tx st = charge_after h version v tx st" for st
    by (simp add: charge_after_def same_unrecorded_def)
  ultimately show "executeTx h version cache s v' tx = executeTx h version cache s v tx"
    using guard_tx_same [OF su] by (simp add: executeTx_base)
qed

interpretation txvm: executor "tx_exec h version cache s" "tx_covered h version" for h version cache s
proof
  fix t v v'
  assume cov: "tx_covered h version t" and total: "total_view v" "total_view v'"
    and same: "\<And>r. r \<in> set (reads_of (tx_exec h version cache s v t)) \<Longrightarrow>
      v' (r_ContractName r) (r_Key r) = v (r_ContractName r) (r_Key r)"
  let ?er = "fst (executeTx h version cache s v t)"
  have "agree_on v v' (recorded (er_ctx ?er))"
    using GetTxRWSet_reads [OF executeTx_local(1) [OF cov, of v cache s], of _ _ "er_runVmSuccess ?er"] same
    by (fastforce simp: agree_on_def tx_exec_def Let_def)
  then have "executeTx h version cache s v' t = executeTx h version cache s v t"
    by (rule executeTx_local(4) [OF cov total(1)])
  then show "tx_exec h version cache s v' t = tx_exec h version cache s v t"
    by (simp add: tx_exec_def)
qed

interpretation txvm235: read_executor "tx_exec h (v235 + d) cache s" "tx_covered h (v235 + d)" for h d cache s
proof
  fix t v r
  assume cov: "tx_covered h (v235 + d) t" and total: "total_view v"
    and r: "r \<in> set (reads_of (tx_exec h (v235 + d) cache s v t))"
  show "v (r_ContractName r) (r_Key r) = Inr (r_Value r)"
    using r GetTxRWSet_values [OF executeTx_local(1) [OF cov, of v cache s], of r "er_runVmSuccess (fst (executeTx h (v235 + d) cache s v t))"]
    by (simp add: tx_exec_def executeTx_local(3) [OF cov] Let_def)
qed

text \<open>Without optimised charging, and before version 2.3.4, the collection plays no role.\<close>

lemma tx_exec_no_collection:
  assumes "version < blockVersion2340 \<or> \<not> IsOptimizeChargeGasEnabled h"
  shows "tx_exec h version cache s = tx_exec h version cache s'" and "snd (executeTx h version cache s v tx) = s"
proof -
  have "guard_tx h version s v tx = guard_tx h version s' v tx" for v tx
    using assms by (auto simp: guard_tx_def processSenderCollectionIn234_def Let_def)
  then have "base_run h version cache s v tx = base_run h version cache s' v tx" for v tx
    by (simp add: base_run_def)
  then show "tx_exec h version cache s = tx_exec h version cache s'" "snd (executeTx h version cache s v tx) = s"
    using assms by (auto simp: fun_eq_iff tx_exec_def executeTx_base)
qed

lemma tx_exec_TxId:
  assumes "tx_covered h version t"
  shows "rw_TxId (fst (tx_exec h version cache s v t)) = TxId t"
  using executeTx_local(2) [OF assms, of cache s v]
  by (simp add: tx_exec_def GetTxRWSet_def Let_def split_beta)

end
