(* ===== verification/Transparency.thy ===== *)
theory Transparency
  imports TxExec CommonVM
begin

text \<open>
  What does not influence the outcome of an execution: a contract cache that agrees with the committed
  contracts, and, where charging is not optimised, the result a transaction carries from an earlier execution
  or from the proposer.
\<close>

section \<open>The contract cache\<close>

definition coherent :: "CommonVMHelper \<Rightarrow> contract_cache \<Rightarrow> bool" where
  "coherent h cache \<longleftrightarrow> (\<forall>n c. map_of cache n = Some c \<longrightarrow> h_GetContractByName h n = Inr c)"

lemma coherent_Nil [simp]: "coherent h []"
  by (simp add: coherent_def)

lemma GetContractFromCache_coherent:
  assumes "coherent h cache"
  shows "fst (GetContractFromCache h n cache) = h_GetContractByName h n"
    and "coherent h (snd (GetContractFromCache h n cache))"
  using assms
  by (auto simp: GetContractFromCache_def coherent_def update_conv' split: option.splits sum.splits)

text \<open>Every stage after the lookup passes the cache on.\<close>

definition passes :: "contract_cache \<Rightarrow> vm_outcome \<Rightarrow> vm_outcome \<Rightarrow> bool" where
  "passes cache out out0 \<longleftrightarrow> out = out0\<lparr>vo_cache := cache\<rparr>"

named_theorems cache_passed

lemma stages_pass_cache [cache_passed]:
  "passes cache (finish_2300 need h tx opt ct cache pk res v called) (finish_2300 need h tx opt ct [] pk res v called)"
  "passes cache (finish_2220 need h tx opt ct cache pk res v called) (finish_2220 need h tx opt ct [] pk res v called)"
  "passes cache (finish_2210 need h tx cache pk res v called) (finish_2210 need h tx [] pk res v called)"
  "passes cache (gas_error res ty e ctx cache) (gas_error res ty e ctx [])"
  "passes cache (errResult res e ctx cache) (errResult res e ctx [])"
  by (simp_all add: passes_def finish_2300_def finish_2220_def finish_2210_def gas_error_def errResult_def Let_def split_beta
      split: option.splits sum.splits)

lemma if_passes_cache [cache_passed]:
  "passes ca a a0 \<Longrightarrow> passes ca b b0 \<Longrightarrow> passes ca (if g then a else b) (if g then a0 else b0)"
  by simp

lemma charge_then_passes_cache [cache_passed]:
  assumes "\<And>pk res ctx. passes cache (cont pk res ctx) (cont' pk res ctx)"
  shows "passes cache (charge_then need h tx ctx cache c m v cont) (charge_then need h tx ctx [] c m v cont')"
  using assms by (simp add: passes_def charge_then_def Let_def split_beta split: option.splits sum.splits)

lemma main_passes_cache [cache_passed]:
  "passes cache (runVM2300_main h version tx opt v ct ps cache pk res ctx) (runVM2300_main h version tx opt v ct ps [] pk res ctx)"
  using stages_pass_cache(1,4)
  by (simp add: runVM2300_main_def finish_with_gas_def Let_def split_beta split: sum.splits)

lemma prepare_vm_cache:
  assumes "coherent h cache" and pass: "\<And>ct ps ca. passes ca (cont ct ps ca) (cont ct ps [])"
  shows "(prepare_vm (GetContractFromCache h) bc tx ctx cache parsed cont)\<lparr>vo_cache := []\<rparr> =
      (prepare_vm (GetContractFromCache h) bc tx ctx [] parsed cont)\<lparr>vo_cache := []\<rparr>"
    and "coherent h (vo_cache (prepare_vm (GetContractFromCache h) bc tx ctx cache parsed cont))"
proof -
  let ?n = "p_ContractName (tx_Payload tx)"
  obtain r ca where g: "GetContractFromCache h ?n cache = (r, ca)" by force
  obtain r' ca' where g': "GetContractFromCache h ?n [] = (r', ca')" by force
  have eq: "r = h_GetContractByName h ?n" "r' = h_GetContractByName h ?n" "coherent h ca"
    using GetContractFromCache_coherent [OF assms(1), of ?n] GetContractFromCache_coherent [of h "[]" ?n] g g' by simp_all
  have e: "(errResult res e ctx c)\<lparr>vo_cache := []\<rparr> = errResult res e ctx []" "vo_cache (errResult res e ctx c) = c" for res e c
    by (simp_all add: errResult_def)
  define k where "k = (\<lambda>ct ps. (cont ct ps [])\<lparr>vo_cache := []\<rparr>)"
  have c: "(cont ct ps c)\<lparr>vo_cache := []\<rparr> = k ct ps" "vo_cache (cont ct ps c) = c" for ct ps c
    by (subst pass [unfolded passes_def], simp add: k_def)+
  show "(prepare_vm (GetContractFromCache h) bc tx ctx cache parsed cont)\<lparr>vo_cache := []\<rparr> =
      (prepare_vm (GetContractFromCache h) bc tx ctx [] parsed cont)\<lparr>vo_cache := []\<rparr>"
    unfolding prepare_vm_def g g' eq by (simp add: e c split: sum.split option.split)
  show "coherent h (vo_cache (prepare_vm (GetContractFromCache h) bc tx ctx cache parsed cont))"
    unfolding prepare_vm_def g using assms(1) eq(3) by (simp add: e c split: sum.split option.split)
qed

lemma prepare_vm_direct:
  assumes "\<And>ct ps ca. passes ca (cont ct ps ca) (cont ct ps [])"
  shows "passes cache (prepare_vm (getContractDirectly h) bc tx ctx cache parsed cont)
    (prepare_vm (getContractDirectly h) bc tx ctx [] parsed cont)"
  using assms stages_pass_cache(5)
  by (simp add: prepare_vm_def getContractDirectly_def split: sum.split option.split)

lemma passes_coherent:
  assumes "passes cache out out0" and "coherent h cache"
  shows "out\<lparr>vo_cache := []\<rparr> = out0\<lparr>vo_cache := []\<rparr>" and "coherent h (vo_cache out)"
  using assms by (simp_all add: passes_def)

lemma run_vm_cache:
  assumes "coherent h cache"
  shows "(run_vm h version cache v tx ctx)\<lparr>vo_cache := []\<rparr> = (run_vm h version [] v tx ctx)\<lparr>vo_cache := []\<rparr>"
    and "coherent h (vo_cache (run_vm h version cache v tx ctx))"
proof -
  have "passes cache (runVM2220 h version tx ctx opt v cache) (runVM2220 h version tx ctx opt v [])"
    "passes cache (runVM2210 h version tx ctx v cache) (runVM2210 h version tx ctx v [])" for opt
    unfolding runVM2220_def runVM2210_def Let_def by (intro prepare_vm_direct cache_passed)+
  note old = this [THEN passes_coherent(1), OF assms] this [THEN passes_coherent(2), OF assms]
  have "(runVM2300 h version tx ctx opt v cache)\<lparr>vo_cache := []\<rparr> = (runVM2300 h version tx ctx opt v [])\<lparr>vo_cache := []\<rparr>"
    "coherent h (vo_cache (runVM2300 h version tx ctx opt v cache))" for opt
    unfolding runVM2300_def by (intro prepare_vm_cache assms cache_passed)+
  with old show "(run_vm h version cache v tx ctx)\<lparr>vo_cache := []\<rparr> = (run_vm h version [] v tx ctx)\<lparr>vo_cache := []\<rparr>"
    "coherent h (vo_cache (run_vm h version cache v tx ctx))"
    by (simp_all add: run_vm_def)
qed

lemma run_version_cache:
  assumes "coherent h cache"
  shows "(run_version h version cache v tx ctx)\<lparr>vo_cache := []\<rparr> = (run_version h version [] v tx ctx)\<lparr>vo_cache := []\<rparr>"
    and "coherent h (vo_cache (run_version h version cache v tx ctx))"
proof -
  have "(RunVM2300 h tx ctx opt v cache)\<lparr>vo_cache := []\<rparr> = (RunVM2300 h tx ctx opt v [])\<lparr>vo_cache := []\<rparr>"
    "(RunVM2220 h tx ctx opt v cache)\<lparr>vo_cache := []\<rparr> = (RunVM2220 h tx ctx opt v [])\<lparr>vo_cache := []\<rparr>"
    "(RunVM2210 h tx ctx v cache)\<lparr>vo_cache := []\<rparr> = (RunVM2210 h tx ctx v [])\<lparr>vo_cache := []\<rparr>"
    "coherent h (vo_cache (RunVM2300 h tx ctx opt v cache))" "coherent h (vo_cache (RunVM2220 h tx ctx opt v cache))"
    "coherent h (vo_cache (RunVM2210 h tx ctx v cache))" for opt
    unfolding RunVM2300_def RunVM2220_def RunVM2210_def Let_def by (intro prepare_vm_cache assms cache_passed)+
  then show "(run_version h version cache v tx ctx)\<lparr>vo_cache := []\<rparr> = (run_version h version [] v tx ctx)\<lparr>vo_cache := []\<rparr>"
    "coherent h (vo_cache (run_version h version cache v tx ctx))"
    by (simp_all add: run_version_def)
qed

lemma guarded_run_cache:
  assumes "coherent h cache" and "\<And>ctx. (run ctx)\<lparr>vo_cache := []\<rparr> = (run0 ctx)\<lparr>vo_cache := []\<rparr>"
    and "\<And>ctx. coherent h (vo_cache (run ctx))"
  shows "(guarded_run guard run cache)\<lparr>er_cache := []\<rparr> = (guarded_run guard run0 [])\<lparr>er_cache := []\<rparr>"
    and "coherent h (er_cache (guarded_run guard run cache))"
proof -
  have "vo_result (run ctx) = vo_result (run0 ctx)" "vo_ctx (run ctx) = vo_ctx (run0 ctx)"
    "vo_specialTxType (run ctx) = vo_specialTxType (run0 ctx)" "vo_err (run ctx) = vo_err (run0 ctx)" for ctx
    using assms(2) [of ctx] by (cases "run ctx"; cases "run0 ctx"; simp)+
  then show "(guarded_run guard run cache)\<lparr>er_cache := []\<rparr> = (guarded_run guard run0 [])\<lparr>er_cache := []\<rparr>"
    "coherent h (er_cache (guarded_run guard run cache))"
    using assms(1,3) by (simp_all add: guarded_run_def Let_def split: prod.splits)
qed

lemma executeTx_cache:
  assumes "coherent h cache"
  shows "(fst (executeTx h version cache s v tx))\<lparr>er_cache := []\<rparr> = (fst (executeTx h version [] s v tx))\<lparr>er_cache := []\<rparr>"
    and "snd (executeTx h version cache s v tx) = snd (executeTx h version [] s v tx)"
    and "coherent h (er_cache (fst (executeTx h version cache s v tx)))"
proof -
  define er where "er = base_run h version cache s v tx"
  define er0 where "er0 = base_run h version [] s v tx"
  have "er\<lparr>er_cache := []\<rparr> = er0\<lparr>er_cache := []\<rparr>" and coh: "coherent h (er_cache er)"
    unfolding er_def er0_def base_run_def by (rule guarded_run_cache [OF assms run_vm_cache(1) [OF assms] run_vm_cache(2) [OF assms]])+
  then obtain c where er: "er = er0\<lparr>er_cache := c\<rparr>" "coherent h c"
    by (cases er; cases er0; simp)
  have "charge_after h version v tx (er0\<lparr>er_cache := c\<rparr>, s) =
      (let (a, b) = charge_after h version v tx (er0, s) in (a\<lparr>er_cache := c\<rparr>, b))"
    by (simp add: charge_after_def Let_def split_beta split: option.splits)
  then show "(fst (executeTx h version cache s v tx))\<lparr>er_cache := []\<rparr> = (fst (executeTx h version [] s v tx))\<lparr>er_cache := []\<rparr>"
    "snd (executeTx h version cache s v tx) = snd (executeTx h version [] s v tx)"
    "coherent h (er_cache (fst (executeTx h version cache s v tx)))"
    using er by (simp_all add: executeTx_base er_def [symmetric] er0_def [symmetric] split_beta)
qed

lemma er_cache_irrelevant:
  assumes "a\<lparr>er_cache := []\<rparr> = b\<lparr>er_cache := []\<rparr>"
  shows "er_ctx a = er_ctx b" "er_runVmSuccess a = er_runVmSuccess b" "er_specialTxType a = er_specialTxType b" "er_tx a = er_tx b"
  using assms by (cases a; cases b; simp)+

lemma tx_exec_cache:
  assumes "coherent h cache"
  shows "tx_exec h version cache s = tx_exec h version [] s"
  by (simp add: fun_eq_iff tx_exec_def Let_def er_cache_irrelevant [OF executeTx_cache(1) [OF assms]])

lemma vm_exec_cache:
  assumes "coherent h cache"
  shows "vm_exec h version cache = vm_exec h version []" and "coherent h (er_cache (ExecuteTx h version cache v tx))"
proof -
  have run: "(ExecuteTx h version cache v tx)\<lparr>er_cache := []\<rparr> = (ExecuteTx h version [] v tx)\<lparr>er_cache := []\<rparr>"
    "coherent h (er_cache (ExecuteTx h version cache v tx))" for v tx
    unfolding ExecuteTx_def Let_def
    by (rule guarded_run_cache [OF assms run_version_cache(1) [OF assms] run_version_cache(2) [OF assms]])+
  then show "coherent h (er_cache (ExecuteTx h version cache v tx))" by simp
  show "vm_exec h version cache = vm_exec h version []"
    by (simp add: fun_eq_iff vm_exec_def Let_def er_cache_irrelevant [OF run(1)])
qed

section \<open>The result a transaction carries\<close>

abbreviation set_result :: "Result option \<Rightarrow> Transaction \<Rightarrow> Transaction" where
  "set_result r tx \<equiv> tx\<lparr>tx_Result := r\<rparr>"

definition with_res :: "Result option \<Rightarrow> txSimContextImpl \<Rightarrow> txSimContextImpl" where
  "with_res r ctx = ctx\<lparr>sc_tx := set_result r (sc_tx ctx)\<rparr>"

lemma with_res_simps [simp]:
  "sc_frames (with_res r s) = sc_frames s" "sc_blockVersion (with_res r s) = sc_blockVersion s"
  "sc_relyCache (with_res r s) = sc_relyCache s" "sc_txResult (with_res r s) = sc_txResult s"
  "tx_Payload (sc_tx (with_res r s)) = tx_Payload (sc_tx s)"
  "(with_res r s)\<lparr>sc_frames := f\<rparr> = with_res r (s\<lparr>sc_frames := f\<rparr>)"
  by (simp_all add: with_res_def)

lemma with_res_ops:
  "sim_Get v c k (with_res r s) = apsnd (with_res r) (sim_Get v c k s)"
  "sim_Put c k b (with_res r s) = apsnd (with_res r) (sim_Put c k b s)"
  "sim_Del c k (with_res r s) = apsnd (with_res r) (sim_Del c k s)"
  by (simp_all add: sim_Get_def sim_Put_def sim_Del_def putIntoWriteSet_def PutIntoReadSet_def update_current_def
      getFromWriteSet_def getFromReadSet_def getFromRelyCache_def split: option.split sum.split)

lemma with_res_CallContract:
  assumes "\<And>p s. callee p (with_res r s) = apsnd (with_res r) (callee p s)"
  shows "CallContract env callee req (with_res r s) = apsnd (with_res r) (CallContract env callee req s)"
  using assms by (simp add: CallContract_def verifyCallContract_def Let_def split_beta apsnd_def map_prod_def)

lemma with_res_run_with:
  assumes "\<And>req s. call req (with_res r s) = apsnd (with_res r) (call req s)"
  shows "run_with v call p (with_res r s) = apsnd (with_res r) (run_with v call p s)"
  by (induction p arbitrary: s) (simp_all add: with_res_ops assms Let_def split_beta)

lemma with_res_run_depth:
  "run_depth n env v p (with_res r s) = apsnd (with_res r) (run_depth n env v p s)"
  by (induction n arbitrary: p s) (simp_all add: with_res_run_with with_res_CallContract)

lemma with_res_run_prog:
  "run_prog env v p (with_res r s) = apsnd (with_res r) (run_prog env v p s)"
  by (simp add: run_prog_def with_res_run_depth)

text \<open>The payer of a transaction does not depend on its result.\<close>

definition payer_fixed :: "CommonVMHelper \<Rightarrow> Transaction \<Rightarrow> bool" where
  "payer_fixed h tx \<longleftrightarrow> (\<forall>r v. h_payerPk h v (set_result r tx) = h_payerPk h v tx)"

text \<open>A filter that does not look at the result of the transaction.\<close>

definition blind :: "(string \<Rightarrow> string \<Rightarrow> Transaction \<Rightarrow> view \<Rightarrow> bool) \<Rightarrow> bool" where
  "blind need \<longleftrightarrow> (\<forall>c m r tx v. need c m (set_result r tx) v = need c m tx v)"

lemma filter_result [simp]:
  "checkNativeFilter h version c m (set_result r tx) v = checkNativeFilter h version c m tx v"
  "CheckNativeFilter h c m (set_result r tx) v = CheckNativeFilter h c m tx v"
  by (simp_all add: checkNativeFilter_def checkMultiSignFilterOld_def CheckNativeFilter_def)

lemma filters_blind [simp]: "blind (checkNativeFilter h version)" "blind (CheckNativeFilter h)"
  by (simp_all add: blind_def)

lemma no_charge_result [simp]:
  "blind need \<Longrightarrow> no_charge need h c m (set_result r tx) v = no_charge need h c m tx v"
  by (simp add: no_charge_def blind_def)

abbreviation out_res :: "Result option \<Rightarrow> Result \<times> string option \<times> txSimContextImpl \<Rightarrow> Result \<times> string option \<times> txSimContextImpl" where
  "out_res r \<equiv> apsnd (apsnd (with_res r))"

lemma gas_ops_result:
  "blind need \<Longrightarrow> charge_gas need h (set_result r tx) (with_res r ctx) c m pk res v =
     out_res r (charge_gas need h tx ctx c m pk res v)"
  "blind need \<Longrightarrow> refund_gas need h (set_result r tx) (with_res r ctx) c m pk res payload v =
     out_res r (refund_gas need h tx ctx c m pk res payload v)"
  by (simp_all add: charge_gas_def refund_gas_def with_res_run_prog Let_def split_beta split: option.split)

lemma check_refund_result:
  "blind need \<Longrightarrow> check_refund_gas need h (set_result r tx) (with_res r ctx) c m pk res payload opt v =
     out_res r (check_refund_gas need h tx ctx c m pk res payload opt v)"
  by (simp add: check_refund_gas_def gas_ops_result GetTxGasLimit_def Let_def split_beta split: option.split)

definition vm_res :: "Result option \<Rightarrow> vm_outcome \<Rightarrow> vm_outcome" where
  "vm_res r out = out\<lparr>vo_ctx := with_res r (vo_ctx out)\<rparr>"

lemma finish_result:
  assumes "blind need"
  shows "finish_2300 need h (set_result r tx) opt ct cache pk res v (apsnd (with_res r) called) =
     vm_res r (finish_2300 need h tx opt ct cache pk res v called)"
    and "finish_2220 need h (set_result r tx) opt ct cache pk res v (apsnd (with_res r) called) =
     vm_res r (finish_2220 need h tx opt ct cache pk res v called)"
    and "finish_2210 need h (set_result r tx) cache pk res v (apsnd (with_res r) called) =
     vm_res r (finish_2210 need h tx cache pk res v called)"
  by (cases called; simp add: finish_2300_def finish_2220_def finish_2210_def check_refund_result [OF assms]
      gas_ops_result [OF assms] assms [unfolded blind_def] GetTxGasLimit_def vm_res_def Let_def split_beta split: option.split)+

lemma call_result:
  "call_contract_of h (set_result r tx) ct ps g v (with_res r ctx) = apsnd (with_res r) (call_contract_of h tx ct ps g v ctx)"
  by (simp add: call_contract_of_def with_res_run_prog)

lemma charge_then_result:
  assumes "blind need" and "payer_fixed h tx" and "\<And>pk res ctx. cont' pk res (with_res r ctx) = vm_res r (cont pk res ctx)"
  shows "charge_then need h (set_result r tx) (with_res r ctx) cache c m v cont' =
    vm_res r (charge_then need h tx ctx cache c m v cont)"
  using assms
  by (simp add: charge_then_def account_pk_def payer_fixed_def gas_ops_result vm_res_def Let_def split_beta
      split: option.split sum.split)

lemma GetTxRWSet_result [simp]: "GetTxRWSet ok (with_res r ctx) = GetTxRWSet ok ctx"
proof -
  have "collectReadSetAndKey (with_res r ctx) = collectReadSetAndKey ctx"
    "collectWriteSetAndKey (with_res r ctx) = collectWriteSetAndKey ctx"
    "writes_by_contract c (with_res r ctx) = writes_by_contract c ctx" for c
    by (simp_all add: collectReadSetAndKey_def collectWriteSetAndKey_def writes_by_contract_def)
  then show ?thesis
    unfolding GetTxRWSet_def by (simp only: with_res_simps)
qed

lemma gas_calc_result [simp]:
  "calcTxGasUsed h (with_res r ctx) = calcTxGasUsed h ctx"
  "add_calc_gas h (with_res r ctx) code payload = add_calc_gas h ctx code payload"
proof -
  show "calcTxGasUsed h (with_res r ctx) = calcTxGasUsed h ctx"
    by (simp add: calcTxGasUsed_def)
  have "calcTxRWSetGasUsed h (with_res r ctx) ok = calcTxRWSetGasUsed h ctx ok"
    "calcTxEventGasUsed h (with_res r ctx) evs = calcTxEventGasUsed h ctx evs" for ok evs
    by (simp_all add: calcTxRWSetGasUsed_def calcTxEventGasUsed_def split: option.split)
  then show "add_calc_gas h (with_res r ctx) code payload = add_calc_gas h ctx code payload"
    unfolding add_calc_gas_def by (simp only: with_res_simps)
qed

lemma main_result:
  "runVM2300_main h version (set_result r tx) opt v ct ps cache pk res (with_res r ctx) =
     vm_res r (runVM2300_main h version tx opt v ct ps cache pk res ctx)"
proof -
  have "gas_error res ty e (with_res r c) cache = vm_res r (gas_error res ty e c cache)" for ty e c
    by (simp add: gas_error_def vm_res_def)
  moreover have "finish_2300 (checkNativeFilter h version) h (set_result r tx) opt ct cache pk res v (p, with_res r c) =
      vm_res r (finish_2300 (checkNativeFilter h version) h tx opt ct cache pk res v (p, c))" for p c
    using finish_result(1) [of "checkNativeFilter h version" h r tx opt ct cache pk res v "(p, c)"] by simp
  ultimately show ?thesis
    by (simp add: runVM2300_main_def finish_with_gas_def call_result Let_def split_beta split: sum.split)
qed

lemma prepare_vm_result:
  assumes "bc' = bc" and "parsed' = parsed" and "\<And>ct ps ca. cont' ct ps ca = vm_res r (cont ct ps ca)"
  shows "prepare_vm gc bc' (set_result r tx) (with_res r ctx) cache parsed' cont' = vm_res r (prepare_vm gc bc tx ctx cache parsed cont)"
  using assms by (simp add: prepare_vm_def errResult_def vm_res_def split: sum.split option.split prod.split)

lemma run_vm_result:
  assumes "payer_fixed h tx"
  shows "run_vm h version cache v (set_result r tx) (with_res r ctx) = vm_res r (run_vm h version cache v tx ctx)"
proof -
  have "runVM2300 h version (set_result r tx) (with_res r ctx) opt v cache = vm_res r (runVM2300 h version tx ctx opt v cache)" for opt
    unfolding runVM2300_def
    by (rule prepare_vm_result) (simp_all add: assms main_result charge_then_result)
  moreover have "runVM2220 h version (set_result r tx) (with_res r ctx) opt v cache = vm_res r (runVM2220 h version tx ctx opt v cache)" for opt
    unfolding runVM2220_def Let_def
    by (rule prepare_vm_result) (simp_all add: assms charge_then_result call_result finish_result)
  moreover have "getContractBytecode2210 h (set_result r tx) = getContractBytecode2210 h tx"
    by (simp add: fun_eq_iff getContractBytecode2210_def)
  then have "runVM2210 h version (set_result r tx) (with_res r ctx) v cache = vm_res r (runVM2210 h version tx ctx v cache)"
    unfolding runVM2210_def
    by (intro prepare_vm_result) (simp_all add: assms charge_then_result call_result finish_result)
  ultimately show ?thesis
    by (simp add: run_vm_def)
qed

lemma NewTxSimContext_result: "NewTxSimContext (set_result r tx) version = with_res r (NewTxSimContext tx version)"
  by (simp add: NewTxSimContext_def with_res_def)

lemma SetTxResult_result: "SetTxResult x (with_res r ctx) = with_res r (SetTxResult x ctx)"
  by (simp add: SetTxResult_def with_res_def)

lemma guard_tx_result:
  assumes "\<not> IsOptimizeChargeGasEnabled h"
  shows "fst (guard_tx h version s v (set_result r tx)) = fst (guard_tx h version s v tx)"
    and "fst (snd (guard_tx h version s v (set_result r tx))) = with_res r (fst (snd (guard_tx h version s v tx)))"
  using assms
  by (auto simp: guard_tx_def processSenderCollectionIn234_def guardForExecuteTx2300_def guardForExecuteTx2220_def
      NewTxSimContext_result SetTxResult_result Let_def split: option.split)

lemma tx_exec_result:
  assumes "\<not> IsOptimizeChargeGasEnabled h" and "payer_fixed h tx"
  shows "tx_exec h version cache s v (set_result r tx) = tx_exec h version cache s v tx"
proof -
  obtain go ctx t where g: "guard_tx h version s v tx = (go, ctx, t)" by (metis surj_pair)
  obtain t' where g': "guard_tx h version s v (set_result r tx) = (go, with_res r ctx, t')"
    using guard_tx_result [OF assms(1), of version s v r tx] g
    by (cases "guard_tx h version s v (set_result r tx)") simp
  have "er_ctx (base_run h version cache s v (set_result r tx)) = with_res r (er_ctx (base_run h version cache s v tx)) \<and>
      er_runVmSuccess (base_run h version cache s v (set_result r tx)) = er_runVmSuccess (base_run h version cache s v tx)"
    by (simp add: base_run_def guarded_run_def g g' run_vm_result [OF assms(2)] vm_res_def SetTxResult_result Let_def)
  then show ?thesis
    using assms(1) by (simp add: tx_exec_def executeTx_base Let_def)
qed

lemma run_version_result:
  assumes "payer_fixed h tx"
  shows "run_version h version cache v (set_result r tx) (with_res r ctx) = vm_res r (run_version h version cache v tx ctx)"
proof -
  note stage = assms charge_then_result call_result finish_result
  have "RunVM2300 h (set_result r tx) (with_res r ctx) opt v cache = vm_res r (RunVM2300 h tx ctx opt v cache)" for opt
    unfolding RunVM2300_def Let_def by (rule prepare_vm_result) (simp_all add: stage)
  moreover have "RunVM2220 h (set_result r tx) (with_res r ctx) opt v cache = vm_res r (RunVM2220 h tx ctx opt v cache)" for opt
    unfolding RunVM2220_def Let_def by (rule prepare_vm_result) (simp_all add: stage)
  moreover have "RunVM2210 h (set_result r tx) (with_res r ctx) v cache = vm_res r (RunVM2210 h tx ctx v cache)"
    unfolding RunVM2210_def by (rule prepare_vm_result) (simp_all add: stage)
  ultimately show ?thesis by (simp add: run_version_def)
qed

lemma guard_version_result:
  assumes "\<not> IsOptimizeChargeGasEnabled h"
  shows "fst (guard_version h version v (set_result r tx)) = fst (guard_version h version v tx)"
    and "fst (snd (guard_version h version v (set_result r tx))) = with_res r (fst (snd (guard_version h version v tx)))"
  using assms
  by (auto simp: guard_version_def GuardForExecuteTx2300_def GuardForExecuteTx2220_def NewTxSimContext_result
      SetTxResult_result Let_def split: option.split)

lemma vm_exec_result:
  assumes "\<not> IsOptimizeChargeGasEnabled h" and "payer_fixed h tx"
  shows "vm_exec h version cache v (set_result r tx) = vm_exec h version cache v tx"
proof -
  obtain go ctx t where g: "guard_version h version v tx = (go, ctx, t)" by (metis surj_pair)
  obtain t' where g': "guard_version h version v (set_result r tx) = (go, with_res r ctx, t')"
    using guard_version_result [OF assms(1), of version v r tx] g
    by (cases "guard_version h version v (set_result r tx)") simp
  show ?thesis
    by (simp add: vm_exec_def ExecuteTx_run guarded_run_def g g' run_version_result [OF assms(2)] vm_res_def
        SetTxResult_result Let_def)
qed

lemma vm_exec_has_result: "snd (vm_exec h version cache v tx) \<noteq> None"
proof -
  have "fst (guard_version h version v tx) \<or> sc_txResult (fst (snd (guard_version h version v tx))) \<noteq> None"
    by (simp add: guard_version_def GuardForExecuteTx2300_def GuardForExecuteTx2220_def SetTxResult_def Let_def split: option.split)
  then show ?thesis
    by (auto simp: vm_exec_def ExecuteTx_run guarded_run_def SetTxResult_def Let_def split_beta)
qed

end
