(* ===== verification/Bitmap.thy ===== *)
theory Bitmap
  imports Prelude
begin

text \<open>
  The growing bitmaps of \<^verbatim>\<open>common/v2/bitmap\<close>, on which the dependency graph of a block is built, and the set
  interface they implement.
\<close>

unbundle bit_operations_syntax

type_synonym Bitmap = "64 word list"

definition fillLen :: "nat \<Rightarrow> Bitmap \<Rightarrow> Bitmap" where
  "fillLen len b = b @ replicate (len - length b) 0"

definition bitmap_Has :: "nat \<Rightarrow> Bitmap \<Rightarrow> bool" where
  "bitmap_Has num b = (let w = num div 64; i = num mod 64 in w < length b \<and> b ! w AND push_bit i 1 \<noteq> 0)"

definition bitmap_Set :: "nat \<Rightarrow> Bitmap \<Rightarrow> Bitmap" where
  "bitmap_Set num b =
     (let w = num div 64; i = num mod 64; b' = fillLen (w + 1) b
      in if b' ! w AND push_bit i 1 = 0 then b'[w := b' ! w OR push_bit i 1] else b')"

definition bitmap_Or :: "Bitmap \<Rightarrow> Bitmap \<Rightarrow> Bitmap" where
  "bitmap_Or b b2 =
     (let b' = fillLen (length b2) b
      in map (\<lambda>i. if i < length b2 then b' ! i OR b2 ! i else b' ! i) [0..<length b'])"

definition Pos1 :: "Bitmap \<Rightarrow> nat list" where
  "Pos1 b = concat (map (\<lambda>i. if b ! i = 0 then [] else
     map (\<lambda>j. 64 * i + j) (filter (\<lambda>j. b ! i AND push_bit j 1 \<noteq> 0) [0..<64])) [0..<length b])"

section \<open>The set interface\<close>

locale bitset =
  fixes empty :: 'b
    and has :: "nat \<Rightarrow> 'b \<Rightarrow> bool"
    and add :: "nat \<Rightarrow> 'b \<Rightarrow> 'b"
    and join :: "'b \<Rightarrow> 'b \<Rightarrow> 'b"
    and elements :: "'b \<Rightarrow> nat list"
  assumes has_empty: "\<not> has n empty"
    and has_add: "has n (add m b) \<longleftrightarrow> n = m \<or> has n b"
    and has_join: "has n (join b c) \<longleftrightarrow> has n b \<or> has n c"
    and set_elements: "n \<in> set (elements b) \<longleftrightarrow> has n b"
    and sorted_elements: "sorted_wrt (<) (elements b)"
begin

lemma Collect_has:
  "{n. has n empty} = {}" "{n. has n (add m b)} = insert m {n. has n b}"
  "{n. has n (join b c)} = {n. has n b} \<union> {n. has n c}" "set (elements b) = {n. has n b}"
  by (auto simp: has_empty has_add has_join set_elements)

lemma distinct_elements: "distinct (elements b)"
  using sorted_elements [of b] by (simp add: strict_sorted_iff)

end

section \<open>The bitmaps implement it\<close>

lemma Has_iff: "bitmap_Has n b \<longleftrightarrow> n div 64 < length b \<and> bit (b ! (n div 64)) (n mod 64)"
  by (simp add: bitmap_Has_def bit_iff_and_push_bit_not_eq_0 Let_def)

lemma length_fillLen [simp]: "length (fillLen len b) = max len (length b)"
  by (simp add: fillLen_def)

lemma fillLen_bit: "i < max len (length b) \<Longrightarrow> bit (fillLen len b ! i) j \<longleftrightarrow> i < length b \<and> bit (b ! i) j"
  by (auto simp: fillLen_def nth_append)

lemma div_mod_eq: "(n :: nat) = m \<longleftrightarrow> n div 64 = m div 64 \<and> n mod 64 = m mod 64"
  by (metis div_mult_mod_eq)

lemma bitmap_Set_Or: "bitmap_Set m b =
    (let b' = fillLen (m div 64 + 1) b in b'[m div 64 := b' ! (m div 64) OR push_bit (m mod 64) 1])"
proof -
  have "x OR push_bit i 1 = x" if "x AND push_bit i 1 \<noteq> 0" for x :: "64 word" and i
    using that [folded bit_iff_and_push_bit_not_eq_0] by (intro bit_eqI) (auto simp: bit_simps)
  then show ?thesis
    by (auto simp: bitmap_Set_def Let_def)
qed

lemma Has_Set: "bitmap_Has n (bitmap_Set m b) \<longleftrightarrow> n = m \<or> bitmap_Has n b"
proof (cases "n div 64 = m div 64")
  case True
  have "bit (push_bit (m mod 64) (1 :: 64 word)) (n mod 64) \<longleftrightarrow> n mod 64 = m mod 64"
    by (auto simp: bit_simps)
  then show ?thesis
    using True div_mod_eq [of n m]
    by (auto simp: Has_iff bitmap_Set_Or Let_def bit_or_iff fillLen_bit)
next
  case False
  then show ?thesis
    using div_mod_eq [of n m] by (auto simp: Has_iff bitmap_Set_Or Let_def fillLen_bit)
qed

lemma Has_Or: "bitmap_Has n (bitmap_Or b c) \<longleftrightarrow> bitmap_Has n b \<or> bitmap_Has n c"
  by (cases "n div 64 < length c")
    (auto simp: Has_iff bitmap_Or_def Let_def bit_or_iff fillLen_bit less_max_iff_disj)

lemma set_Pos1: "n \<in> set (Pos1 b) \<longleftrightarrow> bitmap_Has n b"
proof -
  have "n \<in> set (Pos1 b) \<longleftrightarrow> (\<exists>i j. n = 64 * i + j \<and> i < length b \<and> j < 64 \<and> bit (b ! i) j)"
    by (fastforce simp: Pos1_def bit_iff_and_push_bit_not_eq_0 split: if_splits)
  also have "\<dots> \<longleftrightarrow> n div 64 < length b \<and> bit (b ! (n div 64)) (n mod 64)"
  proof
    assume "n div 64 < length b \<and> bit (b ! (n div 64)) (n mod 64)"
    then show "\<exists>i j. n = 64 * i + j \<and> i < length b \<and> j < 64 \<and> bit (b ! i) j"
      by (intro exI [of _ "n div 64"] exI [of _ "n mod 64"]) simp
  qed auto
  finally show ?thesis by (simp add: Has_iff)
qed

lemma sorted_wrt_concat_blocks:
  "(\<And>i. i < n \<Longrightarrow> sorted_wrt (<) (f i) \<and> (\<forall>x\<in>set (f i). 64 * i \<le> x \<and> x < 64 * Suc i)) \<Longrightarrow>
     sorted_wrt (<) (concat (map f [0..<n])) \<and> (\<forall>x\<in>set (concat (map f [0..<n])). x < (64 * n :: nat))"
proof (induction n)
  case (Suc n)
  then have "sorted_wrt (<) (concat (map f [0..<n]))" "\<forall>x\<in>set (concat (map f [0..<n])). x < 64 * n"
    "sorted_wrt (<) (f n)" "\<forall>x\<in>set (f n). 64 * n \<le> x \<and> x < 64 * Suc n"
    by auto
  then show ?case
    by (fastforce simp: sorted_wrt_append)
qed simp

lemma sorted_Pos1: "sorted_wrt (<) (Pos1 b)"
proof -
  have "sorted_wrt (<) (map (\<lambda>j. 64 * i + j) (filter P [0..<64]))" for i and P :: "nat \<Rightarrow> bool"
    by (simp add: sorted_wrt_map sorted_wrt_filter)
  then show ?thesis
    unfolding Pos1_def by (intro sorted_wrt_concat_blocks [THEN conjunct1]) auto
qed

interpretation bm: bitset "[] :: Bitmap" bitmap_Has bitmap_Set bitmap_Or Pos1
  by (unfold_locales; (rule Has_Set Has_Or set_Pos1 sorted_Pos1)?) (simp add: Has_iff)

text \<open>A bitmap as a set.\<close>

definition bits :: "Bitmap \<Rightarrow> nat set" where
  "bits b = {n. bitmap_Has n b}"

lemma bits_simps [simp]:
  "bits [] = {}" "bits (bitmap_Set m b) = insert m (bits b)" "bits (bitmap_Or b c) = bits b \<union> bits c"
  "set (Pos1 b) = bits b"
  by (simp_all only: bits_def bm.Collect_has)

lemma Has_bits: "bitmap_Has n b \<longleftrightarrow> n \<in> bits b"
  by (simp add: bits_def)

end
