(* ===== verification/DAG.thy ===== *)
theory DAG
  imports Snapshot Bitmap
begin

text \<open>
  The dependency graph of a block: \<^verbatim>\<open>BuildDAG\<close> of \<^verbatim>\<open>snapshot_impl.go\<close> with its dictionaries of readers and
  writers per key and its reachability bitmaps. Vertex \<open>i\<close> lists the earlier transactions that
  transaction \<open>i\<close> has to wait for. It is shown that every edge is a conflict, that every conflict
  is a path, and that the lists are strictly increasing and point backwards.

  A vertex is optional since a received graph may lack one.
\<close>

type_synonym DAG = "nat list option list"

section \<open>Dictionaries and positions\<close>

record dict_pos =
  readKeyDict :: "string \<Rightarrow> nat list"
  writeKeyDict :: "string \<Rightarrow> nat list"
  readPos :: "nat \<Rightarrow> string \<rightharpoonup> nat"
  writePos :: "nat \<Rightarrow> string \<rightharpoonup> nat"

definition dict_read :: "nat \<Rightarrow> TxRead \<Rightarrow> dict_pos \<Rightarrow> dict_pos" where
  "dict_read i keyForI d =
     (let key = r_Key keyForI in
      d\<lparr>readPos := (readPos d)(i := (readPos d i)(key \<mapsto> length (readKeyDict d key))),
        writePos := (writePos d)(i := (writePos d i)(key \<mapsto> length (writeKeyDict d key))),
        readKeyDict := (readKeyDict d)(key := readKeyDict d key @ [i])\<rparr>)"

definition dict_write :: "nat \<Rightarrow> TxWrite \<Rightarrow> dict_pos \<Rightarrow> dict_pos" where
  "dict_write i keyForI d =
     (let key = w_Key keyForI in
      d\<lparr>writePos := (writePos d)(i := (writePos d i)(key \<mapsto> length (writeKeyDict d key))),
        readPos := (if readPos d i key = None
                    then (readPos d)(i := (readPos d i)(key \<mapsto> length (readKeyDict d key)))
                    else readPos d),
        writeKeyDict := (writeKeyDict d)(key := writeKeyDict d key @ [i])\<rparr>)"

definition dict_tx :: "nat \<Rightarrow> TxRWSet \<Rightarrow> dict_pos \<Rightarrow> dict_pos" where
  "dict_tx i rw d =
     fold (dict_write i) (TxWrites rw) (fold (dict_read i) (TxReads rw)
       (d\<lparr>readPos := (readPos d)(i := Map.empty), writePos := (writePos d)(i := Map.empty)\<rparr>))"

definition buildDictAndPos :: "TxRWSet list \<Rightarrow> dict_pos" where
  "buildDictAndPos rws = fold (\<lambda>i. dict_tx i (rws ! i)) [0..<length rws]
     \<lparr>readKeyDict = (\<lambda>_. []), writeKeyDict = (\<lambda>_. []), readPos = (\<lambda>_. Map.empty), writePos = (\<lambda>_. Map.empty)\<rparr>"

section \<open>Reachability\<close>

text \<open>Indexing a map of positions gives zero for a missing key.\<close>

definition pos_of :: "(string \<rightharpoonup> nat) \<Rightarrow> string \<Rightarrow> nat" where
  "pos_of m key = (case m key of None \<Rightarrow> 0 | Some p \<Rightarrow> p)"

text \<open>One test against a candidate: the pair is the direct and the full reach of the transaction.\<close>

definition reach_candidate :: "(nat \<Rightarrow> Bitmap option) \<Rightarrow> nat \<Rightarrow> Bitmap \<times> Bitmap \<Rightarrow> Bitmap \<times> Bitmap" where
  "reach_candidate reachMap c p =
     (let (directReach, allReach) = p in
      if \<not> bitmap_Has c allReach
      then (bitmap_Set c directReach, case reachMap c of None \<Rightarrow> allReach | Some b \<Rightarrow> bitmap_Or allReach b)
      else p)"

definition read_candidates :: "dict_pos \<Rightarrow> nat \<Rightarrow> TxRead \<Rightarrow> nat list" where
  "read_candidates d i keyForI =
     (let key = r_Key keyForI; writeKeyTxs = writeKeyDict d key; p = pos_of (writePos d i) key in
      if writeKeyTxs = [] then [] else if p \<ge> 1 then [writeKeyTxs ! (p - 1)] else [])"

definition write_candidates :: "dict_pos \<Rightarrow> nat \<Rightarrow> TxWrite \<Rightarrow> nat list" where
  "write_candidates d i keyForI =
     (let key = w_Key keyForI; readKeyTxs = readKeyDict d key; writeKeyTxs = writeKeyDict d key;
          p = pos_of (readPos d i) key; q = pos_of (writePos d i) key in
      (if length readKeyTxs > 0 then map (\<lambda>j. readKeyTxs ! j) (rev [0..<p]) else []) @
      (if writeKeyTxs = [] then [] else if q \<ge> 1 then [writeKeyTxs ! (q - 1)] else []))"

definition buildReachMap ::
    "nat \<Rightarrow> TxRWSet \<Rightarrow> dict_pos \<Rightarrow> (nat \<Rightarrow> Bitmap option) \<Rightarrow> Bitmap \<times> (nat \<Rightarrow> Bitmap option)" where
  "buildReachMap i rw d reachMap =
     (let start = ([], bitmap_Set i []);
          afterReads = fold (\<lambda>r. fold (reach_candidate reachMap) (read_candidates d i r)) (TxReads rw) start;
          (directReach, allReach) = fold (\<lambda>w. fold (reach_candidate reachMap) (write_candidates d i w)) (TxWrites rw) afterReads
      in (directReach, reachMap(i \<mapsto> allReach)))"

definition dag_vertexes :: "TxRWSet list \<Rightarrow> dict_pos \<Rightarrow> nat \<Rightarrow> DAG \<times> (nat \<Rightarrow> Bitmap option)" where
  "dag_vertexes rws d n =
     fold (\<lambda>i (vs, reachMap). let (directReach, reachMap') = buildReachMap i (rws ! i) d reachMap
                              in (vs @ [Some (Pos1 directReach)], reachMap')) [0..<n] ([], Map.empty)"

definition BuildDAG :: "bool \<Rightarrow> TxRWSet list option \<Rightarrow> SnapshotImpl \<Rightarrow> DAG" where
  "BuildDAG isSql table s =
     (let rws = (case table of None \<Rightarrow> txRWSetTable (snap s) | Some t \<Rightarrow> t);
          txCount = length rws
      in if txCount = 0 then []
         else if isSql then map (\<lambda>i. Some (if i \<noteq> 0 then [i - 1] else [])) [0..<txCount]
         else fst (dag_vertexes rws (buildDictAndPos rws) txCount))"

section \<open>What the dictionaries hold\<close>

abbreviation reads_key :: "TxRWSet list \<Rightarrow> string \<Rightarrow> nat \<Rightarrow> bool" where
  "reads_key rws k i \<equiv> k \<in> r_Key ` set (TxReads (rws ! i))"

abbreviation writes_key :: "TxRWSet list \<Rightarrow> string \<Rightarrow> nat \<Rightarrow> bool" where
  "writes_key rws k i \<equiv> k \<in> w_Key ` set (TxWrites (rws ! i))"

text \<open>No transaction has two read records, or two write records, with the same key string.\<close>

definition distinct_keys :: "TxRWSet list \<Rightarrow> bool" where
  "distinct_keys rws \<longleftrightarrow> (\<forall>rw\<in>set rws. distinct (map r_Key (TxReads rw)) \<and> distinct (map w_Key (TxWrites rw)))"

lemma fold_dict_read:
  assumes "distinct (map r_Key rs)"
  shows "readKeyDict (fold (dict_read i) rs d) = (\<lambda>k. readKeyDict d k @ (if k \<in> r_Key ` set rs then [i] else []))"
    and "writeKeyDict (fold (dict_read i) rs d) = writeKeyDict d"
    and "readPos (fold (dict_read i) rs d) = (readPos d)(i := \<lambda>k. if k \<in> r_Key ` set rs then Some (length (readKeyDict d k)) else readPos d i k)"
    and "writePos (fold (dict_read i) rs d) = (writePos d)(i := \<lambda>k. if k \<in> r_Key ` set rs then Some (length (writeKeyDict d k)) else writePos d i k)"
  using assms
  by (induction rs arbitrary: d) (auto simp: dict_read_def Let_def fun_eq_iff)

lemma fold_dict_write:
  assumes "distinct (map w_Key ws)"
  shows "writeKeyDict (fold (dict_write i) ws d) = (\<lambda>k. writeKeyDict d k @ (if k \<in> w_Key ` set ws then [i] else []))"
    and "readKeyDict (fold (dict_write i) ws d) = readKeyDict d"
    and "writePos (fold (dict_write i) ws d) = (writePos d)(i := \<lambda>k. if k \<in> w_Key ` set ws then Some (length (writeKeyDict d k)) else writePos d i k)"
    and "readPos (fold (dict_write i) ws d) = (readPos d)(i := \<lambda>k. if k \<in> w_Key ` set ws \<and> readPos d i k = None then Some (length (readKeyDict d k)) else readPos d i k)"
  using assms
  by (induction ws arbitrary: d) (auto simp: dict_write_def Let_def fun_eq_iff)

definition dict_upto :: "TxRWSet list \<Rightarrow> nat \<Rightarrow> dict_pos" where
  "dict_upto rws n = fold (\<lambda>i. dict_tx i (rws ! i)) [0..<n]
     \<lparr>readKeyDict = (\<lambda>_. []), writeKeyDict = (\<lambda>_. []), readPos = (\<lambda>_. Map.empty), writePos = (\<lambda>_. Map.empty)\<rparr>"

lemma dict_upto_all:
  assumes "distinct_keys rws"
  shows "n \<le> length rws \<Longrightarrow>
    (\<forall>k. readKeyDict (dict_upto rws n) k = filter (reads_key rws k) [0..<n]) \<and>
    (\<forall>k. writeKeyDict (dict_upto rws n) k = filter (writes_key rws k) [0..<n]) \<and>
    (\<forall>i<n. \<forall>k. reads_key rws k i \<or> writes_key rws k i \<longrightarrow>
      readPos (dict_upto rws n) i k = Some (length (filter (reads_key rws k) [0..<i])) \<and>
      writePos (dict_upto rws n) i k = Some (length (filter (writes_key rws k) [0..<i])))"
proof (induction n)
  case (Suc n)
  let ?d = "dict_upto rws n"
  have d: "distinct (map r_Key (TxReads (rws ! n)))" "distinct (map w_Key (TxWrites (rws ! n)))"
    using assms Suc.prems by (auto simp: distinct_keys_def)
  note step = fold_dict_read [OF d(1)] fold_dict_write [OF d(2)]
  have up: "dict_upto rws (Suc n) = dict_tx n (rws ! n) ?d"
    by (simp add: dict_upto_def)
  have IH: "\<And>k. readKeyDict ?d k = filter (reads_key rws k) [0..<n]"
      "\<And>k. writeKeyDict ?d k = filter (writes_key rws k) [0..<n]"
      "\<And>i k. i < n \<Longrightarrow> reads_key rws k i \<or> writes_key rws k i \<Longrightarrow>
        readPos ?d i k = Some (length (filter (reads_key rws k) [0..<i])) \<and>
        writePos ?d i k = Some (length (filter (writes_key rws k) [0..<i]))"
    using Suc by auto
  have "readPos (dict_upto rws (Suc n)) i k = Some (length (filter (reads_key rws k) [0..<i])) \<and>
      writePos (dict_upto rws (Suc n)) i k = Some (length (filter (writes_key rws k) [0..<i]))"
    if "i < Suc n" "reads_key rws k i \<or> writes_key rws k i" for i k
    using that IH(3) [of i k] by (cases "i = n") (auto simp: up dict_tx_def step IH(1,2))
  moreover have "readKeyDict (dict_upto rws (Suc n)) k = filter (reads_key rws k) [0..<Suc n]"
      "writeKeyDict (dict_upto rws (Suc n)) k = filter (writes_key rws k) [0..<Suc n]" for k
    by (simp_all add: up dict_tx_def step IH(1,2))
  ultimately show ?case by blast
qed (simp add: dict_upto_def)

lemma buildDictAndPos_keys:
  assumes "distinct_keys rws"
  shows "readKeyDict (buildDictAndPos rws) k = filter (reads_key rws k) [0..<length rws]"
    and "writeKeyDict (buildDictAndPos rws) k = filter (writes_key rws k) [0..<length rws]"
    and "i < length rws \<Longrightarrow> reads_key rws k i \<or> writes_key rws k i \<Longrightarrow>
      pos_of (readPos (buildDictAndPos rws) i) k = length (filter (reads_key rws k) [0..<i]) \<and>
      pos_of (writePos (buildDictAndPos rws) i) k = length (filter (writes_key rws k) [0..<i])"
proof -
  have "buildDictAndPos rws = dict_upto rws (length rws)"
    by (simp add: buildDictAndPos_def dict_upto_def)
  note * = this dict_upto_all [OF assms, of "length rws", OF order_refl]
  show "readKeyDict (buildDictAndPos rws) k = filter (reads_key rws k) [0..<length rws]"
    and "writeKeyDict (buildDictAndPos rws) k = filter (writes_key rws k) [0..<length rws]"
    using * by simp_all
  show "pos_of (readPos (buildDictAndPos rws) i) k = length (filter (reads_key rws k) [0..<i]) \<and>
      pos_of (writePos (buildDictAndPos rws) i) k = length (filter (writes_key rws k) [0..<i])"
    if "i < length rws" "reads_key rws k i \<or> writes_key rws k i"
  proof -
    have "readPos (buildDictAndPos rws) i k = Some (length (filter (reads_key rws k) [0..<i])) \<and>
        writePos (buildDictAndPos rws) i k = Some (length (filter (writes_key rws k) [0..<i]))"
      using * that by metis
    then show ?thesis by (simp add: pos_of_def)
  qed
qed

text \<open>An entry of a filtered index list before a position is an earlier index.\<close>

lemma filter_upt_take:
  assumes "i \<le> n"
  shows "filter P [0..<n] = filter P [0..<i] @ filter P [i..<n]"
  using assms by (metis filter_append le_add_diff_inverse upt_add_eq_append zero_le)

lemma filter_upt_nth:
  assumes "i \<le> n" and "j < length (filter P [0..<i])"
  shows "filter P [0..<n] ! j = filter P [0..<i] ! j"
  using assms filter_upt_take [OF assms(1), of P] by (simp add: nth_append)

lemma map_nth_rev:
  assumes "i \<le> n"
  shows "map (\<lambda>j. filter P [0..<n] ! j) (rev [0..<length (filter P [0..<i])]) = rev (filter P [0..<i])"
proof -
  have "map (\<lambda>j. filter P [0..<n] ! j) [0..<length (filter P [0..<i])] = filter P [0..<i]"
    using filter_upt_nth [OF assms, of _ P] by (intro nth_equalityI) auto
  then show ?thesis by (simp add: rev_map [symmetric])
qed

text \<open>The last index before \<open>i\<close> with a property, if there is one.\<close>

definition last_before :: "(nat \<Rightarrow> bool) \<Rightarrow> nat \<Rightarrow> nat list" where
  "last_before P i = (let xs = filter P [0..<i] in if xs = [] then [] else [last xs])"

lemma candidates_eq:
  assumes "distinct_keys rws" and "i < length rws"
  shows "r \<in> set (TxReads (rws ! i)) \<Longrightarrow>
      read_candidates (buildDictAndPos rws) i r = last_before (writes_key rws (r_Key r)) i"
    and "w \<in> set (TxWrites (rws ! i)) \<Longrightarrow>
      write_candidates (buildDictAndPos rws) i w =
        rev (filter (reads_key rws (w_Key w)) [0..<i]) @ last_before (writes_key rws (w_Key w)) i"
proof -
  let ?n = "length rws"
  have last: "(if filter P [0..<?n] = [] then [] else if p \<ge> 1 then [filter P [0..<?n] ! (p - 1)] else []) = last_before P i"
    if "p = length (filter P [0..<i])" for P p
    using that filter_upt_take [OF less_imp_le [OF assms(2)], of P] filter_upt_nth [OF less_imp_le [OF assms(2)], of "p - 1" P]
    by (auto simp: last_before_def Let_def last_conv_nth Suc_le_eq)
  note keys = buildDictAndPos_keys [OF assms(1)]
  show "read_candidates (buildDictAndPos rws) i r = last_before (writes_key rws (r_Key r)) i"
    if "r \<in> set (TxReads (rws ! i))"
  proof -
    have "reads_key rws (r_Key r) i" using that by blast
    then show ?thesis
      using keys(3) [OF assms(2), of "r_Key r"] by (simp only: read_candidates_def Let_def keys(2) last simp_thms)
  qed
  show "write_candidates (buildDictAndPos rws) i w =
        rev (filter (reads_key rws (w_Key w)) [0..<i]) @ last_before (writes_key rws (w_Key w)) i"
    if "w \<in> set (TxWrites (rws ! i))"
  proof -
    have "writes_key rws (w_Key w) i" using that by blast
    then have p: "pos_of (readPos (buildDictAndPos rws) i) (w_Key w) = length (filter (reads_key rws (w_Key w)) [0..<i])"
        "pos_of (writePos (buildDictAndPos rws) i) (w_Key w) = length (filter (writes_key rws (w_Key w)) [0..<i])"
      using keys(3) [OF assms(2)] by blast+
    have "(if length (filter P [0..<?n]) > 0 then map (\<lambda>j. filter P [0..<?n] ! j) (rev [0..<length (filter P [0..<i])]) else []) =
        rev (filter P [0..<i])" for P
      using map_nth_rev [OF less_imp_le [OF assms(2)], of P] filter_upt_take [OF less_imp_le [OF assms(2)], of P] by auto
    then show ?thesis
      unfolding write_candidates_def Let_def keys(1,2) p by (simp only: last)
  qed
qed

section \<open>Edges, paths and conflicts\<close>

definition conflict :: "TxRWSet list \<Rightarrow> nat \<Rightarrow> nat \<Rightarrow> bool" where
  "conflict rws i j \<longleftrightarrow>
     (\<exists>k. writes_key rws k i \<and> (reads_key rws k j \<or> writes_key rws k j) \<or> reads_key rws k i \<and> writes_key rws k j)"

definition candidates :: "TxRWSet list \<Rightarrow> nat \<Rightarrow> nat list" where
  "candidates rws i =
     concat (map (\<lambda>r. last_before (writes_key rws (r_Key r)) i) (TxReads (rws ! i))) @
     concat (map (\<lambda>w. rev (filter (reads_key rws (w_Key w)) [0..<i]) @ last_before (writes_key rws (w_Key w)) i)
       (TxWrites (rws ! i)))"

lemma last_before_Suc: "last_before P (Suc i) = (if P i then [i] else last_before P i)"
  by (simp add: last_before_def Let_def)

lemma set_last_before:
  "c \<in> set (last_before P i) \<longleftrightarrow> c < i \<and> P c \<and> (\<forall>j. c < j \<and> j < i \<longrightarrow> \<not> P j)"
proof (induction i)
  case (Suc i)
  then show ?case
    by (auto simp: last_before_Suc less_Suc_eq)
qed (simp add: last_before_def)

lemma last_before_exists: "j < i \<Longrightarrow> P j \<Longrightarrow> \<exists>c\<in>set (last_before P i). j \<le> c"
  by (induction i) (auto simp: last_before_Suc less_Suc_eq)

lemma set_candidates:
  "c \<in> set (candidates rws i) \<longleftrightarrow>
     (\<exists>k. reads_key rws k i \<and> c \<in> set (last_before (writes_key rws k) i)) \<or>
     (\<exists>k. writes_key rws k i \<and> (c < i \<and> reads_key rws k c \<or> c \<in> set (last_before (writes_key rws k) i)))"
  unfolding candidates_def by auto

lemma candidates_conflict:
  assumes "c \<in> set (candidates rws i)"
  shows "c < i \<and> conflict rws i c"
  using assms unfolding set_candidates set_last_before conflict_def by blast

lemma candidates_complete:
  assumes "j < i" and "conflict rws i j"
  shows "\<exists>c\<in>set (candidates rws i). c = j \<or> j < c \<and> conflict rws c j"
proof -
  obtain k where "writes_key rws k i \<and> reads_key rws k j \<or> (writes_key rws k i \<or> reads_key rws k i) \<and> writes_key rws k j"
    using assms(2) unfolding conflict_def by blast
  then show ?thesis
  proof
    assume "writes_key rws k i \<and> reads_key rws k j"
    then have "j \<in> set (candidates rws i)"
      using assms(1) unfolding set_candidates by blast
    then show ?thesis by blast
  next
    assume k: "(writes_key rws k i \<or> reads_key rws k i) \<and> writes_key rws k j"
    then obtain c where c: "c \<in> set (last_before (writes_key rws k) i)" "j \<le> c"
      using last_before_exists [OF assms(1), of "writes_key rws k"] by blast
    then have "c \<in> set (candidates rws i)"
      using k unfolding set_candidates by blast
    moreover have "writes_key rws k c"
      using c(1) unfolding set_last_before by blast
    then have "conflict rws c j"
      using k unfolding conflict_def by blast
    then have "c = j \<or> j < c \<and> conflict rws c j"
      using c(2) by auto
    ultimately show ?thesis by blast
  qed
qed

lemma fold_concat_map: "fold (\<lambda>x. fold f (g x)) xs s = fold f (concat (map g xs)) s"
  by (induction xs arbitrary: s) simp_all

lemma fold_reach_candidate:
  assumes "fold (reach_candidate reachMap) cs (dir, full) = (dir', full')"
    and "\<forall>c\<in>set cs. \<exists>b. reachMap c = Some b \<and> c \<in> bits b"
  shows "\<exists>N\<subseteq>set cs. bits dir' = bits dir \<union> N \<and>
    bits full' = bits full \<union> (\<Union>c\<in>N. bits (the (reachMap c))) \<and> set cs \<subseteq> bits full'"
  using assms
proof (induction cs arbitrary: dir full)
  case (Cons c cs)
  obtain b where b: "reachMap c = Some b" "c \<in> bits b"
    using Cons.prems(2) by auto
  obtain dir1 full1 where step: "reach_candidate reachMap c (dir, full) = (dir1, full1)" by force
  then obtain N where N: "N \<subseteq> set cs" "bits dir' = bits dir1 \<union> N"
      "bits full' = bits full1 \<union> (\<Union>c\<in>N. bits (the (reachMap c)))" "set cs \<subseteq> bits full'"
    using Cons.IH [of dir1 full1] Cons.prems by auto
  show ?case
  proof (cases "bitmap_Has c full")
    case True
    then have "dir1 = dir" "full1 = full"
      using step by (simp_all add: reach_candidate_def)
    then show ?thesis
      using N True by (intro exI [of _ N]) (auto simp: Has_bits)
  next
    case False
    then have "dir1 = bitmap_Set c dir" "full1 = bitmap_Or full b"
      using step b by (simp_all add: reach_candidate_def)
    then show ?thesis
      using N b by (intro exI [of _ "insert c N"]) auto
  qed
qed auto

text \<open>What is known of the vertices and the reachability maps after \<open>n\<close> transactions.\<close>

definition reach_set :: "(nat \<Rightarrow> Bitmap option) \<Rightarrow> nat \<Rightarrow> nat set" where
  "reach_set reachMap i = bits (the (reachMap i))"

definition vertex_ok :: "TxRWSet list \<Rightarrow> DAG \<Rightarrow> (nat \<Rightarrow> Bitmap option) \<Rightarrow> nat \<Rightarrow> bool" where
  "vertex_ok rws vs reachMap i \<longleftrightarrow> reachMap i \<noteq> None \<and>
     (\<exists>ns. vs ! i = Some ns \<and> sorted_wrt (<) ns \<and> set ns \<subseteq> set (candidates rws i) \<and>
       reach_set reachMap i = insert i (\<Union>c\<in>set ns. reach_set reachMap c) \<and>
       set (candidates rws i) \<subseteq> reach_set reachMap i)"

lemma vertex_ok_self: "vertex_ok rws vs reachMap i \<Longrightarrow> \<exists>b. reachMap i = Some b \<and> i \<in> bits b"
  by (auto simp: vertex_ok_def reach_set_def)

lemma buildReachMap_eq:
  assumes "distinct_keys rws" and "i < length rws"
  shows "buildReachMap i (rws ! i) (buildDictAndPos rws) reachMap =
    (let (dir, full) = fold (reach_candidate reachMap) (candidates rws i) ([], bitmap_Set i []) in (dir, reachMap(i \<mapsto> full)))"
proof -
  note c = candidates_eq [OF assms]
  have maps: "map (read_candidates (buildDictAndPos rws) i) (TxReads (rws ! i)) =
        map (\<lambda>r. last_before (writes_key rws (r_Key r)) i) (TxReads (rws ! i))"
      "map (write_candidates (buildDictAndPos rws) i) (TxWrites (rws ! i)) =
        map (\<lambda>w. rev (filter (reads_key rws (w_Key w)) [0..<i]) @ last_before (writes_key rws (w_Key w)) i) (TxWrites (rws ! i))"
    using c by (simp_all cong: map_cong)
  show ?thesis
    unfolding buildReachMap_def fold_concat_map candidates_def Let_def maps fold_append comp_def by (rule refl)
qed

lemma dag_vertexes_Suc:
  assumes "distinct_keys rws" and "n < length rws" and "dag_vertexes rws (buildDictAndPos rws) n = (vs, reachMap)"
    and "fold (reach_candidate reachMap) (candidates rws n) ([], bitmap_Set n []) = (dir, full)"
  shows "dag_vertexes rws (buildDictAndPos rws) (Suc n) = (vs @ [Some (Pos1 dir)], reachMap(n \<mapsto> full))"
  using assms(3,4) by (simp add: dag_vertexes_def buildReachMap_eq [OF assms(1,2)])

lemma dag_vertexes_ok:
  assumes "distinct_keys rws"
  shows "n \<le> length rws \<Longrightarrow> dag_vertexes rws (buildDictAndPos rws) n = (vs, reachMap) \<Longrightarrow>
    length vs = n \<and> (\<forall>i<n. vertex_ok rws vs reachMap i)"
proof (induction n arbitrary: vs reachMap)
  case (Suc n)
  obtain vs0 reach0 where d: "dag_vertexes rws (buildDictAndPos rws) n = (vs0, reach0)" by force
  obtain dir full where f: "fold (reach_candidate reach0) (candidates rws n) ([], bitmap_Set n []) = (dir, full)" by force
  have new: "vs = vs0 @ [Some (Pos1 dir)]" "reachMap = reach0(n \<mapsto> full)"
    using dag_vertexes_Suc [OF assms _ d f] Suc.prems by auto
  have IH: "length vs0 = n" "\<And>i. i < n \<Longrightarrow> vertex_ok rws vs0 reach0 i"
    using Suc.IH [OF _ d] Suc.prems by auto
  have lt: "c < i" if "c \<in> set (candidates rws i)" for c i
    using candidates_conflict [OF that] by blast
  have "\<forall>c\<in>set (candidates rws n). \<exists>b. reach0 c = Some b \<and> c \<in> bits b"
    using vertex_ok_self [OF IH(2)] lt by blast
  from fold_reach_candidate [OF f this] have dir: "bits dir \<subseteq> set (candidates rws n)"
      "bits full = insert n (\<Union>c\<in>bits dir. bits (the (reach0 c)))" "set (candidates rws n) \<subseteq> bits full"
    by auto
  have same: "reach_set reachMap i = reach_set reach0 i" if "i < n" for i
    using that by (simp add: reach_set_def new)
  have "(\<Union>c\<in>bits dir. bits (the (reach0 c))) = (\<Union>c\<in>bits dir. reach_set reachMap c)"
    using dir(1) lt same by (intro SUP_cong) (auto simp: reach_set_def)
  then have "reach_set reachMap n = insert n (\<Union>c\<in>set (Pos1 dir). reach_set reachMap c)"
    using dir(2) by (simp add: reach_set_def new)
  moreover have "vs ! n = Some (Pos1 dir)" "reachMap n = Some full"
    using nth_append_length [of vs0 "Some (Pos1 dir)" "[]"] IH(1) by (simp_all add: new)
  ultimately have "vertex_ok rws vs reachMap n"
    using dir(1,3) sorted_Pos1 [of dir] by (simp add: vertex_ok_def reach_set_def)
  moreover have "vertex_ok rws vs reachMap i" if i: "i < n" for i
  proof -
    obtain ns where ns: "vs0 ! i = Some ns" "sorted_wrt (<) ns" "set ns \<subseteq> set (candidates rws i)"
        "reach_set reach0 i = insert i (\<Union>c\<in>set ns. reach_set reach0 c)"
        "set (candidates rws i) \<subseteq> reach_set reach0 i"
      using IH(2) [OF i] by (auto simp: vertex_ok_def)
    have "reach_set reach0 c = reach_set reachMap c" if "c \<in> set ns" for c
      using ns(3) lt same i that by (metis less_trans subsetD)
    then have "(\<Union>c\<in>set ns. reach_set reach0 c) = (\<Union>c\<in>set ns. reach_set reachMap c)"
      by simp
    then show ?thesis
      using ns i IH same [OF i] by (auto simp: vertex_ok_def new nth_append)
  qed
  ultimately show ?case
    using IH(1) new(1) by (simp add: less_Suc_eq)
qed (simp add: dag_vertexes_def)

definition dag_edges :: "DAG \<Rightarrow> (nat \<times> nat) set" where
  "dag_edges dag = {(i, j). i < length dag \<and> (\<exists>ns. dag ! i = Some ns \<and> j \<in> set ns)}"

lemma reach_path:
  assumes "\<forall>i<length vs. vertex_ok rws vs reachMap i"
  shows "i < length vs \<Longrightarrow> j \<in> reach_set reachMap i \<Longrightarrow> (i, j) \<in> (dag_edges vs)\<^sup>*"
proof (induction i rule: less_induct)
  case (less i)
  then obtain ns where ns: "vs ! i = Some ns" "set ns \<subseteq> set (candidates rws i)"
      "reach_set reachMap i = insert i (\<Union>c\<in>set ns. reach_set reachMap c)"
    using assms by (auto simp: vertex_ok_def)
  show ?case
  proof (cases "j = i")
    case False
    then obtain c where c: "c \<in> set ns" "j \<in> reach_set reachMap c"
      using less.prems(2) ns(3) by auto
    then have "c < i"
      using ns(2) candidates_conflict by blast
    then have "(c, j) \<in> (dag_edges vs)\<^sup>*"
      using less.IH [of c] less.prems(1) c(2) by simp
    moreover have "(i, c) \<in> dag_edges vs"
      using c(1) ns(1) less.prems(1) by (auto simp: dag_edges_def)
    ultimately show ?thesis by (rule converse_rtrancl_into_rtrancl [rotated])
  qed simp
qed

lemma reach_trans:
  assumes "\<forall>i<length vs. vertex_ok rws vs reachMap i"
  shows "i < length vs \<Longrightarrow> c \<in> reach_set reachMap i \<Longrightarrow> j \<in> reach_set reachMap c \<Longrightarrow> j \<in> reach_set reachMap i"
proof (induction i rule: less_induct)
  case (less i)
  then obtain ns where ns: "set ns \<subseteq> set (candidates rws i)"
      "reach_set reachMap i = insert i (\<Union>c\<in>set ns. reach_set reachMap c)"
    using assms by (auto simp: vertex_ok_def)
  show ?case
  proof (cases "c = i")
    case False
    then obtain c' where c': "c' \<in> set ns" "c \<in> reach_set reachMap c'"
      using less.prems(2) ns(2) by auto
    then have "c' < i"
      using ns(1) candidates_conflict by blast
    then have "j \<in> reach_set reachMap c'"
      using less.IH [OF _ _ c'(2) less.prems(3)] less.prems(1) by simp
    then show ?thesis
      using c'(1) ns(2) by blast
  qed (use less.prems(3) in simp)
qed

lemma conflict_reach:
  assumes "\<forall>i<length vs. vertex_ok rws vs reachMap i"
  shows "i < length vs \<Longrightarrow> j < i \<Longrightarrow> conflict rws i j \<Longrightarrow> j \<in> reach_set reachMap i"
proof (induction i rule: less_induct)
  case (less i)
  obtain ns where ns: "reach_set reachMap i = insert i (\<Union>c\<in>set ns. reach_set reachMap c)"
      "set (candidates rws i) \<subseteq> reach_set reachMap i"
    using less.prems(1) assms by (auto simp: vertex_ok_def)
  obtain c where c: "c \<in> set (candidates rws i)" "c = j \<or> j < c \<and> conflict rws c j"
    using candidates_complete [OF less.prems(2,3)] by blast
  show ?case
  proof (cases "c = j")
    case False
    have ci: "c < i" using candidates_conflict [OF c(1)] by blast
    then have "j \<in> reach_set reachMap c"
      using less.IH [of c] c(2) False less.prems(1) by auto
    then show ?thesis
      using reach_trans [OF assms less.prems(1)] c(1) ns(2) by blast
  qed (use c(1) ns(2) in blast)
qed

text \<open>The graph of a table of read-write sets.\<close>

lemma BuildDAG_table:
  assumes "distinct_keys rws"
  obtains reachMap where "length (BuildDAG False (Some rws) s) = length rws"
    and "\<forall>i<length (BuildDAG False (Some rws) s). vertex_ok rws (BuildDAG False (Some rws) s) reachMap i"
proof -
  obtain vs reachMap where d: "dag_vertexes rws (buildDictAndPos rws) (length rws) = (vs, reachMap)" by force
  have "BuildDAG False (Some rws) s = vs"
    using d by (auto simp: BuildDAG_def dag_vertexes_def Let_def)
  then show ?thesis
    using that [of reachMap] dag_vertexes_ok [OF assms order_refl d] by simp
qed

lemma BuildDAG_edges:
  assumes "distinct_keys rws" and "(i, j) \<in> dag_edges (BuildDAG False (Some rws) s)"
  shows "j < i" and "conflict rws i j"
proof -
  obtain reachMap where ok: "\<forall>i<length (BuildDAG False (Some rws) s). vertex_ok rws (BuildDAG False (Some rws) s) reachMap i"
    using BuildDAG_table [OF assms(1)] by blast
  then have "j \<in> set (candidates rws i)"
    using assms(2) by (fastforce simp: dag_edges_def vertex_ok_def)
  then show "j < i" "conflict rws i j"
    using candidates_conflict by blast+
qed

lemma BuildDAG_paths:
  assumes "distinct_keys rws" and "i < length rws" and "j < i" and "conflict rws i j"
  shows "(i, j) \<in> (dag_edges (BuildDAG False (Some rws) s))\<^sup>+"
proof -
  let ?dag = "BuildDAG False (Some rws) s"
  obtain reachMap where ok: "length ?dag = length rws" "\<forall>i<length ?dag. vertex_ok rws ?dag reachMap i"
    using BuildDAG_table [OF assms(1)] by blast
  have "(i, j) \<in> (dag_edges ?dag)\<^sup>*"
    using reach_path [OF ok(2)] conflict_reach [OF ok(2)] assms ok(1) by simp
  then show ?thesis
    using assms(3) by (auto simp: rtrancl_eq_or_trancl)
qed

end
