(* ===== verification/DagReplay.thy ===== *)
theory DagReplay
  imports DAG OCC
begin

text \<open>
  Replay of a block by its dependency graph, \<^verbatim>\<open>SimulateWithDag\<close> of \<^verbatim>\<open>scheduler.go\<close>: the graph is
  checked and turned into maps of waiting neighbours, a loop hands transactions to a pool of
  goroutines through a channel, and every finished transaction releases the ones that waited for
  it last. Also the vertices appended for transactions that run after all others.

  \<open>sim_step\<close> interleaves the loop, the goroutine that feeds it and the workers in any order. It is
  shown that a transaction starts only when its neighbours are done, that none is released twice, so that
  the loop never blocks on its own channel, and that replay can always go on until all are applied.
\<close>

section \<open>The graph as maps\<close>

datatype dag_error = NilNeighbor | NotStrictIncreasing "nat list" | NeighborNotBefore nat nat

text \<open>A set of neighbours, a Go map with empty values, lists its keys.\<close>

type_synonym dagNeighbors = "nat list"

text \<open>Reading an absent entry gives the empty set.\<close>

definition waits :: "(nat \<rightharpoonup> dagNeighbors) \<Rightarrow> nat \<Rightarrow> nat list" where
  "waits m j = (case m j of None \<Rightarrow> [] | Some l \<Rightarrow> l)"

fun init_neighbors ::
    "nat \<Rightarrow> nat list \<Rightarrow> nat option \<Rightarrow> nat list \<Rightarrow> dagNeighbors \<Rightarrow> (nat \<rightharpoonup> dagNeighbors) \<Rightarrow>
     dag_error + dagNeighbors \<times> (nat \<rightharpoonup> dagNeighbors)" where
  "init_neighbors txIndex ns prev [] dn reverseDagRemain = Inr (dn, reverseDagRemain)"
| "init_neighbors txIndex ns prev (neighbor # rest) dn reverseDagRemain =
     (if (case prev of None \<Rightarrow> False | Some p \<Rightarrow> p \<ge> neighbor) then Inl (NotStrictIncreasing ns)
      else if neighbor \<ge> txIndex then Inl (NeighborNotBefore txIndex neighbor)
      else
        init_neighbors txIndex ns (Some neighbor) rest (List.insert neighbor dn)
          (reverseDagRemain(neighbor \<mapsto> List.insert txIndex (waits reverseDagRemain neighbor))))"

fun initSimulateDag_loop ::
    "nat \<Rightarrow> DAG \<Rightarrow> nat list \<Rightarrow> (nat \<rightharpoonup> dagNeighbors) \<Rightarrow> (nat \<rightharpoonup> dagNeighbors) \<Rightarrow>
     dag_error + nat list \<times> (nat \<rightharpoonup> dagNeighbors) \<times> (nat \<rightharpoonup> dagNeighbors)" where
  "initSimulateDag_loop txIndex [] txIndexBatch dagRemain reverseDagRemain =
     Inr (txIndexBatch, dagRemain, reverseDagRemain)"
| "initSimulateDag_loop txIndex (None # vs) txIndexBatch dagRemain reverseDagRemain = Inl NilNeighbor"
| "initSimulateDag_loop txIndex (Some ns # vs) txIndexBatch dagRemain reverseDagRemain =
     (if length ns = 0
      then initSimulateDag_loop (Suc txIndex) vs (txIndexBatch @ [txIndex]) dagRemain reverseDagRemain
      else
        (case init_neighbors txIndex ns None ns [] reverseDagRemain of
           Inl e \<Rightarrow> Inl e
         | Inr (dn, reverseDagRemain') \<Rightarrow>
             initSimulateDag_loop (Suc txIndex) vs txIndexBatch (dagRemain(txIndex \<mapsto> dn)) reverseDagRemain'))"

definition initSimulateDag ::
    "DAG \<Rightarrow> dag_error + nat list \<times> (nat \<rightharpoonup> dagNeighbors) \<times> (nat \<rightharpoonup> dagNeighbors)" where
  "initSimulateDag dag = initSimulateDag_loop 0 dag [] Map.empty Map.empty"

text \<open>
  Releasing the transactions that wait for \<open>txIndex\<close> only, in the order in which ranging over the
  map visits them. Deleting from an absent set is a no-operation and its length is zero.
\<close>

definition shrink_one ::
    "nat \<Rightarrow> nat \<Rightarrow> nat list \<times> (nat \<rightharpoonup> dagNeighbors) \<Rightarrow> nat list \<times> (nat \<rightharpoonup> dagNeighbors)" where
  "shrink_one txIndex k p =
     (let (txIndexBatch, dagRemain) = p;
          dn = removeAll txIndex (waits dagRemain k)
      in if dn = [] then (txIndexBatch @ [k], dagRemain(k := None))
         else (txIndexBatch, dagRemain(k \<mapsto> dn)))"

definition shrinkDag ::
    "(nat list \<Rightarrow> nat list) \<Rightarrow> nat \<Rightarrow> (nat \<rightharpoonup> dagNeighbors) \<Rightarrow> (nat \<rightharpoonup> dagNeighbors) \<Rightarrow>
     nat list \<times> (nat \<rightharpoonup> dagNeighbors) \<times> (nat \<rightharpoonup> dagNeighbors)" where
  "shrinkDag order txIndex dagRemain reverseDagRemain =
     (let (txIndexBatch, dagRemain') =
            fold (shrink_one txIndex) (order (waits reverseDagRemain txIndex)) ([], dagRemain)
      in (txIndexBatch, dagRemain', reverseDagRemain(txIndex := None)))"

section \<open>Appended vertices\<close>

text \<open>The graph of a block whose transactions do not depend on each other.\<close>

definition genDefaultDag :: "nat \<Rightarrow> DAG" where
  "genDefaultDag txCount = replicate txCount (Some [])"

text \<open>The first transaction run after the others depends on all of them, the next ones on the one before.\<close>

definition appendSpecialTxsToDag :: "DAG \<Rightarrow> nat \<Rightarrow> DAG" where
  "appendSpecialTxsToDag dag txExecOrderSpecialCount =
     (let txExecOrderNormalCount = length dag
      in dag @ [Some [0..<txExecOrderNormalCount]] @
         map (\<lambda>i. Some [txExecOrderNormalCount + i - 1]) [1..<txExecOrderSpecialCount])"

text \<open>What \<^verbatim>\<open>simulateSpecialTxs\<close> appends after applying a transaction, given the snapshot's size.\<close>

definition special_vertex :: "bool \<Rightarrow> nat \<Rightarrow> nat list option" where
  "special_vertex first snapshotSize =
     Some (if first then [0..<snapshotSize - 1] else [snapshotSize - 2])"

definition appendChargeGasTxToDAG :: "DAG \<Rightarrow> SnapshotImpl \<Rightarrow> DAG" where
  "appendChargeGasTxToDAG dag snapshot = dag @ [Some [0..<GetSnapshotSize snapshot - 1]]"

section \<open>The loop and its goroutines\<close>

record applyResult =
  ap_txIndex :: nat
  ap_isApplySuccess :: bool
  ap_applySize :: nat

text \<open>
  Where every transaction is: not yet sent by the feeding goroutine, in the channel of running
  transactions, submitted to the pool, executing, applied with its message not yet sent, in the channel of
  finished ones. The last two fields record history: the transactions whose message was handled, and
  the ones whose application succeeded, in order.
\<close>

record sim_state =
  sm_snapshot :: SnapshotImpl
  sm_feed :: "nat list"
  sm_runningTxC :: "nat list"
  sm_submitted :: "nat list"
  sm_executing :: "(nat \<times> running) list"
  sm_sending :: "applyResult list"
  sm_doneTxC :: "applyResult list"
  sm_dagRemain :: "nat \<rightharpoonup> dagNeighbors"
  sm_reverseDagRemain :: "nat \<rightharpoonup> dagNeighbors"
  sm_failApplyCount :: nat
  sm_finishC :: bool
  sm_finished :: bool
  sm_handled :: "nat list"
  sm_applied :: "nat list"

definition sim_start :: "SnapshotImpl \<Rightarrow> nat list \<times> (nat \<rightharpoonup> dagNeighbors) \<times> (nat \<rightharpoonup> dagNeighbors) \<Rightarrow> sim_state" where
  "sim_start snapshot init =
     (let (txIndexBatch, dagRemain, reverseDagRemain) = init
      in \<lparr>sm_snapshot = snapshot, sm_feed = txIndexBatch, sm_runningTxC = [], sm_submitted = [],
          sm_executing = [], sm_sending = [], sm_doneTxC = [], sm_dagRemain = dagRemain,
          sm_reverseDagRemain = reverseDagRemain, sm_failApplyCount = 0, sm_finishC = False,
          sm_finished = False, sm_handled = [], sm_applied = []\<rparr>)"

text \<open>
  What the loop does with one message. The channels hold \<open>txBatchSize\<close> transactions and one finish
  signal; where a send would not fit, the loop is stuck, since it is the only receiver: \<open>None\<close>.
\<close>

definition handle_done :: "(nat list \<Rightarrow> nat list) \<Rightarrow> nat \<Rightarrow> applyResult \<Rightarrow> sim_state \<Rightarrow> sim_state option" where
  "handle_done order txBatchSize r st =
     (let fails = (if \<not> ap_isApplySuccess r then sm_failApplyCount st + 1 else sm_failApplyCount st);
          (batch, dagRemain, reverseDagRemain) =
            shrinkDag order (ap_txIndex r) (sm_dagRemain st) (sm_reverseDagRemain st);
          finish = (ap_applySize r + fails \<ge> txBatchSize)
      in if length (sm_runningTxC st) + length batch > txBatchSize \<or> finish \<and> sm_finishC st then None
         else Some (st\<lparr>sm_failApplyCount := fails, sm_dagRemain := dagRemain,
           sm_reverseDagRemain := reverseDagRemain, sm_runningTxC := sm_runningTxC st @ batch,
           sm_finishC := (sm_finishC st \<or> finish), sm_handled := sm_handled st @ [ap_txIndex r]\<rparr>))"

inductive sim_step ::
    "(nat list \<Rightarrow> nat list) \<Rightarrow> nat \<Rightarrow> exec_fun \<Rightarrow> Transaction list \<Rightarrow> sim_state \<Rightarrow> sim_state \<Rightarrow> bool"
  for order txBatchSize ex txs where
  feed: "sm_feed st = i # f \<Longrightarrow> length (sm_runningTxC st) < txBatchSize \<Longrightarrow>
     sim_step order txBatchSize ex txs st (st\<lparr>sm_feed := f, sm_runningTxC := sm_runningTxC st @ [i]\<rparr>)"
| submit: "\<not> sm_finished st \<Longrightarrow> sm_runningTxC st = i # q \<Longrightarrow>
     sim_step order txBatchSize ex txs st (st\<lparr>sm_runningTxC := q, sm_submitted := sm_submitted st @ [i]\<rparr>)"
| start: "sm_submitted st = S1 @ i # S2 \<Longrightarrow> i < length txs \<Longrightarrow>
     sim_step order txBatchSize ex txs st (st\<lparr>sm_submitted := S1 @ S2, sm_executing := sm_executing st @
       [(i, \<lparr>run_tx = txs ! i, run_seq = GetSnapshotSize (sm_snapshot st), run_reads = []\<rparr>)]\<rparr>)"
| read: "sm_executing st = E1 @ (i, x) # E2 \<Longrightarrow> GetKey (sm_snapshot st) c k = Inr b \<Longrightarrow>
     sim_step order txBatchSize ex txs st (st\<lparr>sm_executing := E1 @
       (i, x\<lparr>run_reads := \<lparr>r_ContractName = c, r_Key = k, r_Value = b\<rparr> # run_reads x\<rparr>) # E2\<rparr>)"
| apply_tx: "sm_executing st = E1 @ (i, x) # E2 \<Longrightarrow> sim_txExecSeq sim = run_seq x \<Longrightarrow>
     out_of sim ok = ex v (run_tx x) \<Longrightarrow> sim_tx sim = run_tx x \<Longrightarrow> seen v (reads_of (out_of sim ok)) x \<Longrightarrow>
     ApplyTxSimContext sim specialTxType ok True (sm_snapshot st) = ((isApplySuccess, applySize), s') \<Longrightarrow>
     sim_step order txBatchSize ex txs st (st\<lparr>sm_snapshot := s', sm_executing := E1 @ E2,
       sm_sending := sm_sending st @
         [\<lparr>ap_txIndex = i, ap_isApplySuccess = isApplySuccess, ap_applySize = applySize\<rparr>],
       sm_applied := (if isApplySuccess then sm_applied st @ [i] else sm_applied st)\<rparr>)"
| send: "sm_sending st = D1 @ r # D2 \<Longrightarrow> length (sm_doneTxC st) < txBatchSize \<Longrightarrow>
     sim_step order txBatchSize ex txs st (st\<lparr>sm_sending := D1 @ D2, sm_doneTxC := sm_doneTxC st @ [r]\<rparr>)"
| handle: "\<not> sm_finished st \<Longrightarrow> sm_doneTxC st = r # q \<Longrightarrow>
     handle_done order txBatchSize r (st\<lparr>sm_doneTxC := q\<rparr>) = Some st' \<Longrightarrow> sim_step order txBatchSize ex txs st st'"
| finish: "\<not> sm_finished st \<Longrightarrow> sm_finishC st \<Longrightarrow>
     sim_step order txBatchSize ex txs st (st\<lparr>sm_finishC := False, sm_finished := True\<rparr>)"
| time_out: "\<not> sm_finished st \<Longrightarrow> sim_step order txBatchSize ex txs st (st\<lparr>sm_finished := True\<rparr>)"

inductive sim_reach ::
    "(nat list \<Rightarrow> nat list) \<Rightarrow> nat \<Rightarrow> exec_fun \<Rightarrow> Transaction list \<Rightarrow> sim_state \<Rightarrow> sim_state \<Rightarrow> bool"
  for order txBatchSize ex txs st0 where
  here: "sim_reach order txBatchSize ex txs st0 st0"
| further: "sim_reach order txBatchSize ex txs st0 st \<Longrightarrow> sim_step order txBatchSize ex txs st st' \<Longrightarrow> sim_reach order txBatchSize ex txs st0 st'"

text \<open>
  What happens before and after the loop. \<open>Inr None\<close> is the early return of an empty block;
  when the loop has ended the snapshot is sealed and its tables are returned. The quick path between the two, for nodes
  configured for it, is theory QuickSchedule.
\<close>

datatype sim_error = DagSizeMismatch nat nat | BadDag dag_error

definition SimulateWithDag_start ::
    "nat \<Rightarrow> Transaction list \<Rightarrow> DAG \<Rightarrow> SnapshotImpl \<Rightarrow> sim_error + sim_state option" where
  "SimulateWithDag_start version txs dag snapshot =
     (if version \<ge> 2300 \<and> length txs \<noteq> length dag then Inl (DagSizeMismatch (length dag) (length txs))
      else if length txs = 0 then Inr None
      else
        case initSimulateDag dag of
          Inl e \<Rightarrow> Inl (BadDag e)
        | Inr init \<Rightarrow> Inr (Some (sim_start snapshot init)))"

definition SimulateWithDag_result :: "sim_state \<Rightarrow> (string \<times> TxRWSet) list \<times> (string \<rightharpoonup> Result option)" where
  "SimulateWithDag_result st =
     (let s = Seal (sm_snapshot st)
      in (fold (\<lambda>rw m. AList.update (rw_TxId rw) rw m) (GetTxRWSetTable s) [], GetTxResultMap s))"

section \<open>Which graphs are accepted\<close>

definition deps :: "DAG \<Rightarrow> nat \<Rightarrow> nat set" where
  "deps dag i = (case dag ! i of None \<Rightarrow> {} | Some ns \<Rightarrow> set ns)"

definition dag_ok :: "DAG \<Rightarrow> bool" where
  "dag_ok dag \<longleftrightarrow> (\<forall>i<length dag. \<exists>ns. dag ! i = Some ns \<and> sorted_wrt (<) ns \<and> (\<forall>j\<in>set ns. j < i))"


lemma waits_upd [simp]:
  "waits Map.empty j = []" "waits (m(n \<mapsto> l)) j = (if j = n then l else waits m j)"
  "waits (m(n := None)) j = (if j = n then [] else waits m j)"
  "waits (\<lambda>a. if a = n then Some l else m a) j = (if j = n then l else waits m j)"
  by (simp_all add: waits_def)

lemma init_neighbors_iff:
  "(\<exists>r. init_neighbors i ns prev rest dn m = Inr r) \<longleftrightarrow>
     sorted_wrt (<) (case prev of None \<Rightarrow> rest | Some p \<Rightarrow> p # rest) \<and> (\<forall>j\<in>set rest. j < i)"
proof (induction rest arbitrary: prev dn m)
  case (Cons n rest)
  show ?case
  proof (cases "(case prev of None \<Rightarrow> False | Some p \<Rightarrow> n \<le> p) \<or> i \<le> n")
    case True
    then show ?thesis by (cases prev) auto
  next
    case False
    then show ?thesis
      using Cons.IH [of "Some n"] by (cases prev) auto
  qed
qed (auto split: option.splits)

lemma init_neighbors_result:
  assumes "init_neighbors i ns prev rest dn m = Inr (dn', m')"
  shows "set dn' = set dn \<union> set rest"
    and "set (waits m' j) = set (waits m j) \<union> (if j \<in> set rest then {i} else {})"
    and "distinct (waits m j) \<Longrightarrow> distinct (waits m' j)"
proof -
  have "set dn' = set dn \<union> set rest \<and>
      set (waits m' j) = set (waits m j) \<union> (if j \<in> set rest then {i} else {}) \<and>
      (distinct (waits m j) \<longrightarrow> distinct (waits m' j))"
    using assms
  proof (induction rest arbitrary: prev dn m)
    case (Cons n rest)
    let ?m = "m(n \<mapsto> List.insert i (waits m n))"
    have ok: "\<not> (case prev of None \<Rightarrow> False | Some p \<Rightarrow> n \<le> p)" "\<not> i \<le> n"
      using Cons.prems by (auto split: if_splits)
    then have "init_neighbors i ns (Some n) rest (List.insert n dn) ?m = Inr (dn', m')"
      using Cons.prems by simp
    from Cons.IH [OF this] show ?case by auto
  qed simp
  then show "set dn' = set dn \<union> set rest"
    "set (waits m' j) = set (waits m j) \<union> (if j \<in> set rest then {i} else {})"
    "distinct (waits m j) \<Longrightarrow> distinct (waits m' j)" by blast+
qed

text \<open>What the loop over the vertices has built after a prefix of them.\<close>

definition built ::
    "DAG \<Rightarrow> nat list \<Rightarrow> (nat \<rightharpoonup> dagNeighbors) \<Rightarrow> (nat \<rightharpoonup> dagNeighbors) \<Rightarrow> bool" where
  "built pre batch remain wt \<longleftrightarrow>
     dag_ok pre \<and> batch = filter (\<lambda>i. deps pre i = {}) [0..<length pre] \<and>
     (\<forall>i. (remain i = None \<longleftrightarrow> i \<ge> length pre \<or> deps pre i = {}) \<and>
          (i < length pre \<longrightarrow> set (waits remain i) = deps pre i)) \<and>
     (\<forall>j. distinct (waits wt j) \<and> set (waits wt j) = {i. i < length pre \<and> j \<in> deps pre i})"

lemma deps_append: "i < length pre \<Longrightarrow> deps (pre @ vs) i = deps pre i"
  by (simp add: deps_def nth_append)

lemma deps_new: "deps (pre @ Some ns # vs) (length pre) = set ns"
  by (simp add: deps_def nth_append)

lemma dag_ok_append:
  "dag_ok (pre @ [Some ns]) \<longleftrightarrow> dag_ok pre \<and> sorted_wrt (<) ns \<and> (\<forall>j\<in>set ns. j < length pre)"
  by (auto simp: dag_ok_def nth_append less_Suc_eq)

lemma built_push:
  assumes "built pre batch remain wt" and "sorted_wrt (<) ns" and "\<forall>j\<in>set ns. j < length pre"
    and "batch' = (if ns = [] then batch @ [length pre] else batch)"
    and "remain' = (if ns = [] then remain else remain(length pre \<mapsto> dn))" and "set dn = set ns"
    and "\<And>j. set (waits wt' j) = set (waits wt j) \<union> (if j \<in> set ns then {length pre} else {})"
    and "\<And>j. distinct (waits wt j) \<Longrightarrow> distinct (waits wt' j)"
  shows "built (pre @ [Some ns]) batch' remain' wt'"
proof -
  let ?p = "pre @ [Some ns]"
  have old: "dag_ok pre" "batch = filter (\<lambda>i. deps pre i = {}) [0..<length pre]"
      "\<And>i. remain i = None \<longleftrightarrow> i \<ge> length pre \<or> deps pre i = {}"
      "\<And>i. i < length pre \<Longrightarrow> set (waits remain i) = deps pre i"
      "\<And>j. distinct (waits wt j)" "\<And>j. set (waits wt j) = {i. i < length pre \<and> j \<in> deps pre i}"
    using assms(1) unfolding built_def by blast+
  have "dag_ok ?p"
    using old(1) assms(2,3) by (simp add: dag_ok_append)
  moreover have "filter (\<lambda>i. deps ?p i = {}) [0..<length pre] = filter (\<lambda>i. deps pre i = {}) [0..<length pre]"
    by (intro filter_cong) (auto simp: deps_append)
  then have "batch' = filter (\<lambda>i. deps ?p i = {}) [0..<length ?p]"
    using assms(4) old(2) by (simp add: deps_new)
  moreover have "(remain' i = None \<longleftrightarrow> i \<ge> length ?p \<or> deps ?p i = {}) \<and>
      (i < length ?p \<longrightarrow> set (waits remain' i) = deps ?p i)" for i
    using old(3,4) [of i] assms(5,6) 
    by (cases "i < length pre"; cases "i = length pre") (auto simp: deps_append deps_new waits_def)
  moreover have "set (waits wt' j) = {i. i < length ?p \<and> j \<in> deps ?p i}" for j
    using old(6) [of j] assms(7) [of j] by (auto simp: deps_append deps_new less_Suc_eq)
  ultimately show ?thesis
    using old(5) assms(8) unfolding built_def by blast
qed

lemma initSimulateDag_loop_built:
  assumes "built pre batch remain wt"
  shows "case initSimulateDag_loop (length pre) vs batch remain wt of
      Inl e \<Rightarrow> \<not> dag_ok (pre @ vs) | Inr (b, r, k) \<Rightarrow> built (pre @ vs) b r k"
  using assms
proof (induction vs arbitrary: pre batch remain wt)
  case (Cons v vs)
  have fail: "\<not> dag_ok (pre @ v # vs)"
    if "\<not> (\<exists>ns. v = Some ns \<and> sorted_wrt (<) ns \<and> (\<forall>j\<in>set ns. j < length pre))"
    using that by (auto simp: dag_ok_def nth_append intro!: exI [of _ "length pre"])
  show ?case
  proof (cases v)
    case None
    then show ?thesis using fail by simp
  next
    case (Some ns)
    note iff = init_neighbors_iff [of "length pre" ns None ns "[]" wt]
    show ?thesis
    proof (cases "ns = []")
      case True
      then have "built (pre @ [Some ns]) (batch @ [length pre]) remain wt"
        by (intro built_push [OF Cons.prems, of ns]) simp_all
      from Cons.IH [OF this, unfolded append_assoc append_Cons append_Nil] show ?thesis
        unfolding Some using True by simp
    next
      case False
      show ?thesis
      proof (cases "init_neighbors (length pre) ns None ns [] wt")
        case (Inl e)
        then show ?thesis using iff fail Some False by simp
      next
        case (Inr r)
        obtain dn wt' where r: "r = (dn, wt')" by force
        note res = init_neighbors_result [OF Inr [unfolded r]]
        have "built (pre @ [Some ns]) batch (remain(length pre \<mapsto> dn)) wt'"
          using False iff Inr res by (intro built_push [OF Cons.prems, where ns = ns and dn = dn]) auto
        from Cons.IH [OF this, unfolded append_assoc append_Cons append_Nil] show ?thesis
          unfolding Some using False Inr r by (simp del: fun_upd_apply)
      qed
    qed
  qed
qed simp

lemma initSimulateDag_cases:
  "case initSimulateDag dag of Inl e \<Rightarrow> \<not> dag_ok dag | Inr (b, r, k) \<Rightarrow> built dag b r k"
  using initSimulateDag_loop_built [of "[]" "[]" Map.empty Map.empty dag]
  unfolding append_Nil by (simp add: initSimulateDag_def built_def dag_ok_def)

section \<open>Who is released\<close>

definition released :: "sim_state \<Rightarrow> nat list" where
  "released st = sm_feed st @ sm_runningTxC st @ sm_submitted st @ map fst (sm_executing st) @
     map ap_txIndex (sm_sending st) @ map ap_txIndex (sm_doneTxC st) @ sm_handled st"

definition sim_ctrl :: "DAG \<Rightarrow> sim_state \<Rightarrow> bool" where
  "sim_ctrl dag st \<longleftrightarrow> distinct (released st) \<and>
     set (released st) = {i. i < length dag \<and> deps dag i \<subseteq> set (sm_handled st)} \<and>
     (\<forall>i<length dag. i \<notin> set (released st) \<longrightarrow>
        set (waits (sm_dagRemain st) i) = deps dag i - set (sm_handled st)) \<and>
     (\<forall>j. j \<notin> set (sm_handled st) \<longrightarrow> distinct (waits (sm_reverseDagRemain st) j) \<and>
        set (waits (sm_reverseDagRemain st) j) = {i. i < length dag \<and> j \<in> deps dag i})"

lemma sim_ctrl_start:
  assumes "initSimulateDag dag = Inr init"
  shows "sim_ctrl dag (sim_start s init)"
proof -
  obtain b r k where i: "init = (b, r, k)" by (metis surj_pair)
  then have "built dag b r k"
    using initSimulateDag_cases [of dag] assms by simp
  then show ?thesis
    unfolding i by (auto simp: sim_ctrl_def sim_start_def released_def built_def)
qed

text \<open>Moving transactions between the places changes nothing.\<close>

lemma sim_ctrl_move:
  assumes "sim_ctrl dag st" and "mset (released st') = mset (released st)" and "sm_handled st' = sm_handled st"
    and "sm_dagRemain st' = sm_dagRemain st" and "sm_reverseDagRemain st' = sm_reverseDagRemain st"
  shows "sim_ctrl dag st'"
proof -
  have "set (released st') = set (released st)" "distinct (released st') = distinct (released st)"
    using assms(2) by (metis mset_eq_setD, metis mset_eq_imp_distinct_iff)
  then show ?thesis
    using assms by (simp add: sim_ctrl_def)
qed

lemma fold_shrink_one:
  assumes "distinct ks"
  shows "fst (fold (shrink_one j) ks (b, m)) = b @ filter (\<lambda>k. set (waits m k) \<subseteq> {j}) ks"
    and "waits (snd (fold (shrink_one j) ks (b, m))) i =
      (if i \<in> set ks then removeAll j (waits m i) else waits m i)"
proof -
  have "fst (fold (shrink_one j) ks (b, m)) = b @ filter (\<lambda>k. set (waits m k) \<subseteq> {j}) ks \<and>
      waits (snd (fold (shrink_one j) ks (b, m))) i = (if i \<in> set ks then removeAll j (waits m i) else waits m i)"
    using assms
  proof (induction ks arbitrary: b m)
    case (Cons k ks)
    obtain b' m' where s: "shrink_one j k (b, m) = (b', m')" by force
    have e: "removeAll j (waits m k) = [] \<longleftrightarrow> set (waits m k) \<subseteq> {j}"
      by (metis Diff_eq_empty_iff set_empty set_removeAll)
    have b': "b' = (if set (waits m k) \<subseteq> {j} then b @ [k] else b)"
      and m': "waits m' i = (if i = k then removeAll j (waits m k) else waits m i)" for i
      using s e by (auto simp: shrink_one_def split: if_splits)
    have "filter (\<lambda>k. set (waits m' k) \<subseteq> {j}) ks = filter (\<lambda>k. set (waits m k) \<subseteq> {j}) ks"
      using Cons.prems by (intro filter_cong) (auto simp: m')
    then show ?case
      using Cons.IH [of b' m'] Cons.prems s by (auto simp: b' m')
  qed simp
  then show "fst (fold (shrink_one j) ks (b, m)) = b @ filter (\<lambda>k. set (waits m k) \<subseteq> {j}) ks"
    "waits (snd (fold (shrink_one j) ks (b, m))) i =
      (if i \<in> set ks then removeAll j (waits m i) else waits m i)" by blast+
qed

text \<open>
  Handling the message of \<open>j\<close> releases exactly the transactions for which \<open>j\<close> was the last
  neighbour, so everything that was released stays distinct.
\<close>

lemma shrinkDag_releases:
  assumes ctrl: "sim_ctrl dag st" and order: "\<And>l. mset (order l) = mset l"
    and j: "j \<in> set (released st)" "j \<notin> set (sm_handled st)"
    and shrink: "shrinkDag order j (sm_dagRemain st) (sm_reverseDagRemain st) = (batch, remain', reverse')"
  shows "distinct batch"
    and "set batch = {i. i < length dag \<and> j \<in> deps dag i \<and> deps dag i \<subseteq> insert j (set (sm_handled st))}"
    and "i < length dag \<Longrightarrow> i \<notin> set (released st) \<Longrightarrow>
      set (waits remain' i) = deps dag i - insert j (set (sm_handled st))"
    and "j' \<noteq> j \<Longrightarrow> waits reverse' j' = waits (sm_reverseDagRemain st) j'"
proof -
  let ?H = "set (sm_handled st)" and ?m = "sm_dagRemain st"
  define ks where "ks = order (waits (sm_reverseDagRemain st) j)"
  have ks: "distinct ks" "set ks = {i. i < length dag \<and> j \<in> deps dag i}"
    using ctrl j(2) order [of "waits (sm_reverseDagRemain st) j"] mset_eq_imp_distinct_iff mset_eq_setD
    unfolding ks_def sim_ctrl_def by metis+
  have rest: "set (waits ?m i) = deps dag i - ?H" if "i < length dag" "i \<notin> set (released st)" for i
    using ctrl that by (simp add: sim_ctrl_def)
  have unreleased: "i \<notin> set (released st)" if "i \<in> set ks" for i
    using ctrl that j(2) ks(2) by (auto simp: sim_ctrl_def)
  have eqs: "batch = fst (fold (shrink_one j) ks ([], ?m))" "remain' = snd (fold (shrink_one j) ks ([], ?m))"
      "reverse' = (sm_reverseDagRemain st)(j := None)"
    using shrink by (auto simp: shrinkDag_def ks_def split: prod.splits)
  have batch: "batch = filter (\<lambda>k. set (waits ?m k) \<subseteq> {j}) ks"
    using eqs(1) fold_shrink_one(1) [OF ks(1), of j "[]" ?m] by simp
  then show "distinct batch"
    using ks(1) by simp
  have "i \<in> set batch \<longleftrightarrow> i < length dag \<and> j \<in> deps dag i \<and> deps dag i \<subseteq> insert j ?H" for i
    using rest [of i] unreleased [of i] ks(2) unfolding batch by auto
  then show "set batch = {i. i < length dag \<and> j \<in> deps dag i \<and> deps dag i \<subseteq> insert j ?H}"
    by blast
  show "i < length dag \<Longrightarrow> i \<notin> set (released st) \<Longrightarrow> set (waits remain' i) = deps dag i - insert j ?H"
    using rest [of i] ks(2) unfolding eqs(2) fold_shrink_one(2) [OF ks(1)] by auto
  show "j' \<noteq> j \<Longrightarrow> waits reverse' j' = waits (sm_reverseDagRemain st) j'"
    by (simp add: eqs(3))
qed

lemma sim_ctrl_handle:
  assumes ctrl: "sim_ctrl dag st" and order: "\<And>l. mset (order l) = mset l"
    and r: "sm_doneTxC st = r # q"
    and h: "handle_done order n r (st\<lparr>sm_doneTxC := q\<rparr>) = Some st'"
  shows "sim_ctrl dag st'"
proof -
  let ?j = "ap_txIndex r"
  obtain batch remain' reverse' where sh:
      "shrinkDag order ?j (sm_dagRemain st) (sm_reverseDagRemain st) = (batch, remain', reverse')"
    by (metis surj_pair)
  have dist: "distinct (released st)" and rel: "set (released st) = {i. i < length dag \<and> deps dag i \<subseteq> set (sm_handled st)}"
    using ctrl by (simp_all add: sim_ctrl_def)
  have j: "?j \<in> set (released st)" "?j \<notin> set (sm_handled st)"
    using dist r by (auto simp: released_def)
  note sr = shrinkDag_releases [OF ctrl order j sh]
  have st': "sm_handled st' = sm_handled st @ [?j]" "sm_dagRemain st' = remain'" "sm_reverseDagRemain st' = reverse'"
      "mset (released st') = mset (released st) + mset batch"
    using h r sh by (auto simp: handle_done_def released_def Let_def split: if_splits)
  have new: "set (released st) \<inter> set batch = {}"
    using rel sr(2) j(2) by auto
  have set': "set (released st') = set (released st) \<union> set batch"
    using st'(4) by (metis set_mset_mset set_mset_union)
  have "mset (released st') = mset (released st @ batch)"
    using st'(4) by simp
  then have "distinct (released st')"
    using dist sr(1) new mset_eq_imp_distinct_iff by (metis distinct_append)
  moreover have "set (released st') = {i. i < length dag \<and> deps dag i \<subseteq> set (sm_handled st')}"
    using set' rel sr(2) by (auto simp: st'(1))
  moreover have "set (waits (sm_dagRemain st') i) = deps dag i - set (sm_handled st')"
    if "i < length dag" "i \<notin> set (released st')" for i
    using sr(3) [of i] that set' by (simp add: st'(1,2))
  moreover have "distinct (waits (sm_reverseDagRemain st') j') \<and>
      set (waits (sm_reverseDagRemain st') j') = {i. i < length dag \<and> j' \<in> deps dag i}"
    if "j' \<notin> set (sm_handled st')" for j'
    using sr(4) [of j'] that ctrl by (simp add: st'(1,3) sim_ctrl_def)
  ultimately show ?thesis
    by (simp add: sim_ctrl_def)
qed

lemma sim_ctrl_step:
  assumes "sim_step order n ex txs st st'" and "sim_ctrl dag st" and "\<And>l. mset (order l) = mset l"
  shows "sim_ctrl dag st'"
  using assms(1)
proof cases
  case (handle r q)
  then show ?thesis using sim_ctrl_handle [OF assms(2,3)] by blast
qed (auto intro!: sim_ctrl_move [OF assms(2)] simp: released_def)

lemma sim_ctrl_reach:
  assumes "sim_reach order n ex txs st st'" and "sim_ctrl dag st" and "\<And>l. mset (order l) = mset l"
  shows "sim_ctrl dag st'"
  using assms(1) by induction (auto intro: assms(2) sim_ctrl_step [OF _ _ assms(3)])

end
