(* ===== verification/DagReplay_Serial.thy ===== *)
theory DagReplay_Serial
  imports DagReplay
begin

text \<open>
  Replay by the dependency graph reproduces the block. If the graph has a path for every conflict
  between the read-write sets of the block's serial execution, then however the goroutines
  interleave, every execution sees the values it saw there, every application succeeds, and the
  tables hold the read-write sets and results of the serial execution.
\<close>

section \<open>The serial execution\<close>

definition view_at :: "view \<Rightarrow> outcome list \<Rightarrow> nat \<Rightarrow> view" where
  "view_at v0 outs i = apply_writes v0 (concat (map (\<lambda>j. writes_of (outs ! j)) [0..<i]))"

lemma serial_run_view_at:
  assumes "serial_run ex v0 txs = (outs, v)" and "i < length txs"
  shows "outs ! i = ex (view_at v0 outs i) (txs ! i)"
  using assms
proof (induction txs arbitrary: v0 outs v i)
  case (Cons t ts)
  obtain outs' where o: "outs = ex v0 t # outs'"
      "serial_run ex (apply_writes v0 (writes_of (ex v0 t))) ts = (outs', v)"
    using Cons.prems(1) by (auto simp: Let_def split: prod.splits)
  show ?case
  proof (cases i)
    case 0
    then show ?thesis by (simp add: o view_at_def)
  next
    case (Suc j)
    have "view_at v0 outs i = view_at (apply_writes v0 (writes_of (ex v0 t))) outs' j"
      unfolding view_at_def Suc o(1) upt_conv_Cons [OF zero_less_Suc]
      by (simp add: map_Suc_upt [symmetric] comp_def apply_writes_append del: upt_Suc)
    then show ?thesis
      using Cons.IH [OF o(2), of j] Cons.prems(2) Suc by (simp add: o(1))
  qed
qed simp

lemma total_view_at: "total_view v0 \<Longrightarrow> total_view (view_at v0 outs i)"
  by (auto simp: view_at_def)

text \<open>The value of a key depends on its writers only.\<close>

lemma apply_writes_writers:
  "apply_writes v (concat (map w xs)) c k =
     apply_writes v (concat (map w (filter (\<lambda>i. constructKey c k \<in> wkey ` set (w i)) xs))) c k"
proof (induction xs rule: rev_induct)
  case (snoc i xs)
  let ?fk = "constructKey c k"
  show ?case
  proof (cases "?fk \<in> wkey ` set (w i)")
    case True
    then have "map_of (rev (map wkv (w i))) ?fk \<noteq> None"
      by (auto simp: map_of_eq_None_iff image_iff)
    then show ?thesis
      using True by (auto simp: apply_writes_append) (auto simp: apply_writes_def)
  next
    case False
    then show ?thesis
      using snoc apply_writes_other [of c k "w i"] by (simp add: apply_writes_append)
  qed
qed simp

section \<open>Graphs that cover the conflicts\<close>

definition dag_covers :: "DAG \<Rightarrow> TxRWSet list \<Rightarrow> bool" where
  "dag_covers dag rws \<longleftrightarrow> dag_ok dag \<and> length dag = length rws \<and>
     (\<forall>i<length rws. \<forall>j<i. conflict rws i j \<longrightarrow> (i, j) \<in> (dag_edges dag)\<^sup>+)"

lemma conflict_sym: "conflict rws i j \<longleftrightarrow> conflict rws j i"
  unfolding conflict_def by blast

lemma dag_edges_deps: "(i, j) \<in> dag_edges dag \<longleftrightarrow> i < length dag \<and> j \<in> deps dag i"
  by (auto simp: dag_edges_def deps_def split: option.splits)

lemma released_path:
  assumes "sim_ctrl dag st" and "(i, j) \<in> (dag_edges dag)\<^sup>+" and "i \<in> set (released st)"
  shows "j \<in> set (sm_handled st)"
  using assms(2,3)
proof (induction rule: converse_trancl_induct)
  case (base i)
  then show ?case using assms(1) by (auto simp: dag_edges_deps sim_ctrl_def)
next
  case (step i m)
  then have "m \<in> set (sm_handled st)"
    using assms(1) by (auto simp: dag_edges_deps sim_ctrl_def)
  then show ?case using step.IH by (simp add: released_def)
qed

definition rw_pairs :: "TxRWSet list \<Rightarrow> (string \<times> string) set" where
  "rw_pairs rws = (\<Union>rw\<in>set rws. read_pair ` set (TxReads rw) \<union> (\<lambda>w. (w_ContractName w, w_Key w)) ` set (TxWrites rw))"

lemma rw_pairsI:
  "i < length rws \<Longrightarrow> r \<in> set (TxReads (rws ! i)) \<Longrightarrow> read_pair r \<in> rw_pairs rws"
  "i < length rws \<Longrightarrow> w \<in> set (TxWrites (rws ! i)) \<Longrightarrow> (w_ContractName w, w_Key w) \<in> rw_pairs rws"
  unfolding rw_pairs_def by (rule UN_I [of "rws ! i"]; simp)+

lemma conflictI:
  "reads_key rws k i \<Longrightarrow> writes_key rws k j \<Longrightarrow> conflict rws i j"
  "writes_key rws k i \<Longrightarrow> writes_key rws k j \<Longrightarrow> conflict rws i j"
  unfolding conflict_def by (rule exI [of _ k], simp)+

lemma write_key_same:
  assumes "unambiguous (rw_pairs rws)" and "i < length rws" and "(c, k) \<in> rw_pairs rws"
    and "constructKey c k \<in> wkey ` set (TxWrites (rws ! i))"
  shows "writes_key rws k i"
proof -
  obtain w where w: "w \<in> set (TxWrites (rws ! i))" "constructKey c k = wkey w"
    using assms(4) by blast
  have "(w_ContractName w, w_Key w) = (c, k)"
    using assms(1) unfolding unambiguous_def
    by (rule inj_onD) (simp_all add: w assms(3) rw_pairsI(2) [OF assms(2)])
  then show ?thesis using w(1) by auto
qed

text \<open>
  A transaction that is not applied, while the ones it conflicts with are applied exactly if they
  come before it, sees at the keys it reads what it saw in the serial execution.
\<close>

lemma view_before:
  assumes U: "unambiguous (rw_pairs rws)" and rws: "rws = map fst outs" and i: "i < length rws"
    and r: "r \<in> set (TxReads (rws ! i))"
    and A: "distinct A" "\<forall>j\<in>set A. j < length rws" "sorted_wrt (\<lambda>a b. \<not> (b < a \<and> conflict rws a b)) A"
    and before: "\<And>j. j < i \<Longrightarrow> conflict rws i j \<Longrightarrow> j \<in> set A"
    and after: "\<And>j. j \<in> set A \<Longrightarrow> conflict rws i j \<Longrightarrow> j < i"
  shows "apply_writes v0 (concat (map (\<lambda>j. writes_of (outs ! j)) A)) (r_ContractName r) (r_Key r) =
    view_at v0 outs i (r_ContractName r) (r_Key r)"
proof -
  let ?w = "\<lambda>j. writes_of (outs ! j)"
  let ?P = "\<lambda>j. rkey r \<in> wkey ` set (?w j)"
  have pair: "read_pair r \<in> rw_pairs rws"
    using rw_pairsI(1) [OF i r] .
  have key: "writes_key rws (r_Key r) j" if "?P j" "j < length rws" for j
    using write_key_same [OF U that(2) pair] that rws by simp
  have conf: "conflict rws i j" if "?P j" "j < length rws" for j
    using conflictI(1) [OF _ key [OF that]] r by simp
  have both: "conflict rws a b" if "?P a" "?P b" "a < length rws" "b < length rws" for a b
    using conflictI(2) [OF key [OF that(1,3)] key [OF that(2,4)]] .
  have "sorted_wrt (\<lambda>a b. \<not> (b < a \<and> conflict rws a b) \<and> a \<noteq> b) (filter ?P A)"
    using A(1,3) by (induction A) auto
  then have "sorted_wrt (<) (filter ?P A)"
  proof (rule sorted_wrt_mono_rel [rotated])
    fix a b
    assume ab: "a \<in> set (filter ?P A)" "b \<in> set (filter ?P A)" "\<not> (b < a \<and> conflict rws a b) \<and> a \<noteq> b"
    then have "?P a" "?P b" "a < length rws" "b < length rws"
      using A(2) by simp_all
    then have "conflict rws a b" by (rule both)
    with ab(3) show "a < b" by auto
  qed
  moreover have "sorted_wrt (<) (filter ?P [0..<i])"
    by (intro sorted_wrt_filter) simp
  moreover have "j \<in> set (filter ?P A) \<longleftrightarrow> j \<in> set (filter ?P [0..<i])" for j
  proof
    assume j: "j \<in> set (filter ?P A)"
    then have "j < i"
      using after [of j] conf [of j] A(2) by simp
    with j show "j \<in> set (filter ?P [0..<i])" by simp
  next
    assume j: "j \<in> set (filter ?P [0..<i])"
    then have "j \<in> set A"
      using before [of j] conf [of j] i by simp
    with j show "j \<in> set (filter ?P A)" by simp
  qed
  then have "set (filter ?P [0..<i]) = set (filter ?P A)" by blast
  ultimately have "filter ?P [0..<i] = filter ?P A"
    by (rule strict_sorted_equal)
  then show ?thesis
    unfolding view_at_def
    by (simp only: apply_writes_writers [of v0 ?w A] apply_writes_writers [of v0 ?w "[0..<i]"])
qed

section \<open>The invariant of replay\<close>

text \<open>
  An execution has made reads of the keys of the serial execution only at their serial values, and
  none of these keys was written since it started.
\<close>

definition exec_ok :: "Transaction list \<Rightarrow> view \<Rightarrow> outcome list \<Rightarrow> SnapshotImpl \<Rightarrow> nat \<Rightarrow> running \<Rightarrow> bool" where
  "exec_ok txs v0 outs s i x \<longleftrightarrow> run_tx x = txs ! i \<and> run_seq x \<le> GetSnapshotSize s \<and>
     (\<forall>r\<in>set (run_reads x). read_pair r \<in> read_pair ` set (reads_of (outs ! i)) \<longrightarrow>
        view_at v0 outs i (r_ContractName r) (r_Key r) = Inr (r_Value r)) \<and>
     (\<forall>r\<in>set (reads_of (outs ! i)). \<not> key_conflicted s (run_seq x) (rkey r))"

definition finished_indices :: "sim_state \<Rightarrow> nat list" where
  "finished_indices st = map ap_txIndex (sm_sending st) @ map ap_txIndex (sm_doneTxC st) @ sm_handled st"

definition tables_ok :: "Transaction list \<Rightarrow> view \<Rightarrow> outcome list \<Rightarrow> SnapshotImpl \<Rightarrow> nat list \<Rightarrow> bool" where
  "tables_ok txs v0 outs s A \<longleftrightarrow> wf_snap s \<and> strict_seq s \<and> \<not> IsSealed s \<and>
     txTable (snap s) = map ((!) txs) A \<and> txRWSetTable (snap s) = map (\<lambda>i. fst (outs ! i)) A \<and>
     specialTxTable (snap s) = [] \<and>
     txResultMap (snap s) = map_of (rev (map (\<lambda>i. (TxId (txs ! i), snd (outs ! i))) A)) \<and>
     (\<forall>(c, k)\<in>rw_pairs (map fst outs). GetKey s c k = apply_writes v0 (concat (map (\<lambda>j. writes_of (outs ! j)) A)) c k)"

definition sim_data :: "Transaction list \<Rightarrow> view \<Rightarrow> outcome list \<Rightarrow> sim_state \<Rightarrow> bool" where
  "sim_data txs v0 outs st \<longleftrightarrow>
     tables_ok txs v0 outs (sm_snapshot st) (sm_applied st) \<and>
     mset (sm_applied st) = mset (finished_indices st) \<and>
     sorted_wrt (\<lambda>a b. \<not> (b < a \<and> conflict (map fst outs) a b)) (sm_applied st) \<and>
     (\<forall>(i, x)\<in>set (sm_executing st). exec_ok txs v0 outs (sm_snapshot st) i x)"

text \<open>
  While a transaction waits or executes, of the ones it conflicts with exactly the earlier ones
  are applied.
\<close>

lemma finished_released: "set (finished_indices st) \<subseteq> set (released st)"
  by (auto simp: finished_indices_def released_def)

lemma sim_conflicts:
  assumes ctrl: "sim_ctrl dag st" and cov: "dag_covers dag (map fst outs)" and data: "sim_data txs v0 outs st"
    and i: "i \<in> set (released st)" "i \<notin> set (sm_applied st)" and c: "conflict (map fst outs) i j"
  shows "j < i \<Longrightarrow> j \<in> set (sm_applied st)" and "j \<in> set (sm_applied st) \<Longrightarrow> j < i"
proof -
  have fin: "set (sm_applied st) = set (finished_indices st)"
    using data mset_eq_setD unfolding sim_data_def by blast
  have len: "k < length (map fst outs)" if "k \<in> set (released st)" for k
    using ctrl cov that by (auto simp: sim_ctrl_def dag_covers_def)
  have path: "(a, b) \<in> (dag_edges dag)\<^sup>+" if "a \<in> set (released st)" "b < a" "conflict (map fst outs) a b" for a b
    using cov len [OF that(1)] that(2,3) unfolding dag_covers_def by blast
  show "j \<in> set (sm_applied st)" if "j < i"
    using released_path [OF ctrl path [OF i(1) that c] i(1)] fin by (simp add: finished_indices_def)
  show "j < i" if j: "j \<in> set (sm_applied st)"
  proof (rule ccontr)
    assume "\<not> j < i"
    then have "i < j" using i(2) j by (metis linorder_neqE_nat)
    moreover have rel: "j \<in> set (released st)"
      using j fin finished_released by blast
    ultimately have "i \<in> set (sm_handled st)"
      using released_path [OF ctrl path [OF rel] rel] c conflict_sym by blast
    then show False using i(2) fin by (simp add: finished_indices_def)
  qed
qed

lemma sim_sees_serial:
  assumes "sim_ctrl dag st" and "dag_covers dag (map fst outs)" and "sim_data txs v0 outs st"
    and "unambiguous (rw_pairs (map fst outs))" and i: "i \<in> set (released st)" "i \<notin> set (sm_applied st)"
    and r: "r \<in> set (reads_of (outs ! i))"
  shows "GetKey (sm_snapshot st) (r_ContractName r) (r_Key r) = view_at v0 outs i (r_ContractName r) (r_Key r)"
proof -
  have len: "k < length (map fst outs)" if "k \<in> set (released st)" for k
    using assms(1,2) that by (auto simp: sim_ctrl_def dag_covers_def)
  have r': "r \<in> set (TxReads (map fst outs ! i))"
    using r len [OF i(1)] by simp
  have t: "tables_ok txs v0 outs (sm_snapshot st) (sm_applied st)" "mset (sm_applied st) = mset (finished_indices st)"
      "sorted_wrt (\<lambda>a b. \<not> (b < a \<and> conflict (map fst outs) a b)) (sm_applied st)"
    using assms(3) by (simp_all add: sim_data_def)
  have dist: "distinct (sm_applied st)"
    using assms(1) mset_eq_imp_distinct_iff [OF t(2)]
    by (auto simp: sim_ctrl_def released_def finished_indices_def)
  have "\<forall>j\<in>set (sm_applied st). j < length (map fst outs)"
    using len finished_released [of st] mset_eq_setD [OF t(2)] by blast
  then have "apply_writes v0 (concat (map (\<lambda>j. writes_of (outs ! j)) (sm_applied st))) (r_ContractName r) (r_Key r) =
      view_at v0 outs i (r_ContractName r) (r_Key r)"
    using view_before [OF assms(4) refl len [OF i(1)] r' dist _ t(3)] sim_conflicts [OF assms(1-3) i] by blast
  moreover have "read_pair r \<in> rw_pairs (map fst outs)"
    using rw_pairsI(1) [OF len [OF i(1)] r'] .
  then have "GetKey (sm_snapshot st) (r_ContractName r) (r_Key r) =
      apply_writes v0 (concat (map (\<lambda>j. writes_of (outs ! j)) (sm_applied st))) (r_ContractName r) (r_Key r)"
    using t(1) unfolding tables_ok_def by blast
  ultimately show ?thesis by simp
qed

section \<open>One application\<close>

lemma ApplyTx_replay:
  assumes "ApplyTxSimContext sim ty ok True s = ((b, n), s')" and "wf_snap s" and "\<not> IsSealed s"
    and fresh: "\<forall>r\<in>set (TxReads (sim_GetTxRWSet sim ok)). \<not> key_conflicted s (sim_txExecSeq sim) (rkey r)"
  shows "b" and "applied_like sim ok s s'" and "\<not> IsSealed s'"
    and "n = GetSnapshotSize s' \<or> n = GetSnapshotSize s' + length (specialTxTable (snap s'))"
    and "txResultMap (snap s') = (txResultMap (snap s))(TxId (sim_tx sim) \<mapsto> sim_GetTxResult sim)"
proof -
  obtain rkvs wkvs where kv: "buildKVMaps (sim_GetTxRWSet sim ok) = (rkvs, wkvs)" by force
  have "\<forall>k\<in>fst ` set rkvs. \<not> key_conflicted s (sim_txExecSeq sim) k"
    using fresh unfolding buildKVMaps_keys [OF kv] by simp
  then have fresh': "\<not> list_ex (\<lambda>(k, _). key_conflicted s (sim_txExecSeq sim) k) rkvs"
    by (auto simp: list_ex_iff)
  let ?opt = "applyOptimize (sim_tx sim) (sim_GetTxRWSet sim ok) (sim_GetTxResult sim) ok rkvs wkvs s"
  let ?app = "apply_tx (sim_tx sim) (sim_GetTxRWSet sim ok) (sim_GetTxResult sim) ok s"
  have "b \<and> (s' = ?opt \<or> s' = ?app) \<and>
      (n = GetSnapshotSize s' \<or> n = GetSnapshotSize s' + length (specialTxTable (snap s')))"
    using assms(1,3) fresh fresh' kv
    by (auto simp: apply_defs Let_def list_ex_iff GetSpecialTxTable_def split: if_splits)
  then have r: "b" "s' = ?opt \<or> s' = ?app"
      "n = GetSnapshotSize s' \<or> n = GetSnapshotSize s' + length (specialTxTable (snap s'))" by blast+
  show "b" "n = GetSnapshotSize s' \<or> n = GetSnapshotSize s' + length (specialTxTable (snap s'))"
    using r by blast+
  show "applied_like sim ok s s'"
    using r(2) applied_like_optimize [OF assms(2) kv] applied_like_apply by metis
  show "\<not> IsSealed s'" "txResultMap (snap s') = (txResultMap (snap s))(TxId (sim_tx sim) \<mapsto> sim_GetTxResult sim)"
    using r(2) assms(3) by (auto simp: applyOptimize_def apply_tx_def IsSealed_def Let_def)
qed

lemma tables_ok_applied:
  assumes t: "tables_ok txs v0 outs s A" and app: "applied_like sim ok s s'" and "\<not> IsSealed s'" and "wf_snap s'"
    and res: "txResultMap (snap s') = (txResultMap (snap s))(TxId (sim_tx sim) \<mapsto> sim_GetTxResult sim)"
    and sim: "sim_tx sim = txs ! i" "out_of sim ok = outs ! i"
    and U: "unambiguous (rw_pairs (map fst outs))"
    and reads: "\<forall>r\<in>set (reads_of (outs ! i)). read_pair r \<in> rw_pairs (map fst outs) \<and> read_ok s r"
  shows "tables_ok txs v0 outs s' (A @ [i])"
proof -
  have out: "sim_GetTxRWSet sim ok = fst (outs ! i)" "sim_GetTxResult sim = snd (outs ! i)"
    unfolding sim(2) [symmetric] by (simp_all add: out_of_def)
  have wf: "wf_snap s" "strict_seq s"
    using t by (simp_all add: tables_ok_def)
  have reads': "\<forall>r\<in>set (TxReads (sim_GetTxRWSet sim ok)). read_pair r \<in> rw_pairs (map fst outs) \<and> read_ok s r"
    using reads by (simp add: out)
  have "GetKey s' c k = apply_writes v0 (concat (map (\<lambda>j. writes_of (outs ! j)) (A @ [i]))) c k"
    if ck: "(c, k) \<in> rw_pairs (map fst outs)" for c k
  proof -
    have "GetKey s c k = apply_writes v0 (concat (map (\<lambda>j. writes_of (outs ! j)) A)) c k"
      using t ck unfolding tables_ok_def by blast
    then show ?thesis
      using view_applied [OF app wf(1) U ck reads']
      by (simp add: out apply_writes_append) (simp add: apply_writes_def split: option.splits)
  qed
  then show ?thesis
    using t app assms(3,4) res strict_seq_applied [OF app wf] sim(1) out
    unfolding tables_ok_def by (auto simp: applied_like_def)
qed

context executor
begin

text \<open>Two executions whose reads do not contradict each other are the same execution.\<close>

lemma exec_compatible:
  assumes "covered t" and "total_view v" and "total_view v'"
    and same: "\<And>r. r \<in> set (reads_of (ex v t)) \<Longrightarrow> read_pair r \<in> read_pair ` set (reads_of (ex v' t)) \<Longrightarrow>
      v (r_ContractName r) (r_Key r) = v' (r_ContractName r) (r_Key r)"
  shows "ex v t = ex v' t"
proof -
  define u where "u = (\<lambda>c k. if (c, k) \<in> read_pair ` set (reads_of (ex v' t)) then v' c k else v c k)"
  have "total_view u"
    using assms(2,3) by (auto simp: total_view_def u_def)
  moreover have "u (r_ContractName r) (r_Key r) = v (r_ContractName r) (r_Key r)" if "r \<in> set (reads_of (ex v t))" for r
    using same [OF that] by (auto simp: u_def)
  moreover have "u (r_ContractName r) (r_Key r) = v' (r_ContractName r) (r_Key r)" if "r \<in> set (reads_of (ex v' t))" for r
    using that by (simp add: u_def)
  ultimately have "ex u t = ex v t" "ex u t = ex v' t"
    using assms(1-3) by (blast intro: exec_local)+
  then show ?thesis by simp
qed

end

section \<open>Every step\<close>

lemma executing_facts:
  assumes "sim_ctrl dag st" and "sim_data txs v0 outs st" and "(i, x) \<in> set (sm_executing st)"
  shows "i \<in> set (released st)" and "i \<notin> set (sm_applied st)" and "exec_ok txs v0 outs (sm_snapshot st) i x"
proof -
  have "set (sm_applied st) = set (finished_indices st)"
    using assms(2) mset_eq_setD unfolding sim_data_def by blast
  moreover have "distinct (released st)"
    using assms(1) by (simp add: sim_ctrl_def)
  ultimately show "i \<notin> set (sm_applied st)"
    using assms(3) by (force simp: released_def finished_indices_def)
  show "i \<in> set (released st)"
    using assms(3) by (force simp: released_def)
  show "exec_ok txs v0 outs (sm_snapshot st) i x"
    using assms(2,3) by (auto simp: sim_data_def)
qed

text \<open>Another execution is not affected by an application, since the two do not conflict.\<close>

lemma exec_ok_applied:
  assumes x: "exec_ok txs v0 outs s i' x" and app: "applied_like sim ok s s'" and wf: "wf_snap s"
    and out: "out_of sim ok = outs ! i" and U: "unambiguous (rw_pairs (map fst outs))"
    and idx: "i < length outs" "i' < length outs" and c: "\<not> conflict (map fst outs) i' i"
  shows "exec_ok txs v0 outs s' i' x"
proof -
  have rw: "sim_GetTxRWSet sim ok = fst (outs ! i)"
    unfolding out [symmetric] by (simp add: out_of_def)
  have "\<not> key_conflicted s' (run_seq x) (rkey r)" if r: "r \<in> set (reads_of (outs ! i'))" for r
  proof -
    have "rkey r \<notin> wkey ` set (TxWrites (map fst outs ! i))"
    proof
      assume w: "rkey r \<in> wkey ` set (TxWrites (map fst outs ! i))"
      have pair: "read_pair r \<in> rw_pairs (map fst outs)"
        using rw_pairsI(1) [of i' "map fst outs" r] r idx(2) by simp
      have "writes_key (map fst outs) (r_Key r) i"
        using write_key_same [OF U _ pair w] idx(1) by simp
      moreover have "reads_key (map fst outs) (r_Key r) i'"
        using r idx(2) by simp
      ultimately show False using c conflictI(1) by blast
    qed
    then have "map_of (rev (map wkv (TxWrites (sim_GetTxRWSet sim ok)))) (rkey r) = None"
      using idx(1) by (auto simp: rw map_of_eq_None_iff image_iff)
    then have "getByLock (writeTable (snap s')) (rkey r) = getByLock (writeTable (snap s)) (rkey r)"
      using lookup_writes_applied [OF app wf, of "rkey r"] by simp
    then show ?thesis
      using x r by (simp add: exec_ok_def key_conflicted_def)
  qed
  moreover have "GetSnapshotSize s' = Suc (GetSnapshotSize s)"
    using app by (simp add: applied_like_def GetSnapshotSize_def)
  ultimately show ?thesis
    using x by (simp add: exec_ok_def)
qed

context executor
begin

text \<open>What an execution yields and that it is applied.\<close>

lemma replay_outcome:
  assumes ctrl: "sim_ctrl dag st" and cov: "dag_covers dag (map fst outs)" and data: "sim_data txs v0 outs st"
    and U: "unambiguous (rw_pairs (map fst outs))" and total: "total_view v0"
    and serial: "serial_run ex v0 txs = (outs, v1)" and covered: "\<forall>t\<in>set txs. covered t"
    and x: "(i, x) \<in> set (sm_executing st)" and out: "out_of sim ok = ex v (run_tx x)"
    and seen: "seen v (reads_of (out_of sim ok)) x"
  shows "i < length outs" and "out_of sim ok = outs ! i"
    and "\<forall>r\<in>set (reads_of (outs ! i)). read_pair r \<in> rw_pairs (map fst outs) \<and> read_ok (sm_snapshot st) r"
proof -
  note f = executing_facts [OF ctrl data x]
  show i: "i < length outs"
    using ctrl cov f(1) by (auto simp: sim_ctrl_def dag_covers_def)
  have len: "length outs = length txs"
    using length_serial_run [of ex v0 txs] serial by simp
  have oi: "outs ! i = ex (view_at v0 outs i) (txs ! i)"
    using serial_run_view_at [OF serial] i len by simp
  have tx: "run_tx x = txs ! i" "covered (txs ! i)"
    using f(3) covered i len by (simp_all add: exec_ok_def)
  have vals: "view_at v0 outs i (r_ContractName r) (r_Key r) = Inr (r_Value r)"
    if "r \<in> set (reads_of (out_of sim ok))" "read_pair r \<in> read_pair ` set (reads_of (outs ! i))" for r
    using f(3) seen that unfolding exec_ok_def seen_def by blast
  have "ex v (txs ! i) = ex (view_at v0 outs i) (txs ! i)"
  proof (rule exec_compatible [OF tx(2)])
    show "total_view v" "total_view (view_at v0 outs i)"
      using seen total_view_at [OF total] by (simp_all add: seen_def)
    show "v (r_ContractName r) (r_Key r) = view_at v0 outs i (r_ContractName r) (r_Key r)"
      if "r \<in> set (reads_of (ex v (txs ! i)))"
        "read_pair r \<in> read_pair ` set (reads_of (ex (view_at v0 outs i) (txs ! i)))" for r
      using vals [of r] that seen out tx(1) oi unfolding seen_def by simp
  qed
  then show same: "out_of sim ok = outs ! i"
    using out tx(1) oi by simp
  show "\<forall>r\<in>set (reads_of (outs ! i)). read_pair r \<in> rw_pairs (map fst outs) \<and> read_ok (sm_snapshot st) r"
  proof
    fix r
    assume r: "r \<in> set (reads_of (outs ! i))"
    then have "read_ok (sm_snapshot st) r"
      using sim_sees_serial [OF ctrl cov data U f(1,2) r] vals [of r] same by simp
    then show "read_pair r \<in> rw_pairs (map fst outs) \<and> read_ok (sm_snapshot st) r"
      using rw_pairsI(1) [of i "map fst outs" r] r i by simp
  qed
qed

lemma sim_data_apply:
  assumes ctrl: "sim_ctrl dag st" and cov: "dag_covers dag (map fst outs)" and data: "sim_data txs v0 outs st"
    and U: "unambiguous (rw_pairs (map fst outs))" and total: "total_view v0"
    and serial: "serial_run ex v0 txs = (outs, v1)" and covered: "\<forall>t\<in>set txs. covered t"
    and E: "sm_executing st = E1 @ (i, x) # E2" and sim: "sim_txExecSeq sim = run_seq x"
      "out_of sim ok = ex v (run_tx x)" "sim_tx sim = run_tx x" and seen: "seen v (reads_of (out_of sim ok)) x"
    and app: "ApplyTxSimContext sim ty ok True (sm_snapshot st) = ((b, n), s')"
  shows "b" and "n = Suc (length (sm_applied st))"
    and "tables_ok txs v0 outs s' (sm_applied st @ [i])"
    and "sorted_wrt (\<lambda>a b. \<not> (b < a \<and> conflict (map fst outs) a b)) (sm_applied st @ [i])"
    and "\<forall>(i', x')\<in>set (E1 @ E2). exec_ok txs v0 outs s' i' x'"
proof -
  let ?s = "sm_snapshot st"
  have x: "(i, x) \<in> set (sm_executing st)" using E by simp
  note f = executing_facts [OF ctrl data x]
  note out = replay_outcome [OF ctrl cov data U total serial covered x sim(2) seen]
  have rw: "sim_GetTxRWSet sim ok = fst (outs ! i)"
    unfolding out(2) [symmetric] by (simp add: out_of_def)
  have t: "tables_ok txs v0 outs ?s (sm_applied st)"
    using data by (simp add: sim_data_def)
  then have wf: "wf_snap ?s" "\<not> IsSealed ?s"
    by (simp_all add: tables_ok_def)
  have fresh: "\<forall>r\<in>set (TxReads (sim_GetTxRWSet sim ok)). \<not> key_conflicted ?s (sim_txExecSeq sim) (rkey r)"
    using f(3) by (simp add: rw sim(1) exec_ok_def)
  note a = ApplyTx_replay [OF app wf fresh]
  show "b" by (rule a(1))
  have tx: "sim_tx sim = txs ! i"
    using f(3) sim(3) by (simp add: exec_ok_def)
  have "wf_snap s'"
    using wf_ApplyTxSimContext [OF wf(1), of sim ty ok True] app by simp
  then show t': "tables_ok txs v0 outs s' (sm_applied st @ [i])"
    using tables_ok_applied [OF t a(2,3) _ a(5) tx out(2) U out(3)] by simp
  then show "n = Suc (length (sm_applied st))"
    using a(4) by (auto simp: tables_ok_def GetSnapshotSize_def)
  show "sorted_wrt (\<lambda>a b. \<not> (b < a \<and> conflict (map fst outs) a b)) (sm_applied st @ [i])"
    using data sim_conflicts(2) [OF ctrl cov data f(1,2)] conflict_sym
    by (auto simp: sim_data_def sorted_wrt_append) (meson less_asym)
  show "\<forall>(i', x')\<in>set (E1 @ E2). exec_ok txs v0 outs s' i' x'"
  proof (clarify)
    fix i' x'
    assume "(i', x') \<in> set (E1 @ E2)"
    then have x': "(i', x') \<in> set (sm_executing st)" and ne: "i' \<noteq> i"
      using ctrl E by (auto simp: sim_ctrl_def released_def image_iff)
    note f' = executing_facts [OF ctrl data x']
    have "\<not> conflict (map fst outs) i' i"
      using sim_conflicts(1) [OF ctrl cov data f(1,2), of i'] sim_conflicts(1) [OF ctrl cov data f'(1,2), of i]
        f(2) f'(2) ne conflict_sym by (metis linorder_neqE_nat)
    moreover have "i' < length outs"
      using ctrl cov f'(1) by (auto simp: sim_ctrl_def dag_covers_def)
    ultimately show "exec_ok txs v0 outs s' i' x'"
      using exec_ok_applied [OF f'(3) a(2) wf(1) out(2) U out(1)] by simp
  qed
qed

lemma sim_data_step:
  assumes step: "sim_step order m ex txs st st'"
    and ctrl: "sim_ctrl dag st" and cov: "dag_covers dag (map fst outs)" and data: "sim_data txs v0 outs st"
    and U: "unambiguous (rw_pairs (map fst outs))" and total: "total_view v0"
    and serial: "serial_run ex v0 txs = (outs, v1)" and covered: "\<forall>t\<in>set txs. covered t"
  shows "sim_data txs v0 outs st'"
  using step
proof cases
  case (start S1 i S2)
  have "strict_seq (sm_snapshot st)"
    using data by (simp add: sim_data_def tables_ok_def)
  then have "exec_ok txs v0 outs (sm_snapshot st) i
      \<lparr>run_tx = txs ! i, run_seq = GetSnapshotSize (sm_snapshot st), run_reads = []\<rparr>"
    by (fastforce simp: exec_ok_def strict_seq_def key_conflicted_def split: option.splits)
  then show ?thesis
    using data start by (auto simp: sim_data_def finished_indices_def)
next
  case (read E1 i x E2 c k b)
  have x: "(i, x) \<in> set (sm_executing st)" using read by simp
  note f = executing_facts [OF ctrl data x]
  have "view_at v0 outs i c k = Inr b" if ck: "(c, k) \<in> read_pair ` set (reads_of (outs ! i))"
  proof -
    obtain r where "r \<in> set (reads_of (outs ! i))" "r_ContractName r = c" "r_Key r = k"
      using ck by auto
    then show ?thesis
      using sim_sees_serial [OF ctrl cov data U f(1,2)] read(3) by fastforce
  qed
  then have "exec_ok txs v0 outs (sm_snapshot st) i
      (x\<lparr>run_reads := \<lparr>r_ContractName = c, r_Key = k, r_Value = b\<rparr> # run_reads x\<rparr>)"
    using f(3) by (auto simp: exec_ok_def)
  then show ?thesis
    using data read by (auto simp: sim_data_def finished_indices_def)
next
  case (apply_tx E1 i x E2 sim ok v ty b n s')
  note a = sim_data_apply [OF ctrl cov data U total serial covered apply_tx(2-7)]
  have "mset (sm_applied st @ [i]) = mset (finished_indices st')"
    using data apply_tx(1) by (simp add: sim_data_def finished_indices_def)
  then show ?thesis
    using a apply_tx(1) by (simp add: sim_data_def)
next
  case (handle r q)
  then show ?thesis
    using data by (auto simp: sim_data_def handle_done_def finished_indices_def Let_def split: if_splits prod.splits)
qed (use data in \<open>auto simp: sim_data_def finished_indices_def\<close>)

lemma replay_reach:
  assumes "sim_reach order m ex txs st0 st" and order: "\<And>l. mset (order l) = mset l"
    and "sim_ctrl dag st0" and "sim_data txs v0 outs st0" and cov: "dag_covers dag (map fst outs)"
    and U: "unambiguous (rw_pairs (map fst outs))" and total: "total_view v0"
    and serial: "serial_run ex v0 txs = (outs, v1)" and covered: "\<forall>t\<in>set txs. covered t"
  shows "sim_ctrl dag st \<and> sim_data txs v0 outs st"
  using assms(1)
proof induction
  case (further st st')
  then show ?case
    using sim_ctrl_step [OF further.hyps(2) _ order]
      sim_data_step [OF further.hyps(2) _ cov _ U total serial covered] by blast
qed (use assms(3,4) in simp)

end

lemma sim_data_start:
  assumes "initSimulateDag dag = Inr init"
  shows "sim_data txs (ReadObject store) outs (sim_start (makeSnapshotImpl store ver) init)"
proof -
  let ?s = "makeSnapshotImpl store ver"
  have "GetKey ?s = ReadObject store"
    by (simp add: fun_eq_iff GetKey_layers under_writes_def makeSnapshotImpl_def shard_kv.get_empty)
  moreover have "strict_seq ?s"
    by (simp add: strict_seq_def makeSnapshotImpl_def shard_kv.get_empty)
  ultimately have "tables_ok txs (ReadObject store) outs ?s []"
    by (auto simp: tables_ok_def) (auto simp: makeSnapshotImpl_def IsSealed_def)
  then show ?thesis
    by (simp add: sim_data_def sim_start_def finished_indices_def split: prod.splits)
qed

end
