(* ===== verification/DagReplay_Live.thy ===== *)
theory DagReplay_Live
  imports DagReplay_Serial
begin

text \<open>
  Replay of a block by a graph that covers its conflicts ends regularly: no send of the loop blocks,
  the finish signal is given exactly once, when every transaction is applied, and from every reachable state
  in which the loop runs it can go on to that end without the time limit.
\<close>

section \<open>Regular end\<close>

text \<open>
  The messages in flight: all report success, and the size they carry is the position of the
  transaction in the order of application. The finish signal is sent when the message of the last one is handled.
\<close>

definition msgs_ok :: "nat \<Rightarrow> sim_state \<Rightarrow> bool" where
  "msgs_ok m st \<longleftrightarrow> sm_failApplyCount st = 0 \<and>
     (\<forall>r\<in>set (sm_sending st @ sm_doneTxC st). ap_isApplySuccess r \<and>
        (\<exists>p<length (sm_applied st). sm_applied st ! p = ap_txIndex r \<and> ap_applySize r = Suc p)) \<and>
     (sm_finishC st \<longrightarrow> length (sm_applied st) = m \<and> last (sm_applied st) \<in> set (sm_handled st)) \<and>
     (length (sm_applied st) = m \<longrightarrow> m > 0 \<longrightarrow> last (sm_applied st) \<in> set (sm_handled st) \<longrightarrow>
        sm_finishC st \<or> sm_finished st)"

lemma msgs_ok_start: "m > 0 \<Longrightarrow> msgs_ok m (sim_start s init)"
  by (simp add: msgs_ok_def sim_start_def split: prod.splits)

text \<open>Handling a message never blocks, and signals the end exactly for the last applied transaction.\<close>

lemma handle_done_regular:
  assumes ctrl: "sim_ctrl dag st" and m: "length dag = m" and msgs: "msgs_ok m st"
    and fin: "mset (sm_applied st) = mset (finished_indices st)"
    and order: "\<And>l. mset (order l) = mset l" and r: "sm_doneTxC st = r # q"
  shows "\<exists>st'. handle_done order m r (st\<lparr>sm_doneTxC := q\<rparr>) = Some st' \<and> msgs_ok m st'"
proof -
  let ?j = "ap_txIndex r"
  obtain batch remain' reverse' where sh:
      "shrinkDag order ?j (sm_dagRemain st) (sm_reverseDagRemain st) = (batch, remain', reverse')"
    by (metis surj_pair)
  have dist: "distinct (released st)" and rel: "set (released st) \<subseteq> {0..<m}"
    using ctrl m by (auto simp: sim_ctrl_def)
  have j: "?j \<in> set (released st)" "?j \<notin> set (sm_handled st)"
    using dist r by (auto simp: released_def)
  note sr = shrinkDag_releases [OF ctrl order j sh]
  have A: "distinct (sm_applied st)" "set (sm_applied st) \<subseteq> set (released st)"
    using dist fin finished_released [of st] mset_eq_setD [OF fin] mset_eq_imp_distinct_iff [OF fin]
    by (auto simp: released_def finished_indices_def)
  have lenA: "length (sm_applied st) \<le> m"
    using distinct_card [OF A(1)] card_mono [of "{0..<m}"] A(2) rel by (metis card_atLeastLessThan diff_zero
        finite_atLeastLessThan order_trans)
  have "distinct (sm_runningTxC st @ batch)" "set (sm_runningTxC st @ batch) \<subseteq> {0..<m}"
    using dist sr(1,2) j(2) rel ctrl m by (auto simp: released_def sim_ctrl_def)
  then have cap: "length (sm_runningTxC st) + length batch \<le> m"
    using distinct_card [of "sm_runningTxC st @ batch"] card_mono [of "{0..<m}" "set (sm_runningTxC st @ batch)"] by simp
  obtain p where p: "p < length (sm_applied st)" "sm_applied st ! p = ?j" "ap_applySize r = Suc p" "ap_isApplySuccess r"
    using msgs r by (auto simp: msgs_ok_def)
  have last: "ap_applySize r \<ge> m \<longleftrightarrow> length (sm_applied st) = m \<and> last (sm_applied st) = ?j"
  proof
    assume "ap_applySize r \<ge> m"
    then have "length (sm_applied st) = m" "p = m - 1"
      using p(1,3) lenA by auto
    then show "length (sm_applied st) = m \<and> last (sm_applied st) = ?j"
      using p(1,2) by (metis last_conv_nth length_0_conv less_nat_zero_code)
  next
    assume l: "length (sm_applied st) = m \<and> last (sm_applied st) = ?j"
    then have "sm_applied st ! (m - 1) = sm_applied st ! p"
      using p(1,2) by (metis last_conv_nth length_0_conv less_nat_zero_code)
    then have "p = m - 1"
      using A(1) p(1) l by (simp add: nth_eq_iff_index_eq)
    then show "ap_applySize r \<ge> m" using p(3) by simp
  qed
  have "\<not> (ap_applySize r \<ge> m \<and> sm_finishC st)"
    using last msgs j(2) by (auto simp: msgs_ok_def)
  then show ?thesis
    using cap p(4) msgs sh last
    by (auto simp: handle_done_def msgs_ok_def r Let_def)
qed

lemma released_bound:
  assumes "sim_ctrl dag st"
  shows "length (released st) \<le> length dag"
proof -
  have "set (released st) \<subseteq> {0..<length dag}" "distinct (released st)"
    using assms by (auto simp: sim_ctrl_def)
  then show ?thesis
    using distinct_card [of "released st"] card_mono [of "{0..<length dag}" "set (released st)"] by simp
qed

lemma applied_length:
  assumes "mset (sm_applied st) = mset (finished_indices st)"
  shows "length (sm_applied st) = length (finished_indices st)"
  using assms mset_eq_length by blast

text \<open>Steps that neither apply nor handle keep what is known of the messages.\<close>

lemma msgs_ok_frame:
  assumes "msgs_ok m st" and "set (sm_sending st' @ sm_doneTxC st') \<subseteq> set (sm_sending st @ sm_doneTxC st)"
    and "sm_applied st' = sm_applied st" and "sm_handled st' = sm_handled st"
    and "sm_failApplyCount st' = sm_failApplyCount st" and "sm_finishC st' \<longrightarrow> sm_finishC st"
    and "sm_finishC st \<or> sm_finished st \<longrightarrow> sm_finishC st' \<or> sm_finished st'"
  shows "msgs_ok m st'"
  using assms unfolding msgs_ok_def by auto

context executor
begin

lemma msgs_ok_step:
  assumes step: "sim_step order m ex txs st st'" and order: "\<And>l. mset (order l) = mset l"
    and ctrl: "sim_ctrl dag st" and cov: "dag_covers dag (map fst outs)" and data: "sim_data txs v0 outs st"
    and U: "unambiguous (rw_pairs (map fst outs))" and total: "total_view v0"
    and serial: "serial_run ex v0 txs = (outs, v1)" and covered: "\<forall>t\<in>set txs. covered t"
    and m: "length dag = m" and msgs: "msgs_ok m st"
  shows "msgs_ok m st'"
  using step
proof cases
  case (apply_tx E1 i x E2 sim ok v ty b n s')
  note a = sim_data_apply [OF ctrl cov data U total serial covered apply_tx(2-7)]
  have x: "(i, x) \<in> set (sm_executing st)" using apply_tx(2) by simp
  have len: "length (sm_applied st) < m"
    using released_bound [OF ctrl] applied_length [of st] data m apply_tx(2)
    by (simp add: sim_data_def released_def finished_indices_def)
  have "i \<notin> set (sm_handled st)"
    using ctrl apply_tx(2) by (auto simp: sim_ctrl_def released_def)
  moreover have "\<not> sm_finishC st"
    using msgs len by (auto simp: msgs_ok_def)
  ultimately show ?thesis
    using msgs a(1,2) unfolding msgs_ok_def apply_tx(1)
    by (auto simp: nth_append less_Suc_eq)
next
  case (handle r q)
  then show ?thesis
    using handle_done_regular [OF ctrl m msgs _ order] data by (force simp: sim_data_def)
qed (auto intro!: msgs_ok_frame [OF msgs])

end

section \<open>Progress\<close>

text \<open>What is left to do: every transaction counts by the place where it is.\<close>

definition work :: "nat \<Rightarrow> sim_state \<Rightarrow> nat" where
  "work m st = 7 * (m - length (released st)) + 6 * length (sm_feed st) + 5 * length (sm_runningTxC st) +
     4 * length (sm_submitted st) + 3 * length (sm_executing st) + 2 * length (sm_sending st) + length (sm_doneTxC st)"

lemma sim_reach_trans:
  assumes "sim_reach order m ex txs st' st''" and "sim_reach order m ex txs st st'"
  shows "sim_reach order m ex txs st st''"
  using assms by (induction rule: sim_reach.induct) (auto intro: sim_reach.further)

lemma sim_reach_step: "sim_step order m ex txs st st' \<Longrightarrow> sim_reach order m ex txs st st'"
  by (rule sim_reach.further [OF sim_reach.here])

text \<open>An execution can make its reads one after the other.\<close>

lemma reach_reads:
  assumes "sm_executing st = E1 @ (i, x) # E2"
    and "\<forall>r\<in>set rs. GetKey (sm_snapshot st) (r_ContractName r) (r_Key r) = Inr (r_Value r)"
  shows "\<exists>y. sim_reach order m ex txs st (st\<lparr>sm_executing := E1 @ (i, y) # E2\<rparr>) \<and> set rs \<subseteq> set (run_reads y) \<and>
    run_tx y = run_tx x \<and> run_seq y = run_seq x"
  using assms(2)
proof (induction rs)
  case Nil
  have "st\<lparr>sm_executing := E1 @ (i, x) # E2\<rparr> = st"
    using assms(1) by simp
  then show ?case
    by (intro exI [of _ x]) (simp add: sim_reach.here)
next
  case (Cons r rs)
  then obtain y where y: "sim_reach order m ex txs st (st\<lparr>sm_executing := E1 @ (i, y) # E2\<rparr>)"
      "set rs \<subseteq> set (run_reads y)" "run_tx y = run_tx x" "run_seq y = run_seq x"
    by auto
  let ?z = "y\<lparr>run_reads := \<lparr>r_ContractName = r_ContractName r, r_Key = r_Key r, r_Value = r_Value r\<rparr> # run_reads y\<rparr>"
  have "sim_step order m ex txs (st\<lparr>sm_executing := E1 @ (i, y) # E2\<rparr>) (st\<lparr>sm_executing := E1 @ (i, ?z) # E2\<rparr>)"
    using sim_step.read [of "st\<lparr>sm_executing := E1 @ (i, y) # E2\<rparr>" E1 i y E2 "r_ContractName r" "r_Key r" "r_Value r"]
      Cons.prems by simp
  then show ?case
    using y by (intro exI [of _ ?z]) (auto intro: sim_reach.further)
qed

text \<open>With every place empty, all transactions are handled, since the first one that is not would be released.\<close>

lemma all_handled:
  assumes ctrl: "sim_ctrl dag st" and ok: "dag_ok dag" and none: "released st = sm_handled st"
  shows "set (sm_handled st) = {0..<length dag}"
proof -
  have "i \<in> set (sm_handled st)" if "i < length dag" for i
    using that
  proof (induction i rule: less_induct)
    case (less i)
    obtain ns where "dag ! i = Some ns" "\<forall>j\<in>set ns. j < i"
      using ok less.prems unfolding dag_ok_def by blast
    then have "deps dag i \<subseteq> set (sm_handled st)"
      using less by (auto simp: deps_def)
    then show ?case
      using ctrl less.prems none by (auto simp: sim_ctrl_def)
  qed
  then show ?thesis
    using ctrl none by (auto simp: sim_ctrl_def)
qed

lemma work_handle:
  assumes "handle_done order m r (st\<lparr>sm_doneTxC := q\<rparr>) = Some st'" and "sm_doneTxC st = r # q"
    and "length (released st') \<le> m"
  shows "work m st' < work m st" and "sm_finished st' = sm_finished st"
proof -
  obtain batch remain' reverse' where sh:
      "shrinkDag order (ap_txIndex r) (sm_dagRemain st) (sm_reverseDagRemain st) = (batch, remain', reverse')"
    by (metis surj_pair)
  show "work m st' < work m st" "sm_finished st' = sm_finished st"
    using assms sh by (auto simp: handle_done_def work_def released_def Let_def split: if_splits)
qed

definition replay_inv :: "DAG \<Rightarrow> Transaction list \<Rightarrow> view \<Rightarrow> outcome list \<Rightarrow> sim_state \<Rightarrow> bool" where
  "replay_inv dag txs v0 outs st \<longleftrightarrow> sim_ctrl dag st \<and> sim_data txs v0 outs st \<and> msgs_ok (length dag) st"

context executor
begin

lemma replay_inv_reach:
  assumes "sim_reach order (length dag) ex txs st st'" and "replay_inv dag txs v0 outs st"
    and order: "\<And>l. mset (order l) = mset l" and cov: "dag_covers dag (map fst outs)"
    and U: "unambiguous (rw_pairs (map fst outs))" and total: "total_view v0"
    and serial: "serial_run ex v0 txs = (outs, v1)" and covered: "\<forall>t\<in>set txs. covered t"
  shows "replay_inv dag txs v0 outs st'"
  using assms(1)
proof induction
  case (further st st')
  then show ?case
    unfolding replay_inv_def
    using sim_ctrl_step [OF further.hyps(2) _ order] sim_data_step [OF further.hyps(2) _ cov _ U total serial covered]
      msgs_ok_step [OF further.hyps(2) order _ cov _ U total serial covered refl] by blast
qed (use assms(2) in simp)

lemma reach_apply:
  assumes inv: "replay_inv dag txs v0 outs st" and cov: "dag_covers dag (map fst outs)"
    and U: "unambiguous (rw_pairs (map fst outs))" and total: "total_view v0"
    and serial: "serial_run ex v0 txs = (outs, v1)"
    and vals: "\<forall>i<length txs. \<forall>r\<in>set (reads_of (outs ! i)). view_at v0 outs i (r_ContractName r) (r_Key r) = Inr (r_Value r)"
    and E: "sm_executing st = (i, x) # E"
  shows "\<exists>st'. sim_reach order m ex txs st st' \<and> work m st' < work m st \<and> sm_finished st' = sm_finished st"
proof -
  let ?s = "sm_snapshot st" and ?rs = "reads_of (outs ! i)"
  have x: "(i, x) \<in> set (sm_executing st)" using E by simp
  have ctrl: "sim_ctrl dag st" and data: "sim_data txs v0 outs st"
    using inv by (simp_all add: replay_inv_def)
  note f = executing_facts [OF ctrl data x]
  have len: "length outs = length txs"
    using length_serial_run [of ex v0 txs] serial by simp
  have i: "i < length txs"
    using ctrl cov f(1) len by (auto simp: sim_ctrl_def dag_covers_def)
  have "\<forall>r\<in>set ?rs. GetKey ?s (r_ContractName r) (r_Key r) = Inr (r_Value r)"
    using sim_sees_serial [OF ctrl cov data U f(1,2)] vals i by simp
  then obtain y where y: "sim_reach order m ex txs st (st\<lparr>sm_executing := [] @ (i, y) # E\<rparr>)" "set ?rs \<subseteq> set (run_reads y)"
      "run_tx y = run_tx x" "run_seq y = run_seq x"
    using reach_reads [of st "[]" i x E ?rs order m ex txs] E by auto
  define sim where "sim = \<lparr>sim_tx = run_tx y, sim_txExecSeq = run_seq y, sim_GetTxRWSet = (\<lambda>_. fst (outs ! i)),
    sim_GetTxResult = snd (outs ! i)\<rparr>"
  have out: "out_of sim True = outs ! i" by (simp add: out_of_def sim_def)
  also have "\<dots> = ex (view_at v0 outs i) (run_tx y)"
    using serial_run_view_at [OF serial i] y(3) f(3) by (simp add: exec_ok_def)
  finally have ex: "out_of sim True = ex (view_at v0 outs i) (run_tx y)" .
  have seen: "seen (view_at v0 outs i) (reads_of (out_of sim True)) y"
    using y(2) vals i total_view_at [OF total] by (simp add: seen_def out)
  obtain b n s' where app: "ApplyTxSimContext sim ExecOrderTxTypeNormal True True ?s = ((b, n), s')"
    by (metis surj_pair)
  let ?st = "st\<lparr>sm_executing := [] @ (i, y) # E\<rparr>"
  have "sim_step order m ex txs ?st (?st\<lparr>sm_snapshot := s', sm_executing := [] @ E,
      sm_sending := sm_sending ?st @ [\<lparr>ap_txIndex = i, ap_isApplySuccess = b, ap_applySize = n\<rparr>],
      sm_applied := (if b then sm_applied ?st @ [i] else sm_applied ?st)\<rparr>)" (is "sim_step _ _ _ _ _ ?st'")
    by (rule sim_step.apply_tx [where x = y and sim = sim and ok = True and v = "view_at v0 outs i" and ex = ex])
      (use app ex seen in \<open>simp_all add: sim_def\<close>)
  then have "sim_reach order m ex txs st ?st'"
    using y(1) sim_reach.further by blast
  moreover have "work m ?st' < work m st" "sm_finished ?st' = sm_finished st"
    using E by (simp_all add: work_def released_def)
  ultimately show ?thesis by blast
qed

lemma replay_progress:
  assumes inv: "replay_inv dag txs v0 outs st" and cov: "dag_covers dag (map fst outs)"
    and order: "\<And>l. mset (order l) = mset l"
    and U: "unambiguous (rw_pairs (map fst outs))" and total: "total_view v0"
    and serial: "serial_run ex v0 txs = (outs, v1)"
    and vals: "\<forall>i<length txs. \<forall>r\<in>set (reads_of (outs ! i)). view_at v0 outs i (r_ContractName r) (r_Key r) = Inr (r_Value r)"
    and run: "\<not> sm_finished st" and m: "length dag > 0"
  shows "\<exists>st'. sim_reach order (length dag) ex txs st st' \<and>
    (if sm_finished st' then length (sm_applied st') = length dag else work (length dag) st' < work (length dag) st)"
proof -
  let ?m = "length dag" and ?R = "sim_reach order (length dag) ex txs st"
  have ctrl: "sim_ctrl dag st" and data: "sim_data txs v0 outs st" and msgs: "msgs_ok ?m st"
    using inv by (simp_all add: replay_inv_def)
  have dist: "distinct (released st)" and bound: "length (released st) \<le> ?m"
    using ctrl released_bound by (auto simp: sim_ctrl_def)
  have len: "length txs = ?m"
    using length_serial_run [of ex v0 txs] serial cov by (simp add: dag_covers_def)
  note step = sim_reach_step [of order ?m ex txs st]
  consider i f where "sm_feed st = i # f" | i q where "sm_feed st = []" "sm_runningTxC st = i # q"
    | i q where "sm_submitted st = [] @ i # q" | i x E where "sm_executing st = (i, x) # E"
    | r D where "sm_sending st = [] @ r # D" | r q where "sm_sending st = []" "sm_doneTxC st = r # q"
    | "released st = sm_handled st"
    unfolding released_def by (metis append_Nil list.exhaust list.map_disc_iff prod.exhaust)
  then show ?thesis
  proof cases
    case 1
    then have "?R (st\<lparr>sm_feed := f, sm_runningTxC := sm_runningTxC st @ [i]\<rparr>)"
      using bound by (intro step sim_step.feed) (simp_all add: released_def)
    moreover have "work ?m (st\<lparr>sm_feed := f, sm_runningTxC := sm_runningTxC st @ [i]\<rparr>) < work ?m st"
      using 1 by (simp add: work_def released_def)
    ultimately show ?thesis using run by force
  next
    case 2
    then have "?R (st\<lparr>sm_runningTxC := q, sm_submitted := sm_submitted st @ [i]\<rparr>)"
      using run by (intro step sim_step.submit) simp_all
    moreover have "work ?m (st\<lparr>sm_runningTxC := q, sm_submitted := sm_submitted st @ [i]\<rparr>) < work ?m st"
      using 2 by (simp add: work_def released_def)
    ultimately show ?thesis using run by force
  next
    case 3
    let ?st = "st\<lparr>sm_submitted := [] @ q, sm_executing := sm_executing st @
       [(i, \<lparr>run_tx = txs ! i, run_seq = GetSnapshotSize (sm_snapshot st), run_reads = []\<rparr>)]\<rparr>"
    have "i < length txs"
      using ctrl 3 len by (auto simp: sim_ctrl_def released_def)
    then have "?R ?st"
      using 3 by (intro step sim_step.start)
    moreover have "work ?m ?st < work ?m st"
      using 3 by (simp add: work_def released_def)
    ultimately show ?thesis using run by force
  next
    case 4
    from reach_apply [OF inv cov U total serial vals 4, of order ?m] show ?thesis using run by auto
  next
    case 5
    then have "?R (st\<lparr>sm_sending := [] @ D, sm_doneTxC := sm_doneTxC st @ [r]\<rparr>)"
      using bound by (intro step sim_step.send) (simp_all add: released_def)
    moreover have "work ?m (st\<lparr>sm_sending := [] @ D, sm_doneTxC := sm_doneTxC st @ [r]\<rparr>) < work ?m st"
      using 5 by (simp add: work_def released_def)
    ultimately show ?thesis using run by force
  next
    case 6
    obtain st' where h: "handle_done order ?m r (st\<lparr>sm_doneTxC := q\<rparr>) = Some st'"
      using handle_done_regular [OF ctrl refl msgs _ order 6(2)] data by (auto simp: sim_data_def)
    have "length (released st') \<le> ?m"
      using released_bound [OF sim_ctrl_handle [OF ctrl order 6(2) h]] .
    then show ?thesis
      using work_handle [OF h 6(2)] step [OF sim_step.handle [OF run 6(2) h]] run by force
  next
    case 7
    have "set (sm_handled st) = {0..<?m}"
      using all_handled [OF ctrl _ 7] cov by (simp add: dag_covers_def)
    moreover have fin: "finished_indices st = sm_handled st"
      using 7 by (simp add: finished_indices_def released_def)
    ultimately have "length (sm_applied st) = ?m" "set (sm_applied st) = {0..<?m}"
      using applied_length [of st] data distinct_card [of "sm_handled st"] dist mset_eq_setD [of "sm_applied st"] 7
      by (auto simp: sim_data_def)
    moreover from this have "last (sm_applied st) \<in> set (sm_handled st)"
      using m \<open>set (sm_handled st) = {0..<?m}\<close> last_in_set [of "sm_applied st"] by (cases "sm_applied st = []") auto
    ultimately have "sm_finishC st" "length (sm_applied st) = ?m"
      using msgs m run by (auto simp: msgs_ok_def)
    then show ?thesis
      using step [OF sim_step.finish [OF run]] by force
  qed
qed

lemma replay_ends:
  assumes "replay_inv dag txs v0 outs st" and cov: "dag_covers dag (map fst outs)"
    and order: "\<And>l. mset (order l) = mset l"
    and U: "unambiguous (rw_pairs (map fst outs))" and total: "total_view v0"
    and serial: "serial_run ex v0 txs = (outs, v1)" and covered: "\<forall>t\<in>set txs. covered t"
    and vals: "\<forall>i<length txs. \<forall>r\<in>set (reads_of (outs ! i)). view_at v0 outs i (r_ContractName r) (r_Key r) = Inr (r_Value r)"
    and "\<not> sm_finished st" and m: "length dag > 0"
  shows "\<exists>st'. sim_reach order (length dag) ex txs st st' \<and> sm_finished st' \<and> length (sm_applied st') = length dag"
  using assms(1,9)
proof (induction "work (length dag) st" arbitrary: st rule: less_induct)
  case less
  obtain st' where st': "sim_reach order (length dag) ex txs st st'"
      "if sm_finished st' then length (sm_applied st') = length dag else work (length dag) st' < work (length dag) st"
    using replay_progress [OF less.prems(1) cov order U total serial vals less.prems(2) m] by blast
  show ?case
  proof (cases "sm_finished st'")
    case False
    have "replay_inv dag txs v0 outs st'"
      using replay_inv_reach [OF st'(1) less.prems(1) order cov U total serial covered] .
    with less.hyps [of st'] st' False show ?thesis
      using sim_reach_trans by (metis (no_types, lifting))
  qed (use st' in auto)
qed

end

end
