(* ===== verification/DagCover.thy ===== *)
theory DagCover
  imports DagReplay_Live
begin

text \<open>
  The graphs the proposer builds cover the conflicts of the block, so that a verifier may replay by
  them: the graph of \<^verbatim>\<open>BuildDAG\<close>, its extension by special transactions and by the transaction that
  charges gas. The last section discharges the assumption of the replay on recorded values for a \<open>read_executor\<close>.
\<close>

section \<open>Graphs that cover\<close>

lemma BuildDAG_ok:
  assumes "distinct_keys rws"
  shows "dag_ok (BuildDAG False (Some rws) s)" and "length (BuildDAG False (Some rws) s) = length rws"
proof -
  let ?dag = "BuildDAG False (Some rws) s"
  obtain reachMap where ok: "length ?dag = length rws" "\<forall>i<length ?dag. vertex_ok rws ?dag reachMap i"
    using BuildDAG_table [OF assms] by blast
  have "\<exists>ns. ?dag ! i = Some ns \<and> sorted_wrt (<) ns \<and> (\<forall>j\<in>set ns. j < i)" if i: "i < length ?dag" for i
  proof -
    obtain ns where "?dag ! i = Some ns" "sorted_wrt (<) ns" "set ns \<subseteq> set (candidates rws i)"
      using ok(2) i unfolding vertex_ok_def by blast
    then show ?thesis
      using candidates_conflict by blast
  qed
  then show "dag_ok ?dag"
    unfolding dag_ok_def by blast
  show "length ?dag = length rws" by (fact ok(1))
qed

lemma BuildDAG_covers:
  assumes "distinct_keys rws"
  shows "dag_covers (BuildDAG False (Some rws) s) rws"
  using BuildDAG_ok [OF assms] BuildDAG_paths [OF assms] by (simp add: dag_covers_def)

lemma dag_edges_append: "dag_edges dag \<subseteq> dag_edges (dag @ vs)"
  by (auto simp: dag_edges_def nth_append)

lemma dag_edges_new: "j \<in> set ns \<Longrightarrow> (length dag, j) \<in> dag_edges (dag @ Some ns # vs)"
  by (auto simp: dag_edges_def)

lemma conflict_append:
  assumes "i < length rws" and "j < length rws"
  shows "conflict (rws @ ys) i j \<longleftrightarrow> conflict rws i j"
  using assms by (simp add: conflict_def nth_append)

text \<open>A vertex from which every earlier one is reached keeps a covering graph covering.\<close>

lemma dag_covers_snoc:
  assumes "dag_covers dag rws" and "sorted_wrt (<) ns" and "\<forall>j\<in>set ns. j < length dag"
    and all: "\<And>j. j < length dag \<Longrightarrow> (length dag, j) \<in> (dag_edges (dag @ [Some ns]))\<^sup>+"
  shows "dag_covers (dag @ [Some ns]) (rws @ [rw])"
proof -
  have dag: "dag_ok dag" "length dag = length rws"
      "\<And>i j. i < length rws \<Longrightarrow> j < i \<Longrightarrow> conflict rws i j \<Longrightarrow> (i, j) \<in> (dag_edges dag)\<^sup>+"
    using assms(1) by (auto simp: dag_covers_def)
  have "(i, j) \<in> (dag_edges (dag @ [Some ns]))\<^sup>+"
    if "i < length (rws @ [rw])" "j < i" "conflict (rws @ [rw]) i j" for i j
  proof (cases "i = length rws")
    case True
    then show ?thesis using all that(2) dag(2) by simp
  next
    case False
    then have "(i, j) \<in> (dag_edges dag)\<^sup>+"
      using that dag(3) conflict_append [of i rws j "[rw]"] by simp
    then show ?thesis
      using dag_edges_append by (rule trancl_mono)
  qed
  then show ?thesis
    using dag(1,2) assms(2,3) by (simp add: dag_covers_def dag_ok_append)
qed

text \<open>The first special transaction depends on all before it, a later one on its predecessor.\<close>

lemma dag_covers_first:
  assumes "dag_covers dag rws"
  shows "dag_covers (dag @ [Some [0..<length dag]]) (rws @ [rw])"
  using assms by (rule dag_covers_snoc) (auto simp: dag_edges_def)

lemma appendSpecialTxsToDag_steps:
  "appendSpecialTxsToDag dag (Suc 0) = dag @ [Some [0..<length dag]]"
  "appendSpecialTxsToDag dag (Suc (Suc c)) = appendSpecialTxsToDag dag (Suc c) @ [Some [length dag + c]]"
  by (simp_all add: appendSpecialTxsToDag_def Let_def)

lemma length_appendSpecialTxsToDag: "length (appendSpecialTxsToDag dag (Suc c)) = length dag + Suc c"
  by (simp add: appendSpecialTxsToDag_def Let_def)

lemma appendSpecialTxsToDag_covers:
  assumes "dag_covers dag rws"
  shows "length sp = Suc c \<Longrightarrow> dag_covers (appendSpecialTxsToDag dag (Suc c)) (rws @ sp) \<and>
    (\<forall>j<length dag + c. (length dag + c, j) \<in> (dag_edges (appendSpecialTxsToDag dag (Suc c)))\<^sup>+)"
proof (induction c arbitrary: sp)
  case 0
  then obtain rw where "sp = [rw]" by (auto simp: length_Suc_conv)
  moreover have "(length dag, j) \<in> dag_edges (dag @ [Some [0..<length dag]])" if "j < length dag" for j
    using that by (intro dag_edges_new) simp
  ultimately show ?case
    using dag_covers_first [OF assms] by (auto simp: appendSpecialTxsToDag_steps)
next
  case (Suc c)
  let ?d = "appendSpecialTxsToDag dag (Suc c)" and ?k = "length dag + Suc c"
  obtain sp' rw where sp: "sp = sp' @ [rw]" "length sp' = Suc c"
    using Suc.prems by (cases sp rule: rev_cases) auto
  from Suc.IH [OF sp(2)] have IH: "dag_covers ?d (rws @ sp')"
      "\<And>j. j < length dag + c \<Longrightarrow> (length dag + c, j) \<in> (dag_edges ?d)\<^sup>+"
    by auto
  have edge: "(?k, length dag + c) \<in> dag_edges (?d @ [Some [length dag + c]])"
    using dag_edges_new [of "length dag + c" "[length dag + c]" ?d "[]"] by (simp add: length_appendSpecialTxsToDag)
  have all: "(?k, j) \<in> (dag_edges (?d @ [Some [length dag + c]]))\<^sup>+" if "j < ?k" for j
  proof (cases "j = length dag + c")
    case False
    then have "(length dag + c, j) \<in> (dag_edges ?d)\<^sup>+"
      using that IH(2) by simp
    then have "(length dag + c, j) \<in> (dag_edges (?d @ [Some [length dag + c]]))\<^sup>+"
      using dag_edges_append by (rule trancl_mono)
    then show ?thesis using edge by (rule trancl_into_trancl2 [rotated])
  qed (use edge in auto)
  then have "dag_covers (?d @ [Some [length dag + c]]) ((rws @ sp') @ [rw])"
    by (intro dag_covers_snoc [OF IH(1)]) (auto simp: length_appendSpecialTxsToDag)
  then show ?case
    using all by (simp add: appendSpecialTxsToDag_steps sp)
qed

text \<open>The transaction that charges gas comes last and depends on all others.\<close>

lemma appendChargeGasTxToDAG_covers:
  assumes "dag_covers dag rws" and "GetSnapshotSize s = Suc (length rws)"
  shows "dag_covers (appendChargeGasTxToDAG dag s) (rws @ [rw])"
proof -
  have "length dag = length rws" using assms(1) by (simp add: dag_covers_def)
  then show ?thesis
    using dag_covers_first [OF assms(1), of rw] assms(2) by (simp add: appendChargeGasTxToDAG_def)
qed

text \<open>The graph without edges covers a block without conflicts.\<close>

lemma genDefaultDag_covers:
  assumes "\<And>i j. i < length rws \<Longrightarrow> j < i \<Longrightarrow> \<not> conflict rws i j"
  shows "dag_covers (genDefaultDag (length rws)) rws"
  using assms by (auto simp: dag_covers_def genDefaultDag_def dag_ok_def)

section \<open>Recorded values\<close>

context read_executor
begin

lemma serial_values:
  assumes "serial_run ex v0 txs = (outs, v1)" and "total_view v0" and "\<forall>t\<in>set txs. covered t"
  shows "\<forall>i<length txs. \<forall>r\<in>set (reads_of (outs ! i)). view_at v0 outs i (r_ContractName r) (r_Key r) = Inr (r_Value r)"
proof (intro allI impI ballI)
  fix i r
  assume i: "i < length txs" and r: "r \<in> set (reads_of (outs ! i))"
  have "outs ! i = ex (view_at v0 outs i) (txs ! i)"
    by (rule serial_run_view_at [OF assms(1) i])
  then show "view_at v0 outs i (r_ContractName r) (r_Key r) = Inr (r_Value r)"
    using exec_values [of "txs ! i" "view_at v0 outs i" r] assms(2,3) i r total_view_at by simp
qed

lemmas replay_ends_values = replay_ends [OF _ _ _ _ _ _ _ serial_values]

end

end
