(* ===== verification/ChargeGas.thy ===== *)
theory ChargeGas
  imports SenderCollection DagReplay
begin

text \<open>
  The transaction that charges the gas of a block (\<^verbatim>\<open>createChargeGasTx\<close>, \<^verbatim>\<open>executeChargeGasTx\<close> and
  \<^verbatim>\<open>appendChargeGasTx\<close> in \<^verbatim>\<open>scheduler.go\<close>) and its verification (\<^verbatim>\<open>VerifyOptimizeChargeGasTx\<close> in
  \<^verbatim>\<open>config_helper.go\<close>). The random transaction id, the signer and the order of map iterations are arguments;
  sender and endorsements of the transaction are left out.
\<close>

section \<open>Creating the transaction\<close>

definition FormatInt :: "64 word \<Rightarrow> string" where
  "FormatInt w = (if sint w < 0 then CHR ''-'' # digits (nat (- sint w)) else digits (nat (sint w)))"

definition add_gas :: "string \<Rightarrow> 64 word \<Rightarrow> (string \<times> 64 word) list \<Rightarrow> (string \<times> 64 word) list" where
  "add_gas address gas m =
     AList.update address ((case map_of m address of None \<Rightarrow> 0 | Some totalGas \<Rightarrow> totalGas) + gas) m"

text \<open>\<open>None\<close> stands for the panic at a transaction without result.\<close>

fun address2TotalGas ::
    "CommonVMHelper \<Rightarrow> view \<Rightarrow> SenderCollection \<Rightarrow> (string \<rightharpoonup> Result option) \<Rightarrow> Transaction list \<Rightarrow>
     (string \<times> 64 word) list \<Rightarrow> (string \<times> 64 word) list option" where
  "address2TotalGas h v s txMap [] m = Some m"
| "address2TotalGas h v s txMap (tx # txs) m =
     (case (case map_of (sn_txAddressCache s) (TxId tx) of Some address \<Rightarrow> Inr address | None \<Rightarrow> h_payerAddr h v tx) of
        Inl _ \<Rightarrow> address2TotalGas h v s txMap txs m
      | Inr address \<Rightarrow>
          (case txMap (TxId tx) of
             Some (Some txResult) \<Rightarrow>
               address2TotalGas h v s txMap txs (add_gas address (cr_GasUsed (res_ContractResult txResult)) m)
           | _ \<Rightarrow> None))"

text \<open>Before version 2.3.4: per address, the gas of the transactions that are in the block.\<close>

definition collection_gas :: "(string \<rightharpoonup> Result option) \<Rightarrow> TxCollection \<Rightarrow> 64 word" where
  "collection_gas resultMap txCollection =
     fold (\<lambda>tx totalGasUsed. case resultMap (TxId tx) of
             Some (Some res) \<Rightarrow> totalGasUsed + cr_GasUsed (res_ContractResult res)
           | _ \<Rightarrow> totalGasUsed) (tc_txs txCollection) 0"

definition charge_payload :: "string \<Rightarrow> (string \<times> bytes) list \<Rightarrow> Payload" where
  "charge_payload txId parameters =
     \<lparr>p_TxId = txId, p_TxType = INVOKE_CONTRACT, p_ContractName = ''ACCOUNT_MANAGER'',
      p_Method = ''CHARGE_GAS_FOR_MULTI_ACCOUNT'', p_Parameters = parameters, p_Limit = Some 0\<rparr>"

record charge_env =
  ce_randTxId :: string
  ce_sign :: "Payload \<Rightarrow> bool"
  ce_orderGas :: "(string \<times> 64 word) list \<Rightarrow> (string \<times> 64 word) list"
  ce_orderMap :: "(string \<times> TxCollection) list \<Rightarrow> (string \<times> TxCollection) list"

datatype charge_error = Panic | SignError

definition createChargeGasTx ::
    "charge_env \<Rightarrow> CommonVMHelper \<Rightarrow> nat \<Rightarrow> SenderCollection \<Rightarrow> SnapshotImpl \<Rightarrow> charge_error + Transaction" where
  "createChargeGasTx ce h version s snapshot =
     (let parameters =
            (if version \<ge> blockVersion2340
             then map_option (\<lambda>m. map (\<lambda>(address, totalGas). (address, Some (FormatUint totalGas))) (ce_orderGas ce m))
                    (address2TotalGas h (GetKey snapshot) s (GetTxResultMap snapshot) (GetTxTable snapshot) [])
             else Some (map (\<lambda>(address, c). (address, Some (FormatInt (collection_gas (GetTxResultMap snapshot) c))))
                    (ce_orderMap ce (sn_txsMap s))))
      in case parameters of
           None \<Rightarrow> Inl Panic
         | Some ps \<Rightarrow>
             (let payload = charge_payload (ce_randTxId ce) ps in
              if ce_sign ce payload then Inr \<lparr>tx_Payload = payload, tx_Result = None\<rparr> else Inl SignError))"

section \<open>Executing and appending it\<close>

definition sim_of :: "Transaction \<Rightarrow> nat \<Rightarrow> txSimContextImpl \<Rightarrow> TxSimContext" where
  "sim_of tx txExecSeq ctx =
     \<lparr>sim_tx = tx\<lparr>tx_Result := sc_txResult ctx\<rparr>, sim_txExecSeq = txExecSeq,
      sim_GetTxRWSet = (\<lambda>runVmSuccess. GetTxRWSet runVmSuccess ctx), sim_GetTxResult = sc_txResult ctx\<rparr>"

definition executeChargeGasTx ::
    "CommonVMHelper \<Rightarrow> nat \<Rightarrow> Transaction \<Rightarrow> SnapshotImpl \<Rightarrow> charge_error + (txSimContextImpl \<times> SnapshotImpl)" where
  "executeChargeGasTx h version tx snapshot =
     (let ctx = NewTxSimContext tx version;
          payload = tx_Payload tx
      in case h_GetContractByName h (p_ContractName payload) of
           Inl e \<Rightarrow> Inr (SetTxResult (Some (init_result\<lparr>res_Code := INVALID_PARAMETER,
                     res_ContractResult := (res_ContractResult init_result)\<lparr>cr_Message := e, cr_Code := 1\<rparr>\<rparr>)) ctx, snapshot)
         | Inr contract \<Rightarrow>
             (let params = fold (\<lambda>(address, val) m. AList.update address val m) (p_Parameters payload) [];
                  ((r, _, code), ctx') = run_prog (h_env h) (GetKey snapshot)
                    (RunContract (h_env h) payload (c_Name contract) (p_Method payload) params 0 (p_TxType payload)) ctx
              in if code \<noteq> SUCCESS then Inl Panic
                 else
                   (let ctx'' = SetTxResult (Some (init_result\<lparr>res_Code := code, res_ContractResult := r\<rparr>)) ctx'
                    in Inr (ctx'', snd (ApplyTxSimContext (sim_of tx (GetSnapshotSize snapshot) ctx'')
                                         ExecOrderTxTypeChargeGas True True snapshot)))))"

definition appendChargeGasTx ::
    "charge_env \<Rightarrow> CommonVMHelper \<Rightarrow> nat \<Rightarrow> SenderCollection \<Rightarrow> SnapshotImpl \<Rightarrow> DAG \<Rightarrow>
     charge_error + (SnapshotImpl \<times> DAG)" where
  "appendChargeGasTx ce h version s snapshot dag =
     (case createChargeGasTx ce h version s snapshot of
        Inl SignError \<Rightarrow> Inr (snapshot, dag)
      | Inl Panic \<Rightarrow> Inl Panic
      | Inr tx \<Rightarrow>
          (case executeChargeGasTx h version tx snapshot of
             Inl e \<Rightarrow> Inl e
           | Inr (ctx, snapshot') \<Rightarrow> Inr (snapshot', appendChargeGasTxToDAG dag snapshot')))"

section \<open>Verifying it\<close>

datatype verify_error =
    NilResult | ParseUintError | PayerError string | ChargeTxMissing
  | AccountCount nat nat | MissingAccount string | WrongGas string "64 word" "64 word"

definition is_charge_tx :: "Transaction \<Rightarrow> bool" where
  "is_charge_tx tx \<longleftrightarrow> p_ContractName (tx_Payload tx) = ''ACCOUNT_MANAGER'' \<and>
     p_Method (tx_Payload tx) = ''CHARGE_GAS_FOR_MULTI_ACCOUNT''"

fun read_charges :: "(string \<times> bytes) list \<Rightarrow> (string \<times> 64 word) list \<Rightarrow> verify_error + (string \<times> 64 word) list" where
  "read_charges [] gasNeedToCharge = Inr gasNeedToCharge"
| "read_charges ((key, val) # kvs) gasNeedToCharge =
     (case ParseUint (case val of None \<Rightarrow> [] | Some s \<Rightarrow> s) of
        None \<Rightarrow> Inl ParseUintError
      | Some gas \<Rightarrow> read_charges kvs (AList.update key gas gasNeedToCharge))"

fun collect_gas ::
    "CommonVMHelper \<Rightarrow> view \<Rightarrow> Transaction list \<Rightarrow>
     (string \<times> 64 word) list \<times> (string \<times> 64 word) list \<times> bool \<Rightarrow>
     verify_error + ((string \<times> 64 word) list \<times> (string \<times> 64 word) list \<times> bool)" where
  "collect_gas h v [] acc = Inr acc"
| "collect_gas h v (tx # txs) (gasCalc, gasNeedToCharge, found) =
     (if is_charge_tx tx
      then
        (case read_charges (p_Parameters (tx_Payload tx)) gasNeedToCharge of
           Inl e \<Rightarrow> Inl e
         | Inr gasNeed \<Rightarrow> collect_gas h v txs (gasCalc, gasNeed, True))
      else
        case tx_Result tx of
          None \<Rightarrow> Inl NilResult
        | Some res \<Rightarrow>
            (case h_payerAddr h v tx of
               Inl e \<Rightarrow> Inl (PayerError e)
             | Inr address \<Rightarrow>
                 collect_gas h v txs (add_gas address (cr_GasUsed (res_ContractResult res)) gasCalc, gasNeedToCharge, found)))"

fun compare_gas :: "(string \<times> 64 word) list \<Rightarrow> (string \<rightharpoonup> 64 word) \<Rightarrow> verify_error option" where
  "compare_gas [] gasNeedToCharge = None"
| "compare_gas ((addr, totalGasCalc) # m) gasNeedToCharge =
     (case gasNeedToCharge addr of
        None \<Rightarrow> Some (MissingAccount addr)
      | Some totalGasNeedToCharge \<Rightarrow>
          if totalGasCalc \<noteq> totalGasNeedToCharge then Some (WrongGas addr totalGasCalc totalGasNeedToCharge)
          else compare_gas m gasNeedToCharge)"

text \<open>\<open>order\<close> is the order in which the map of computed gas is iterated over.\<close>

definition VerifyOptimizeChargeGasTx ::
    "((string \<times> 64 word) list \<Rightarrow> (string \<times> 64 word) list) \<Rightarrow> CommonVMHelper \<Rightarrow> view \<Rightarrow> Transaction list \<Rightarrow> verify_error option" where
  "VerifyOptimizeChargeGasTx order h v txs =
     (if txs = [] then None
      else
        case collect_gas h v txs ([], [], False) of
          Inl e \<Rightarrow> Some e
        | Inr (gasCalc, gasNeedToCharge, found) \<Rightarrow>
            if \<not> found then Some ChargeTxMissing
            else if length gasCalc \<noteq> length gasNeedToCharge
            then Some (AccountCount (length gasCalc) (length gasNeedToCharge))
            else compare_gas (order gasCalc) (map_of gasNeedToCharge))"

section \<open>Numbers survive printing and parsing\<close>

lemma parse_digits_append:
  "parse_digits acc (xs @ ys) = Option.bind (parse_digits acc xs) (\<lambda>n. parse_digits n ys)"
  by (induction xs arbitrary: acc) auto

lemma parse_digit: "d < 10 \<Longrightarrow> parse_digits acc [char_of (48 + d)] = Some (acc * 10 + d)"
proof -
  assume "d < 10"
  then have "of_char (char_of (48 + d) :: char) = 48 + d"
    by simp
  then show ?thesis
    using \<open>d < 10\<close> by (simp add: less_eq_char_def)
qed

lemma parse_digits_digits: "parse_digits 0 (digits n) = Some n"
proof (induction n rule: digits.induct)
  case (1 n)
  show ?case
  proof (cases "n < 10")
    case True
    then show ?thesis using parse_digit [of n 0] by (subst digits.simps) simp
  next
    case False
    then show ?thesis
      using 1 parse_digit [of "n mod 10" "n div 10"]
      by (subst digits.simps) (simp add: parse_digits_append del: parse_digits.simps digits.simps)
  qed
qed

lemma digits_nonempty: "digits n \<noteq> []"
  by (subst digits.simps) simp

lemma ParseUint_FormatUint: "ParseUint (FormatUint w) = Some w"
proof -
  have "unat w < 2 ^ LENGTH(64)" by (rule unsigned_less)
  then show ?thesis
    by (simp add: ParseUint_def FormatUint_def digits_nonempty parse_digits_digits del: digits.simps)
qed

section \<open>Computed and charged gas agree\<close>

lemma distinct_add_gas: "distinct (map fst m) \<Longrightarrow> distinct (map fst (add_gas a g m))"
  by (simp add: add_gas_def distinct_update)

text \<open>
  The verifier's sums are the proposer's: where every transaction of the table has a payer, the same for
  both and in the cache if there, and the result map holds the results the table shows.
\<close>

definition charged_table ::
    "CommonVMHelper \<Rightarrow> view \<Rightarrow> view \<Rightarrow> SenderCollection \<Rightarrow> (string \<rightharpoonup> Result option) \<Rightarrow> Transaction \<Rightarrow> bool" where
  "charged_table h v v' s txMap tx \<longleftrightarrow> \<not> is_charge_tx tx \<and>
     (\<exists>address res. h_payerAddr h v tx = Inr address \<and> h_payerAddr h v' tx = Inr address \<and> tx_Result tx = Some res \<and> txMap (TxId tx) = Some (Some res) \<and>
        (map_of (sn_txAddressCache s) (TxId tx) = None \<or> map_of (sn_txAddressCache s) (TxId tx) = Some address))"

lemma same_sums:
  assumes "\<forall>tx\<in>set txs. charged_table h v v' s txMap tx" and "distinct (map fst m)"
  shows "\<exists>m'. address2TotalGas h v s txMap txs m = Some m' \<and> distinct (map fst m') \<and>
    (\<forall>us need found. collect_gas h v' (txs @ us) (m, need, found) = collect_gas h v' us (m', need, found))"
  using assms
proof (induction txs arbitrary: m)
  case (Cons tx txs)
  obtain address res where tx: "h_payerAddr h v tx = Inr address" "h_payerAddr h v' tx = Inr address" "tx_Result tx = Some res"
      "txMap (TxId tx) = Some (Some res)" "\<not> is_charge_tx tx"
      "map_of (sn_txAddressCache s) (TxId tx) = None \<or> map_of (sn_txAddressCache s) (TxId tx) = Some address"
    using Cons.prems(1) unfolding charged_table_def by auto
  then show ?case
    using Cons.IH [of "add_gas address (cr_GasUsed (res_ContractResult res)) m"] Cons.prems
    by (auto simp: distinct_add_gas)
qed simp

lemma read_charges_formatted:
  "read_charges (map (\<lambda>(a, g). (a, Some (FormatUint g))) m) acc = Inr (fold (\<lambda>(a, g). AList.update a g) m acc)"
  by (induction m arbitrary: acc) (auto simp: ParseUint_FormatUint)

lemma read_charges_distinct:
  "read_charges kvs acc = Inr m \<Longrightarrow> distinct (map fst acc) \<Longrightarrow> distinct (map fst m)"
  by (induction kvs acc rule: read_charges.induct) (auto simp: distinct_update split: option.splits)

lemma card_image_fst_distinct: "distinct (map fst m) \<Longrightarrow> card (fst ` set m) = length m"
  by (metis distinct_card length_map set_map)

lemma compare_gas_same:
  "(\<forall>(a, g)\<in>set m. need a = Some g) \<Longrightarrow> compare_gas m need = None"
  by (induction m) auto

lemma compare_gas_None:
  "compare_gas m need = None \<Longrightarrow> (a, g) \<in> set m \<Longrightarrow> need a = Some g"
  by (induction m) (auto split: option.splits if_splits)

lemma update_fresh: "a \<notin> fst ` set m \<Longrightarrow> AList.update a g m = m @ [(a, g)]"
  by (induction m) auto

lemma fold_update_distinct:
  "distinct (map fst m) \<Longrightarrow> map_of (fold (\<lambda>(a, g). AList.update a g) m []) = map_of m \<and>
     length (fold (\<lambda>(a, g). AList.update a g) m []) = length m"
proof (induction m rule: rev_induct)
  case (snoc x m)
  obtain a g where x: "x = (a, g)" by force
  let ?f = "fold (\<lambda>(a, g). AList.update a g) m []"
  have IH: "map_of ?f = map_of m" "length ?f = length m" "map_of m a = None"
    using snoc x by (auto simp: map_of_eq_None_iff)
  then have "a \<notin> fst ` set ?f"
    by (metis map_of_eq_None_iff)
  then have "AList.update a g ?f = ?f @ [(a, g)]"
    by (simp add: update_fresh)
  with IH show ?case
    by (auto simp: x map_add_def fun_eq_iff split: option.splits)
qed simp

lemma charge_tx_verifies:
  assumes "version \<ge> blockVersion2340"
    and "\<forall>tx\<in>set (GetTxTable snapshot). charged_table h (GetKey snapshot) v' s (GetTxResultMap snapshot) tx"
    and "\<And>p. ce_sign ce p" and "\<And>l. mset (ce_orderGas ce l) = mset l" and "\<And>l. mset (order l) = mset l"
  shows "\<exists>tx. createChargeGasTx ce h version s snapshot = Inr tx \<and>
    VerifyOptimizeChargeGasTx order h v' (GetTxTable snapshot @ [tx\<lparr>tx_Result := r\<rparr>]) = None"
proof -
  obtain m where m: "address2TotalGas h (GetKey snapshot) s (GetTxResultMap snapshot) (GetTxTable snapshot) [] = Some m"
      "distinct (map fst m)" "\<And>us need found. collect_gas h v' (GetTxTable snapshot @ us) ([], need, found) = collect_gas h v' us (m, need, found)"
    using same_sums [OF assms(2), of "[]"] by auto
  let ?m = "ce_orderGas ce m"
  let ?ps = "map (\<lambda>(a, g). (a, Some (FormatUint g))) ?m"
  let ?tx = "\<lparr>tx_Payload = charge_payload (ce_randTxId ce) ?ps, tx_Result = None\<rparr>"
  have "createChargeGasTx ce h version s snapshot = Inr ?tx"
    using assms(1,3) m(1) by (simp add: createChargeGasTx_def)
  moreover have "mset (map fst ?m) = mset (map fst m)" "set ?m = set m"
    using assms(4) [of m] mset_eq_setD by auto
  then have perm: "distinct (map fst ?m)" "map_of ?m = map_of m"
    using m(2) mset_eq_imp_distinct_iff map_of_inject_set by metis+
  have len: "length ?m = length m"
    using assms(4) [of m] by (rule mset_eq_length)
  have "is_charge_tx (?tx\<lparr>tx_Result := r\<rparr>)" "p_Parameters (tx_Payload (?tx\<lparr>tx_Result := r\<rparr>)) = ?ps"
    by (simp_all add: is_charge_tx_def charge_payload_def)
  then have "collect_gas h v' (GetTxTable snapshot @ [?tx\<lparr>tx_Result := r\<rparr>]) ([], [], False) =
      Inr (m, fold (\<lambda>(a, g). AList.update a g) ?m [], True)"
    by (simp only: m(3) collect_gas.simps read_charges_formatted) simp
  moreover have "set (order m) = set m"
    using assms(5) [of m] by (rule mset_eq_setD)
  then have "compare_gas (order m) (map_of m) = None"
    using m(2) by (intro compare_gas_same) auto
  ultimately show ?thesis
    using fold_update_distinct [OF perm(1)] perm(2) len by (auto simp: VerifyOptimizeChargeGasTx_def)
qed

section \<open>What a verified block charges\<close>

text \<open>The gas of the transactions an address pays for, as the 64-bit sum.\<close>

definition paid_by :: "CommonVMHelper \<Rightarrow> view \<Rightarrow> string \<Rightarrow> Transaction \<Rightarrow> bool" where
  "paid_by h v address tx \<longleftrightarrow> h_payerAddr h v tx = Inr address"

definition gas_of :: "Transaction \<Rightarrow> 64 word" where
  "gas_of tx = (case tx_Result tx of None \<Rightarrow> 0 | Some res \<Rightarrow> cr_GasUsed (res_ContractResult res))"

definition total_paid :: "CommonVMHelper \<Rightarrow> view \<Rightarrow> Transaction list \<Rightarrow> string \<rightharpoonup> 64 word" where
  "total_paid h v txs address =
     (if list_ex (paid_by h v address) txs then Some (sum_list (map gas_of (filter (paid_by h v address) txs))) else None)"

lemma collect_gas_sums:
  assumes "\<forall>tx\<in>set txs. \<not> is_charge_tx tx" and "collect_gas h v txs (m, need, found) = Inr (m', need', found')"
    and "distinct (map fst m)"
  shows "need' = need \<and> found' = found \<and> distinct (map fst m') \<and>
    (\<forall>a. map_of m' a = (case total_paid h v txs a of None \<Rightarrow> map_of m a
       | Some g \<Rightarrow> Some ((case map_of m a of None \<Rightarrow> 0 | Some t \<Rightarrow> t) + g)))"
  using assms
proof (induction txs arbitrary: m)
  case Nil
  then show ?case by (simp add: total_paid_def)
next
  case (Cons tx txs)
  obtain res address where tx: "tx_Result tx = Some res" "h_payerAddr h v tx = Inr address"
      and rest: "collect_gas h v txs (add_gas address (cr_GasUsed (res_ContractResult res)) m, need, found) = Inr (m', need', found')"
    using Cons.prems(1,2) by (auto split: option.splits sum.splits)
  have "map_of (add_gas address (gas_of tx) m) a =
      (if a = address then Some ((case map_of m a of None \<Rightarrow> 0 | Some t \<Rightarrow> t) + gas_of tx) else map_of m a)" for a
    by (simp add: add_gas_def update_conv')
  moreover have "gas_of tx = cr_GasUsed (res_ContractResult res)" "paid_by h v a tx \<longleftrightarrow> a = address" for a
    using tx by (auto simp: gas_of_def paid_by_def)
  ultimately show ?case
    using Cons.IH [OF _ rest] Cons.prems(1,3) distinct_add_gas [OF Cons.prems(3)]
    by (auto simp: total_paid_def list_ex_iff add.assoc split: option.splits if_splits)
qed

text \<open>
  A block whose last transaction is the charge transaction passes exactly when that charges, for
  every payer, the sum of the gas of the transactions it pays for, and nobody else.
\<close>

lemma verified_charges:
  assumes "VerifyOptimizeChargeGasTx order h v (txs @ [tx]) = None" and "is_charge_tx tx"
    and "\<forall>t\<in>set txs. \<not> is_charge_tx t" and order: "\<And>l. mset (order l) = mset l"
  shows "\<exists>charged. read_charges (p_Parameters (tx_Payload tx)) [] = Inr charged \<and> map_of charged = total_paid h v txs"
proof -
  have app: "collect_gas h v (txs @ [tx]) acc = (case collect_gas h v txs acc of Inl e \<Rightarrow> Inl e | Inr a \<Rightarrow> collect_gas h v [tx] a)" for acc
    using assms(3) by (induction txs arbitrary: acc) (auto split: option.splits sum.splits)
  obtain calc need found where c: "collect_gas h v (txs @ [tx]) ([], [], False) = Inr (calc, need, found)"
      "length calc = length need" "compare_gas (order calc) (map_of need) = None"
    using assms(1) by (auto simp: VerifyOptimizeChargeGasTx_def split: sum.splits if_splits)
  then obtain calc0 need0 found0 where c0: "collect_gas h v txs ([], [], False) = Inr (calc0, need0, found0)"
    unfolding app by (auto split: sum.splits)
  have sums: "need0 = []" "distinct (map fst calc0)" "map_of calc0 = total_paid h v txs"
    using collect_gas_sums [OF assms(3) c0] by (auto simp: fun_eq_iff split: option.splits)
  have need: "read_charges (p_Parameters (tx_Payload tx)) [] = Inr need" "calc = calc0"
    using c(1) assms(2) unfolding app c0 by (auto simp: sums(1) split: sum.splits)
  have distinct: "distinct (map fst need)"
    using read_charges_distinct [OF need(1)] by simp
  have "map_of calc a = Some g \<Longrightarrow> map_of need a = Some g" for a g
    using compare_gas_None [OF c(3)] mset_eq_setD [OF order] map_of_SomeD by metis
  then have le: "map_of calc \<subseteq>\<^sub>m map_of need"
    by (auto simp: map_le_def)
  have "card (dom (map_of calc)) = length calc" "card (dom (map_of need)) = length need"
    using sums(2) need(2) distinct by (simp_all add: dom_map_of_conv_image_fst card_image_fst_distinct)
  then have "dom (map_of calc) = dom (map_of need)"
    using map_le_implies_dom_le [OF le] c(2) by (intro card_subset_eq) (simp_all add: finite_dom_map_of)
  then have "map_of need = map_of calc"
    using le by (metis map_le_antisym map_le_def)
  then show ?thesis
    using need sums(3) by auto
qed

end
