(* ===== verification/Special.thy ===== *)
theory Special
  imports Transparency DagCover ChargeGas
begin

text \<open>
  The end of the default scheduler's \<^verbatim>\<open>Schedule\<close>: the snapshot is sealed, the dependency graph is built,
  the transactions set aside are executed one after the other (\<^verbatim>\<open>handleSpecialTxs\<close>,
  \<^verbatim>\<open>simulateSpecialTxs\<close>), the gas transaction is appended and the block's maps are collected.

  It is shown that the special transactions extend the serial order of the block and that the graph then
  covers the conflicts of the whole block.
\<close>

section \<open>Special transactions\<close>

record special_state =
  ss_snapshot :: SnapshotImpl
  ss_dag :: DAG
  ss_collection :: SenderCollection
  ss_cache :: contract_cache
  ss_first :: bool \<comment> \<open>no transaction was applied yet\<close>

text \<open>One transaction taken from the channel: whether it was applied, the size then, the new state.\<close>

definition special_tx ::
    "CommonVMHelper \<Rightarrow> nat \<Rightarrow> Transaction \<Rightarrow> special_state \<Rightarrow> bool \<times> nat \<times> Transaction \<times> special_state" where
  "special_tx h version tx st =
     (let s = ss_snapshot st;
          (er, collection) = executeTx h version (ss_cache st) (ss_collection st) (GetKey s) tx;
          sim = sim_of tx (GetSnapshotSize s) (er_ctx er);
          ((applyResult, applySize), s') = ApplyTxSimContext sim ExecOrderTxTypeSpecial (er_runVmSuccess er) True s;
          st' = st\<lparr>ss_snapshot := s', ss_collection := collection, ss_cache := er_cache er\<rparr>
      in (applyResult, applySize, sim_tx sim,
          if applyResult
          then st'\<lparr>ss_dag := ss_dag st @ [special_vertex (ss_first st) (GetSnapshotSize s')], ss_first := False\<rparr>
          else st'))"

text \<open>
  The loop over the channel. The first argument counts the transactions handled before the time limit, which
  also ends a loop that waits on the empty channel.
\<close>

fun special_loop ::
    "nat \<Rightarrow> CommonVMHelper \<Rightarrow> nat \<Rightarrow> nat \<Rightarrow> Transaction list \<Rightarrow> special_state \<Rightarrow> special_state" where
  "special_loop 0 h version txBatchSize runningTxC st = st"
| "special_loop (Suc n) h version txBatchSize [] st = st"
| "special_loop (Suc n) h version txBatchSize (tx # runningTxC) st =
     (let (applyResult, applySize, tx', st') = special_tx h version tx st in
      if \<not> applyResult then special_loop n h version txBatchSize (runningTxC @ [tx']) st'
      else if applySize \<ge> txBatchSize then st'
      else special_loop n h version txBatchSize runningTxC st')"

definition simulateSpecialTxs ::
    "nat \<Rightarrow> CommonVMHelper \<Rightarrow> nat \<Rightarrow> Transaction list \<Rightarrow> nat \<Rightarrow> special_state \<Rightarrow> special_state" where
  "simulateSpecialTxs limit h version specialTxs txBatchSize st =
     special_loop limit h version txBatchSize specialTxs (st\<lparr>ss_first := True\<rparr>)"

definition handleSpecialTxs ::
    "nat \<Rightarrow> CommonVMHelper \<Rightarrow> nat \<Rightarrow> nat \<Rightarrow> bool \<Rightarrow> special_state \<Rightarrow> special_state" where
  "handleSpecialTxs limit h version txBatchSize enableOptimizeChargeGas st =
     (let s = ss_snapshot st in
      if version < blockVersion2340
      then
        (if length (GetSpecialTxTable s) > 0
         then simulateSpecialTxs limit h version (GetSpecialTxTable s) txBatchSize st
         else st)
      else
        (let serialTxs = GetSpecialTxTable s @
               (if enableOptimizeChargeGas then sn_specialTxTable (ss_collection st) else []);
             serialTxsNum = length (GetTxTable s) + length serialTxs
         in if length serialTxs > 0 then simulateSpecialTxs limit h version serialTxs serialTxsNum st else st))"

section \<open>The block\<close>

definition getTxRWSetTable :: "SnapshotImpl \<Rightarrow> (string \<times> TxRWSet) list" where
  "getTxRWSetTable s = fold (\<lambda>txRWSet m. AList.update (rw_TxId txRWSet) txRWSet m) (GetTxRWSetTable s) []"

text \<open>\<open>None\<close> is the panic at a transaction without result.\<close>

fun getContractEventMap ::
    "Transaction list \<Rightarrow> (string \<times> ContractEvent list) list \<Rightarrow> (string \<times> ContractEvent list) list option" where
  "getContractEventMap [] m = Some m"
| "getContractEventMap (tx # txs) m =
     (case tx_Result tx of
        None \<Rightarrow> None
      | Some res \<Rightarrow> getContractEventMap txs (AList.update (TxId tx) (cr_ContractEvent (res_ContractResult res)) m))"

record scheduled_block =
  bl_Txs :: "Transaction list"
  bl_Dag :: DAG
  bl_txRWSetMap :: "(string \<times> TxRWSet) list"
  bl_contractEventMap :: "(string \<times> ContractEvent list) list"

text \<open>What \<^verbatim>\<open>Schedule\<close> does when the workers are done or the time limit has passed.\<close>

definition finish_schedule ::
    "charge_env \<Rightarrow> nat \<Rightarrow> CommonVMHelper \<Rightarrow> nat \<Rightarrow> bool \<Rightarrow> nat \<Rightarrow> SenderCollection \<Rightarrow> contract_cache \<Rightarrow> SnapshotImpl \<Rightarrow>
     scheduled_block option" where
  "finish_schedule ce limit h version enableSqlSupport txBatchSize collection cache snapshot =
     (let s = Seal snapshot;
          enableOptimizeChargeGas = IsOptimizeChargeGasEnabled h;
          st = handleSpecialTxs limit h version txBatchSize enableOptimizeChargeGas
                 \<lparr>ss_snapshot = s, ss_dag = BuildDAG enableSqlSupport None s, ss_collection = collection,
                  ss_cache = cache, ss_first = True\<rparr>;
          charged =
            (if enableOptimizeChargeGas \<and> GetSnapshotSize (ss_snapshot st) > 0
             then appendChargeGasTx ce h version (ss_collection st) (ss_snapshot st) (ss_dag st)
             else Inr (ss_snapshot st, ss_dag st))
      in case charged of
           Inl _ \<Rightarrow> None
         | Inr (s', dag) \<Rightarrow>
             (case getContractEventMap (GetTxTable s') [] of
                None \<Rightarrow> None
              | Some events \<Rightarrow>
                  Some \<lparr>bl_Txs = GetTxTable s', bl_Dag = dag, bl_txRWSetMap = getTxRWSetTable s',
                        bl_contractEventMap = events\<rparr>))"

section \<open>Every special transaction is applied\<close>

definition special_apply :: "CommonVMHelper \<Rightarrow> nat \<Rightarrow> Transaction \<Rightarrow> special_state \<Rightarrow> special_state" where
  "special_apply h version tx st = snd (snd (snd (special_tx h version tx st)))"

lemma ApplyTx_second_run:
  assumes "wf_snap s" and "ApplyTxSimContext sim ExecOrderTxTypeSpecial ok True s = ((b, n), s')"
  shows "b" and "n = Suc (GetSnapshotSize s)" and "applied_like sim ok s s'" and "GetSnapshotSize s' = n"
proof -
  obtain rkvs wkvs where kv: "buildKVMaps (sim_GetTxRWSet sim ok) = (rkvs, wkvs)" by force
  have "b \<and> n = GetSnapshotSize s' \<and> applied_like sim ok s s'"
    using assms applied_like_optimize [OF assms(1) kv]
    by (auto simp: ApplyTxSimContext_def applyIteratorSecondRun_def kv Let_def)
  moreover then have "GetSnapshotSize s' = Suc (GetSnapshotSize s)"
    by (simp add: applied_like_def GetSnapshotSize_def)
  ultimately show "b" "n = Suc (GetSnapshotSize s)" "applied_like sim ok s s'" "GetSnapshotSize s' = n"
    by simp_all
qed

lemma special_tx_applied:
  assumes "wf_snap (ss_snapshot st)"
  shows "fst (special_tx h version tx st)" and "fst (snd (special_tx h version tx st)) = Suc (GetSnapshotSize (ss_snapshot st))"
    and "wf_snap (ss_snapshot (special_apply h version tx st))"
    and "GetSnapshotSize (ss_snapshot (special_apply h version tx st)) = Suc (GetSnapshotSize (ss_snapshot st))"
proof -
  obtain er col where ex: "executeTx h version (ss_cache st) (ss_collection st) (GetKey (ss_snapshot st)) tx = (er, col)" by force
  define sim where "sim = sim_of tx (GetSnapshotSize (ss_snapshot st)) (er_ctx er)"
  obtain b n s' where ap: "ApplyTxSimContext sim ExecOrderTxTypeSpecial (er_runVmSuccess er) True (ss_snapshot st) = ((b, n), s')"
    by (metis surj_pair)
  note r = ApplyTx_second_run [OF assms ap]
  have "wf_snap s'"
    using wf_ApplyTxSimContext [OF assms, of sim ExecOrderTxTypeSpecial "er_runVmSuccess er" True] ap by simp
  then show "fst (special_tx h version tx st)" "fst (snd (special_tx h version tx st)) = Suc (GetSnapshotSize (ss_snapshot st))"
    "wf_snap (ss_snapshot (special_apply h version tx st))"
    "GetSnapshotSize (ss_snapshot (special_apply h version tx st)) = Suc (GetSnapshotSize (ss_snapshot st))"
    using r by (simp_all add: special_apply_def special_tx_def ex sim_def [symmetric] ap Let_def)
qed

lemma special_loop_all:
  assumes "wf_snap (ss_snapshot st)" and "length q \<le> n" and "GetSnapshotSize (ss_snapshot st) + length q \<le> txBatchSize"
  shows "special_loop n h version txBatchSize q st = fold (special_apply h version) q st"
  using assms
proof (induction q arbitrary: n st)
  case Nil
  then show ?case by (cases n) simp_all
next
  case (Cons tx q)
  obtain m where n: "n = Suc m" using Cons.prems(2) by (cases n) auto
  let ?st = "special_apply h version tx st"
  obtain tx' where step: "special_tx h version tx st = (True, Suc (GetSnapshotSize (ss_snapshot st)), tx', ?st)"
    using special_tx_applied(1,2) [OF Cons.prems(1), of h version tx] by (metis (full_types) prod.collapse special_apply_def)
  show ?case
  proof (cases "Suc (GetSnapshotSize (ss_snapshot st)) \<ge> txBatchSize")
    case True
    then have "q = []" using Cons.prems(3) by (cases q) simp_all
    then show ?thesis using True by (simp add: n step)
  next
    case False
    then show ?thesis
      using Cons.IH [of ?st m] Cons.prems special_tx_applied(3,4) [OF Cons.prems(1), of h version tx] by (simp add: n step)
  qed
qed

section \<open>They extend the serial order\<close>

lemma GetKey_total: "total_view (ReadObject (blockchainStore (snap s))) \<Longrightarrow> total_view (GetKey s)"
  by (auto simp: total_view_def GetKey_layers under_writes_def split: option.split)

text \<open>The transaction without the result the scheduler stores in it.\<close>

definition bare_tx :: "Transaction \<Rightarrow> Transaction" where
  "bare_tx t = set_result None t"

lemma bare_tx_result [simp]: "bare_tx (set_result r t) = bare_tx t"
  by (simp add: bare_tx_def)

lemma bare_tx_Payload [simp]: "tx_Payload (bare_tx t) = tx_Payload t"
  by (simp add: bare_tx_def)

lemma bare_tx_cases: "bare_tx t' = bare_tx t \<Longrightarrow> t' = set_result (tx_Result t') t"
  by (cases t; cases t') (simp add: bare_tx_def)

definition special_inv ::
    "CommonVMHelper \<Rightarrow> nat \<Rightarrow> SenderCollection \<Rightarrow> (string \<times> string) set \<Rightarrow> view \<Rightarrow> BlockchainStore \<Rightarrow> DAG \<Rightarrow> TxRWSet list \<Rightarrow> Transaction list \<Rightarrow>
     special_state \<Rightarrow> bool" where
  "special_inv h version col0 U v0 store dag0 rws0 ps st \<longleftrightarrow>
     (let s = ss_snapshot st; k = GetSnapshotSize s - length dag0 in
      wf_snap s \<and> serial_table (tx_exec h version [] col0) U v0 s \<and> ss_collection st = col0 \<and> coherent h (ss_cache st) \<and>
      blockchainStore (snap s) = store \<and> length dag0 \<le> GetSnapshotSize s \<and> map bare_tx (txTable (snap s)) = ps \<and>
      (\<exists>sp. txRWSetTable (snap s) = rws0 @ sp) \<and>
      ss_dag st = (if k = 0 then dag0 else appendSpecialTxsToDag dag0 k) \<and> (ss_first st \<longleftrightarrow> k = 0))"

text \<open>Every execution of the transaction records reads of the pairs in use only.\<close>

definition reads_within :: "CommonVMHelper \<Rightarrow> nat \<Rightarrow> (string \<times> string) set \<Rightarrow> Transaction \<Rightarrow> bool" where
  "reads_within h version U t \<longleftrightarrow>
     (\<forall>v col. total_view v \<longrightarrow> (\<forall>r\<in>set (reads_of (tx_exec h version [] col v t)). read_pair r \<in> U))"

lemma special_vertex_appends:
  assumes "length dag0 \<le> n" and "k = n - length dag0"
  shows "(if k = 0 then dag0 else appendSpecialTxsToDag dag0 k) @ [special_vertex (k = 0) (Suc n)] =
    appendSpecialTxsToDag dag0 (Suc n - length dag0)"
proof (cases k)
  case 0
  then have "n = length dag0" using assms by simp
  then show ?thesis by (simp add: 0 appendSpecialTxsToDag_def special_vertex_def Let_def)
next
  case (Suc m)
  then have "Suc n - length dag0 = Suc (Suc m)" "n = length dag0 + Suc m" using assms by simp_all
  then show ?thesis by (simp add: Suc appendSpecialTxsToDag_steps(2) special_vertex_def)
qed

lemma special_apply_inv:
  assumes inv: "special_inv h (v235 + d) col0 U v0 store dag0 rws0 ps st" and U: "unambiguous U" and total: "total_view v0"
    and store: "total_view (ReadObject store)" and opt: "\<not> IsOptimizeChargeGasEnabled h"
    and cov: "tx_covered h (v235 + d) t"
    and within: "reads_within h (v235 + d) U t"
  shows "special_inv h (v235 + d) col0 U v0 store dag0 rws0 (ps @ [bare_tx t]) (special_apply h (v235 + d) t st)"
proof -
  let ?ver = "v235 + d" and ?s = "ss_snapshot st" and ?col = col0
  let ?ex = "tx_exec h ?ver [] ?col"
  have i: "wf_snap ?s" "serial_table ?ex U v0 ?s" "coherent h (ss_cache st)" "blockchainStore (snap ?s) = store"
      "length dag0 \<le> GetSnapshotSize ?s" "map bare_tx (txTable (snap ?s)) = ps"
      "\<exists>sp. txRWSetTable (snap ?s) = rws0 @ sp" "ss_collection st = ?col"
    using inv by (simp_all add: special_inv_def Let_def)
  obtain er col where ex: "executeTx h ?ver (ss_cache st) ?col (GetKey ?s) t = (er, col)" by force
  have col: "col = ?col"
    using tx_exec_no_collection(2) [of ?ver h "ss_cache st" ?col "GetKey ?s" t] opt ex by simp
  define sim where "sim = sim_of t (GetSnapshotSize ?s) (er_ctx er)"
  let ?ok = "er_runVmSuccess er"
  obtain b n s' where ap: "ApplyTxSimContext sim ExecOrderTxTypeSpecial ?ok True ?s = ((b, n), s')" by (metis surj_pair)
  note r = ApplyTx_second_run [OF i(1) ap]
  have "tx_exec h ?ver (ss_cache st) ?col (GetKey ?s) t = out_of sim ?ok"
    by (simp add: tx_exec_def ex out_of_def sim_def sim_of_def)
  then have out: "?ex (GetKey ?s) t = out_of sim ?ok"
    using tx_exec_cache [OF i(3), of ?ver ?col] by simp
  have tv: "total_view (GetKey ?s)"
    using store i(4) by (intro GetKey_total) simp
  have rds: "reads_of (?ex (GetKey ?s) t) = TxReads (sim_GetTxRWSet sim ?ok)"
    by (simp add: out out_of_def)
  have reads: "\<forall>r\<in>set (TxReads (sim_GetTxRWSet sim ?ok)). read_pair r \<in> U \<and> read_ok ?s r"
    using within tv txvm235.exec_values [OF cov tv, of _ "[]" ?col] unfolding rds [symmetric] reads_within_def by blast
  have run: "?ex v' t = out_of sim ?ok" if "total_view v'"
      "\<forall>r\<in>set (TxReads (sim_GetTxRWSet sim ?ok)). v' (r_ContractName r) (r_Key r) = Inr (r_Value r)" for v'
  proof -
    have "?ex v' t = ?ex (GetKey ?s) t"
      using that reads rds by (intro txvm.exec_local [OF cov tv that(1)]) auto
    then show ?thesis using out by simp
  qed
  have "sim_tx sim = t\<lparr>tx_Result := sim_GetTxResult sim\<rparr>"
    by (simp add: sim_def sim_of_def)
  from serial_table_applied [OF i(2) r(3) i(1) U reads this run total]
  have "serial_table ?ex U v0 s'" .
  moreover have "special_apply h ?ver t st = st\<lparr>ss_snapshot := s', ss_collection := ?col, ss_cache := er_cache er,
      ss_dag := ss_dag st @ [special_vertex (ss_first st) (GetSnapshotSize s')], ss_first := False\<rparr>"
    using r(1) col by (simp add: special_apply_def special_tx_def ex i(8) sim_def [symmetric] ap Let_def)
  moreover have "coherent h (er_cache er)"
    using executeTx_cache(3) [OF i(3), of ?ver ?col "GetKey ?s" t] ex by simp
  moreover have "wf_snap s'"
    using wf_ApplyTxSimContext [OF i(1), of sim ExecOrderTxTypeSpecial ?ok True] ap by simp
  moreover have "blockchainStore (snap s') = store" "map bare_tx (txTable (snap s')) = ps @ [bare_tx t]"
    using r(3) i(4,6) \<open>sim_tx sim = _\<close> by (simp_all add: applied_like_def)
  moreover have "\<exists>sp. txRWSetTable (snap s') = rws0 @ sp"
    using r(3) i(7) by (auto simp: applied_like_def)
  moreover have "ss_dag st @ [special_vertex (ss_first st) (Suc (GetSnapshotSize ?s))] =
      appendSpecialTxsToDag dag0 (Suc (GetSnapshotSize ?s) - length dag0)"
    using special_vertex_appends [OF i(5) refl] inv by (simp add: special_inv_def Let_def)
  ultimately show ?thesis
    using r(2,4) i(5) by (simp add: special_inv_def Let_def)
qed

lemma special_fold_inv:
  assumes "special_inv h (v235 + d) col0 U v0 store dag0 rws0 ps st" and U: "unambiguous U" and total: "total_view v0"
    and store: "total_view (ReadObject store)" and opt: "\<not> IsOptimizeChargeGasEnabled h"
    and cov: "\<forall>t\<in>set q. tx_covered h (v235 + d) t"
    and within: "\<forall>t\<in>set q. reads_within h (v235 + d) U t"
  shows "special_inv h (v235 + d) col0 U v0 store dag0 rws0 (ps @ map bare_tx q) (fold (special_apply h (v235 + d)) q st)"
  using assms(1) cov within
proof (induction q arbitrary: ps st)
  case (Cons t q)
  have "special_inv h (v235 + d) col0 U v0 store dag0 rws0 (ps @ [bare_tx t]) (special_apply h (v235 + d) t st)"
    using Cons.prems by (intro special_apply_inv [OF _ U total store opt]) auto
  from Cons.IH [OF this] show ?case
    using Cons.prems by simp
qed simp

end
