(* ===== verification/Blocks.thy ===== *)
theory Blocks
  imports Special
begin

text \<open>
  Proposer and verifier together: the block the default scheduler assembles from any interleaving of its
  workers is accepted by \<^verbatim>\<open>SimulateWithDag\<close> on a node with the same store, whose replay can always be
  brought to its regular end and then returns the read-write sets and the results of the proposer.
\<close>

section \<open>What a finished replay returns\<close>

lemma replay_result:
  assumes ctrl: "sim_ctrl dag st" and data: "sim_data txs v0 outs st" and len: "length dag = length txs"
    and all: "length (sm_applied st) = length txs" and ids: "distinct (map TxId txs)"
    and rwid: "\<forall>i<length txs. rw_TxId (fst (outs ! i)) = TxId (txs ! i)" and i: "i < length txs"
  shows "map_of (fst (SimulateWithDag_result st)) (TxId (txs ! i)) = Some (fst (outs ! i))"
    and "snd (SimulateWithDag_result st) (TxId (txs ! i)) = Some (snd (outs ! i))"
proof -
  let ?A = "sm_applied st"
  have fin: "mset ?A = mset (finished_indices st)" and t: "tables_ok txs v0 outs (sm_snapshot st) ?A"
    using data by (simp_all add: sim_data_def)
  have dist: "distinct ?A"
    using ctrl mset_eq_imp_distinct_iff [OF fin] by (auto simp: sim_ctrl_def released_def finished_indices_def)
  have sub: "set ?A \<subseteq> {0..<length txs}"
    using ctrl mset_eq_setD [OF fin] finished_released [of st] len by (auto simp: sim_ctrl_def)
  then have "set ?A = {0..<length txs}"
    using distinct_card [OF dist] all by (intro card_subset_eq) simp_all
  then have iA: "i \<in> set ?A" using i by simp
  have "inj_on (\<lambda>j. TxId (txs ! j)) {0..<length txs}"
  proof (rule inj_onI)
    fix x y assume "x \<in> {0..<length txs}" "y \<in> {0..<length txs}" "TxId (txs ! x) = TxId (txs ! y)"
    then show "x = y" using nth_eq_iff_index_eq [OF ids, of x y] by simp
  qed
  then have "distinct (map (\<lambda>j. TxId (txs ! j)) ?A)"
    using dist sub by (simp add: distinct_map inj_on_subset)
  then have lookup: "map_of (rev (map (\<lambda>j. (TxId (txs ! j), f j)) ?A)) (TxId (txs ! i)) = Some (f i)" for f :: "nat \<Rightarrow> 'x"
    using iA by (simp add: map_of_eq_Some_iff comp_def rev_map [symmetric])
  have tab: "txRWSetTable (snap (sm_snapshot st)) = map (\<lambda>i. fst (outs ! i)) ?A"
      "txResultMap (snap (sm_snapshot st)) = map_of (rev (map (\<lambda>i. (TxId (txs ! i), snd (outs ! i))) ?A))"
    using t by (simp_all add: tables_ok_def)
  have e: "map (\<lambda>j. (rw_TxId (fst (outs ! j)), fst (outs ! j))) ?A = map (\<lambda>j. (TxId (txs ! j), fst (outs ! j))) ?A"
    using rwid sub by auto
  show "map_of (fst (SimulateWithDag_result st)) (TxId (txs ! i)) = Some (fst (outs ! i))"
    using lookup [of "\<lambda>j. fst (outs ! j)"]
    by (simp add: SimulateWithDag_result_def GetTxRWSetTable_def Seal_def tab map_of_fold_update comp_def e)
  show "snd (SimulateWithDag_result st) (TxId (txs ! i)) = Some (snd (outs ! i))"
    using lookup [of "\<lambda>j. snd (outs ! j)"] by (simp add: SimulateWithDag_result_def GetTxResultMap_def Seal_def tab)
qed

section \<open>The proposer's block\<close>

lemma tx_exec_has_result:
  assumes "\<not> IsOptimizeChargeGasEnabled h"
  shows "snd (tx_exec h version cache s v tx) \<noteq> None"
proof -
  have "fst (guard_tx h version s v tx) \<or> sc_txResult (fst (snd (guard_tx h version s v tx))) \<noteq> None"
    using assms by (simp add: guard_tx_def processSenderCollectionIn234_def guardForExecuteTx2300_def guardForExecuteTx2220_def
        SetTxResult_def Let_def split: option.split)
  then show ?thesis
    using assms by (auto simp: tx_exec_def executeTx_base base_run_def guarded_run_def SetTxResult_def Let_def split_beta)
qed

lemma getContractEventMap_total:
  "(\<forall>t\<in>set txs. tx_Result t \<noteq> None) \<Longrightarrow> getContractEventMap txs m \<noteq> None"
  by (induction txs arbitrary: m) auto

lemma serial_table_Seal [simp]: "serial_table ex U v0 (Seal s) = serial_table ex U v0 s"
proof -
  have "GetKey (Seal s) = GetKey s"
    by (auto simp: fun_eq_iff GetKey_layers under_writes_def Seal_def split: option.split)
  then show ?thesis by (simp add: serial_table_def Seal_def)
qed

lemma handleSpecialTxs_all:
  assumes "\<not> version < blockVersion2340" and "wf_snap (ss_snapshot st)" and "ss_first st"
    and "length (GetSpecialTxTable (ss_snapshot st)) \<le> limit"
  shows "handleSpecialTxs limit h version n False st = fold (special_apply h version) (GetSpecialTxTable (ss_snapshot st)) st"
proof -
  have same: "st\<lparr>ss_first := True\<rparr> = st" using assms(3) by simp
  show ?thesis
    unfolding handleSpecialTxs_def simulateSpecialTxs_def same
    using assms(1) special_loop_all [OF assms(2,4), where h = h and version = version]
    by (simp add: GetSnapshotSize_def GetTxTable_def Let_def)
qed

lemma map_of_getTxRWSetTable:
  assumes "txRWSetTable (snap s) = map fst outs" and "distinct (map (rw_TxId \<circ> fst) outs)" and "i < length outs"
  shows "map_of (getTxRWSetTable s) (rw_TxId (fst (outs ! i))) = Some (fst (outs ! i))"
proof -
  have "map_of (rev (map (\<lambda>x. (rw_TxId (fst x), fst x)) outs)) (rw_TxId (fst (outs ! i))) = Some (fst (outs ! i))"
    using assms(2,3) by (simp add: map_of_eq_Some_iff comp_def rev_map [symmetric])
  then show ?thesis
    by (simp add: getTxRWSetTable_def GetTxRWSetTable_def assms(1) map_of_fold_update comp_def)
qed

lemma serial_run_results:
  assumes "\<not> IsOptimizeChargeGasEnabled h" and "serial_run (tx_exec h version [] col) v0 ts = (outs, w)"
  shows "getContractEventMap (map2 (\<lambda>t out. set_result (snd out) t) ts outs) m \<noteq> None"
proof -
  have len: "length outs = length ts" using length_serial_run [of "tx_exec h version [] col" v0 ts] assms(2) by simp
  have "snd o1 \<noteq> None" if o1: "o1 \<in> set outs" for o1
  proof -
    obtain i where i: "i < length ts" "o1 = outs ! i" using o1 unfolding in_set_conv_nth len by blast
    obtain v' where "outs ! i = tx_exec h version [] col v' (ts ! i)"
      using serial_run_nth [OF i(1), of "tx_exec h version [] col" v0] assms(2) by auto
    then show ?thesis using tx_exec_has_result [OF assms(1)] i(2) by simp
  qed
  then show ?thesis by (intro getContractEventMap_total) (auto dest: set_zip_rightD)
qed

lemma finish_schedule_plain:
  assumes "\<not> IsOptimizeChargeGasEnabled h"
    and "handleSpecialTxs limit h version n False \<lparr>ss_snapshot = Seal s, ss_dag = BuildDAG isSql (Some (txRWSetTable (snap s))) (Seal s),
        ss_collection = col, ss_cache = cache, ss_first = True\<rparr> = st"
    and "getContractEventMap (GetTxTable (ss_snapshot st)) [] = Some events"
  shows "finish_schedule ce limit h version isSql n col cache s =
    Some \<lparr>bl_Txs = GetTxTable (ss_snapshot st), bl_Dag = ss_dag st, bl_txRWSetMap = getTxRWSetTable (ss_snapshot st),
      bl_contractEventMap = events\<rparr>"
proof -
  have "BuildDAG isSql None (Seal s) = BuildDAG isSql (Some (txRWSetTable (snap s))) (Seal s)"
    by (simp add: BuildDAG_def Seal_def)
  then show ?thesis using assms by (simp add: finish_schedule_def Let_def)
qed

lemma default_block:
  assumes wf: "wf_snap s" and table: "serial_table (tx_exec h (v235 + d) [] col) U v0 s" and U: "unambiguous U"
    and total: "total_view v0" and store: "total_view (ReadObject (blockchainStore (snap s)))"
    and opt: "\<not> IsOptimizeChargeGasEnabled h" and coh: "coherent h cache"
    and special: "\<forall>t\<in>set (specialTxTable (snap s)). tx_covered h (v235 + d) t \<and> reads_within h (v235 + d) U t"
    and time: "length (specialTxTable (snap s)) \<le> limit" and keys: "distinct_keys (txRWSetTable (snap s))"
  shows "\<exists>bl ts outs v. finish_schedule ce limit h (v235 + d) False n col cache s = Some bl \<and>
    serial_run (tx_exec h (v235 + d) [] col) v0 ts = (outs, v) \<and>
    bl_Txs bl = map2 (\<lambda>t out. set_result (snd out) t) ts outs \<and> dag_covers (bl_Dag bl) (map fst outs) \<and>
    map bare_tx (bl_Txs bl) = map bare_tx (txTable (snap s) @ specialTxTable (snap s)) \<and>
    (distinct (map (rw_TxId \<circ> fst) outs) \<longrightarrow>
      (\<forall>i<length outs. map_of (bl_txRWSetMap bl) (rw_TxId (fst (outs ! i))) = Some (fst (outs ! i))))"
proof -
  let ?ver = "v235 + d" and ?rws = "txRWSetTable (snap s)" and ?q = "specialTxTable (snap s)"
  let ?dag = "BuildDAG False (Some ?rws) (Seal s)"
  define st where "st = \<lparr>ss_snapshot = Seal s, ss_dag = ?dag, ss_collection = col, ss_cache = cache, ss_first = True\<rparr>"
  have dag: "length ?dag = length ?rws" "dag_covers ?dag ?rws"
    using BuildDAG_ok(2) [OF keys] BuildDAG_covers [OF keys] by simp_all
  have size: "length ?rws = length (txTable (snap s))" using wf by (simp add: wf_snap_def)
  have inv: "special_inv h ?ver col U v0 (blockchainStore (snap s)) ?dag ?rws (map bare_tx (txTable (snap s))) st"
    using wf table coh dag(1) size wf_Seal [OF wf]
    by (simp add: special_inv_def st_def Seal_def GetSnapshotSize_def) (simp flip: Seal_def)
  define st' where "st' = fold (special_apply h ?ver) ?q st"
  have inv': "special_inv h ?ver col U v0 (blockchainStore (snap s)) ?dag ?rws (map bare_tx (txTable (snap s)) @ map bare_tx ?q) st'"
    unfolding st'_def using special by (intro special_fold_inv [OF inv U total store opt]) auto
  let ?s' = "ss_snapshot st'" and ?ex = "tx_exec h ?ver [] col"
  have v: "\<not> ?ver < blockVersion2340" by (simp add: v235_def blockVersion2340_def)
  have handled: "handleSpecialTxs limit h ?ver n False st = st'"
    using handleSpecialTxs_all [OF v, of st limit h n] inv time
    by (simp add: st'_def special_inv_def Let_def) (simp add: st_def GetSpecialTxTable_def Seal_def)
  obtain ts outs w where run: "serial_run ?ex v0 ts = (outs, w)"
      and tab: "txTable (snap ?s') = map2 (\<lambda>t out. set_result (snd out) t) ts outs" "txRWSetTable (snap ?s') = map fst outs"
    using inv' by (auto simp: special_inv_def serial_table_def Let_def)
  obtain sp where sp: "map fst outs = ?rws @ sp"
    using inv' tab(2) by (auto simp: special_inv_def Let_def)
  have len: "length outs = length ts" using length_serial_run [of ?ex v0 ts] run by simp
  have size': "GetSnapshotSize ?s' = length ?rws + length sp"
  proof -
    have "wf_snap ?s'" using inv' by (simp add: special_inv_def Let_def)
    then show ?thesis using arg_cong [OF sp, of length] by (simp add: wf_snap_def tab(2) GetSnapshotSize_def)
  qed
  have "dag_covers (ss_dag st') (map fst outs)"
  proof (cases "length sp")
    case 0
    then have "ss_dag st' = ?dag" "map fst outs = ?rws"
      using inv' dag(1) size' sp by (simp_all add: special_inv_def Let_def)
    then show ?thesis using dag(2) by (simp only:)
  next
    case (Suc c)
    then have "ss_dag st' = appendSpecialTxsToDag ?dag (Suc c)"
      using inv' dag(1) size' by (simp add: special_inv_def Let_def)
    then show ?thesis using appendSpecialTxsToDag_covers [OF dag(2) Suc] by (simp only: sp)
  qed
  moreover obtain events where ev: "getContractEventMap (GetTxTable ?s') [] = Some events"
    using serial_run_results [OF opt run, of "[]"] by (auto simp: GetTxTable_def tab(1))
  note finish_schedule_plain [OF opt handled [unfolded st_def] ev, of ce]
  moreover have "map bare_tx (GetTxTable ?s') = map bare_tx (txTable (snap s) @ ?q)"
    using inv' by (simp add: special_inv_def GetTxTable_def Let_def)
  moreover have "GetTxTable ?s' = map2 (\<lambda>t out. set_result (snd out) t) ts outs"
    by (simp add: GetTxTable_def tab(1))
  ultimately show ?thesis
    using run map_of_getTxRWSetTable [OF tab(2)]
    by (intro exI [of _ "\<lparr>bl_Txs = GetTxTable ?s', bl_Dag = ss_dag st', bl_txRWSetMap = getTxRWSetTable ?s',
        bl_contractEventMap = events\<rparr>"] exI [of _ ts] exI [of _ outs] exI [of _ w]) (simp del: map_eq_conv)
qed

section \<open>The transactions of the block\<close>

text \<open>Only transactions of the batch get into the tables; the results stored in them are all that changes.\<close>

definition occ_from :: "BlockchainStore \<Rightarrow> Transaction list \<Rightarrow> occ_state \<Rightarrow> bool" where
  "occ_from store txs st \<longleftrightarrow> blockchainStore (snap (oc_snapshot st)) = store \<and> bare_tx ` (occ_txs st \<union> set (txTable (snap (oc_snapshot st)) @ specialTxTable (snap (oc_snapshot st))))
     \<subseteq> bare_tx ` set txs"

lemma apply_tables:
  assumes "ApplyTxSimContext sim specialTxType ok False s = ((applied, n), s')" and "wf_snap s"
    and "specialTxType \<noteq> ExecOrderTxTypeChargeGas"
  shows "set (txTable (snap s') @ specialTxTable (snap s')) \<subseteq> insert (sim_tx sim) (set (txTable (snap s) @ specialTxTable (snap s)))
    \<and> blockchainStore (snap s') = blockchainStore (snap s)"
proof (cases specialTxType)
  case ExecOrderTxTypeNormal
  then show ?thesis using ApplyTx_normal_cases [of sim ok s applied n s'] assms by (auto simp: applied_like_def)
next
  case ExecOrderTxTypeSpecial
  then show ?thesis using ApplyTx_special_cases [of sim ok s applied n s'] assms by auto
qed (use assms in simp)

lemma occ_from_step:
  assumes "occ_step ex U st st'" and "wf_snap (oc_snapshot st)" and batch: "occ_from store txs st"
  shows "occ_from store txs st'"
  using assms(1)
proof (cases rule: occ_step.cases)
  case (apply_tx_step sim x ok v specialTxType s applyResult applySize s' R1 R2 P)
  have "bare_tx (sim_tx sim) \<in> bare_tx ` set txs"
    using batch apply_tx_step(1,5) by (auto simp: occ_from_def occ_txs_def)
  moreover have "set (txTable (snap s') @ specialTxTable (snap s')) \<subseteq>
      insert (sim_tx sim) (set (txTable (snap s) @ specialTxTable (snap s)))" "blockchainStore (snap s') = blockchainStore (snap s)"
    using assms(2) apply_tx_step(1) apply_tables [OF apply_tx_step(8) _ apply_tx_step(7)] by simp_all
  moreover have "occ_txs st' \<subseteq> insert (sim_tx sim) (occ_txs st)"
    using apply_tx_step(1,2) by (auto simp: occ_txs_def)
  moreover have "oc_snapshot st' = s'" "oc_snapshot st = s"
    using apply_tx_step(1,2) by simp_all
  ultimately show ?thesis
    using batch unfolding occ_from_def by (simp only:) blast
next
  case (seal_step s R P)
  then show ?thesis using batch by (simp add: occ_from_def occ_txs_def Seal_def)
qed (use batch in \<open>auto simp: occ_from_def occ_txs_def\<close>)

lemma occ_from_reach:
  assumes "occ_reach (tx_exec h (v235 + d) [] col) U \<lparr>oc_snapshot = makeSnapshotImpl store ver, oc_running = [], oc_pool = txs\<rparr> st"
    and "unambiguous U" and "total_view (ReadObject store)"
    and "\<forall>t\<in>set txs. \<forall>r. tx_covered h (v235 + d) (set_result r t)"
  shows "occ_from store txs st \<and> occ_inv (tx_exec h (v235 + d) [] col) U (ReadObject store) (mset (map tx_Payload txs)) st"
  using assms(1)
proof induction
  case start
  show ?case using occ_inv_start by (auto simp: occ_from_def occ_txs_def makeSnapshotImpl_def)
next
  case (step st st')
  have "occ_inv (tx_exec h (v235 + d) [] col) U (ReadObject store) (mset (map tx_Payload txs)) st'"
    using executor.occ_inv_reach [OF txvm.executor_axioms occ_reach.step [OF step.hyps] occ_inv_start assms(2,3)] assms(4) by (simp add: occ_txs_def)
  then show ?case
    using occ_from_step [OF step.hyps(2)] step.IH by (simp add: occ_inv_def)
qed

section \<open>The replay of a covered block\<close>

lemma replay_inv_start:
  assumes "initSimulateDag dag = Inr init" and "dag \<noteq> []"
  shows "replay_inv dag txs (ReadObject store) outs (sim_start (makeSnapshotImpl store ver) init)"
  using sim_ctrl_start [OF assms(1)] sim_data_start [OF assms(1)] msgs_ok_start [of "length dag"] assms(2)
  by (simp add: replay_inv_def)

text \<open>
  What a verifier that starts from the proposer's store obtains: its loop can always be brought to
  the regular end, and once every transaction is applied it returns the given outcomes.
\<close>

definition replay_agrees ::
    "exec_fun \<Rightarrow> (nat list \<Rightarrow> nat list) \<Rightarrow> Transaction list \<Rightarrow> (string \<rightharpoonup> TxRWSet) \<Rightarrow> sim_state \<Rightarrow> bool" where
  "replay_agrees ex order txs rwsets st0 \<longleftrightarrow>
     (\<forall>st. sim_reach order (length txs) ex txs st0 st \<longrightarrow>
        (\<not> sm_finished st \<longrightarrow> (\<exists>st'. sim_reach order (length txs) ex txs st st' \<and> sm_finished st' \<and>
           length (sm_applied st') = length txs)) \<and>
        (length (sm_applied st) = length txs \<longrightarrow> (\<forall>t\<in>set txs.
           map_of (fst (SimulateWithDag_result st)) (TxId t) = rwsets (TxId t) \<and> rwsets (TxId t) \<noteq> None \<and>
           snd (SimulateWithDag_result st) (TxId t) = Some (tx_Result t))))"

context read_executor
begin

lemma covered_block_replays:
  assumes serial: "serial_run ex (ReadObject store) txs = (outs, v1)" and cov: "dag_covers dag (map fst outs)"
    and order: "\<And>l. mset (order l) = mset l" and U: "unambiguous (rw_pairs (map fst outs))"
    and total: "total_view (ReadObject store)" and covered: "\<forall>t\<in>set txs. covered t" and ne: "txs \<noteq> []"
    and ids: "distinct (map TxId txs)"
    and outs: "\<forall>i<length txs. rw_TxId (fst (outs ! i)) = TxId (txs ! i) \<and> rwsets (TxId (txs ! i)) = Some (fst (outs ! i)) \<and>
      snd (outs ! i) = tx_Result (txs ! i)"
  shows "\<exists>st0. SimulateWithDag_start version txs dag (makeSnapshotImpl store ver) = Inr (Some st0) \<and>
    replay_agrees ex order txs rwsets st0"
proof -
  have len: "length dag = length txs"
    using cov length_serial_run [of ex "ReadObject store" txs] serial by (simp add: dag_covers_def)
  obtain init where init: "initSimulateDag dag = Inr init"
    using initSimulateDag_cases [of dag] cov by (cases "initSimulateDag dag") (auto simp: dag_covers_def)
  let ?st0 = "sim_start (makeSnapshotImpl store ver) init"
  have "dag \<noteq> []" using len ne by auto
  note start = replay_inv_start [OF init this, of txs store outs ver]
  have "replay_agrees ex order txs rwsets ?st0"
    unfolding replay_agrees_def
  proof (intro allI impI conjI ballI)
    fix st assume reach: "sim_reach order (length txs) ex txs ?st0 st"
    then have inv: "replay_inv dag txs (ReadObject store) outs st"
      using replay_inv_reach [OF _ start order cov U total serial covered] len by simp
    show "\<exists>st'. sim_reach order (length txs) ex txs st st' \<and> sm_finished st' \<and> length (sm_applied st') = length txs"
      if "\<not> sm_finished st"
      using replay_ends_values [OF inv cov order U total serial covered serial total covered that] ne len by simp
    fix t assume all: "length (sm_applied st) = length txs" and "t \<in> set txs"
    then obtain i where i: "i < length txs" "t = txs ! i" by (auto simp: in_set_conv_nth)
    have inv2: "sim_ctrl dag st" "sim_data txs (ReadObject store) outs st" using inv by (simp_all add: replay_inv_def)
    have "\<forall>i<length txs. rw_TxId (fst (outs ! i)) = TxId (txs ! i)" using outs by blast
    note result = replay_result [OF inv2 len all ids this i(1)]
    from result outs i show "map_of (fst (SimulateWithDag_result st)) (TxId t) = rwsets (TxId t)"
      "rwsets (TxId t) \<noteq> None" "snd (SimulateWithDag_result st) (TxId t) = Some (tx_Result t)" by simp_all
  qed
  then show ?thesis using init ne len by (simp add: SimulateWithDag_start_def)
qed

end

section \<open>Proposed blocks verify\<close>

text \<open>
  What is asked of the batch: no transaction's outcome depends on a read it does not record, the pairs it
  reads and writes are in use, and who pays for it does not depend on an earlier result stored in it.
\<close>

definition pairs_within :: "CommonVMHelper \<Rightarrow> nat \<Rightarrow> (string \<times> string) set \<Rightarrow> Transaction \<Rightarrow> bool" where
  "pairs_within h version U t \<longleftrightarrow>
     (\<forall>v col. total_view v \<longrightarrow> rw_pairs [fst (tx_exec h version [] col v t)] \<subseteq> U)"

lemma pairs_reads_within: "pairs_within h version U t \<Longrightarrow> reads_within h version U t"
  unfolding pairs_within_def reads_within_def rw_pairs_def by simp blast

definition batch_ok :: "CommonVMHelper \<Rightarrow> nat \<Rightarrow> (string \<times> string) set \<Rightarrow> Transaction list \<Rightarrow> bool" where
  "batch_ok h version U txs \<longleftrightarrow> distinct (map TxId txs) \<and>
     (\<forall>t\<in>set txs. payer_fixed h t \<and> (\<forall>r. tx_covered h version (set_result r t) \<and> pairs_within h version U (set_result r t)))"

lemma serial_run_same:
  "length ts = length ts' \<Longrightarrow> (\<And>i v. i < length ts \<Longrightarrow> ex v (ts' ! i) = ex v (ts ! i)) \<Longrightarrow>
   serial_run ex v ts' = serial_run ex v ts"
proof (induction ts ts' arbitrary: v rule: list_induct2)
  case (Cons t ts t' ts')
  have "ex w t' = ex w t" for w using Cons.prems [of 0 w] by simp
  moreover have "serial_run ex w ts' = serial_run ex w ts" for w
    using Cons.prems [of "Suc _"] by (intro Cons.IH) auto
  ultimately show ?case by simp
qed simp

lemma batch_ok_member:
  assumes "batch_ok h version U txs" and "bare_tx t \<in> bare_tx ` set txs"
  shows "payer_fixed h t" and "tx_covered h version t" and "pairs_within h version U t"
proof -
  obtain t0 where t0: "t0 \<in> set txs" "t = set_result (tx_Result t) t0"
    using assms(2) bare_tx_cases by blast
  have "payer_fixed h (set_result r t0)" for r
    using assms(1) t0(1) by (simp add: batch_ok_def payer_fixed_def)
  then show "payer_fixed h t" by (subst t0(2))
  show "tx_covered h version t" by (subst t0(2)) (use assms(1) t0(1) in \<open>simp add: batch_ok_def\<close>)
  show "pairs_within h version U t" by (subst t0(2)) (use assms(1) t0(1) in \<open>simp add: batch_ok_def\<close>)
qed

lemma unambiguous_mono: "unambiguous V \<Longrightarrow> U \<subseteq> V \<Longrightarrow> unambiguous U"
  unfolding unambiguous_def by (rule inj_on_subset)

lemma rw_pairs_mono: "set rws \<subseteq> set rws' \<Longrightarrow> rw_pairs rws \<subseteq> rw_pairs rws'"
  unfolding rw_pairs_def by blast

lemma distinct_submset:
  assumes "mset xs \<subseteq># mset ys" and "distinct ys"
  shows "distinct xs"
proof -
  obtain zs where "mset ys = mset (xs @ zs)"
    using assms(1) by (metis ex_mset mset_append subset_mset.le_iff_add)
  then show ?thesis using assms(2) mset_eq_imp_distinct_iff by fastforce
qed

text \<open>The identifiers of a block taken from the batch are distinct.\<close>

lemma block_ids:
  assumes "occ_payloads st \<subseteq># mset (map tx_Payload txs)" and "distinct (map TxId txs)"
    and "map bare_tx ts = map bare_tx (txTable (snap (oc_snapshot st)) @ specialTxTable (snap (oc_snapshot st)))"
  shows "distinct (map TxId ts)"
proof -
  have "map tx_Payload ts = map tx_Payload (map bare_tx ts)" by simp
  also have "mset \<dots> \<subseteq># occ_payloads st"
    unfolding assms(3) by (simp add: occ_payloads_def comp_def)
  finally have "image_mset p_TxId (mset (map tx_Payload ts)) \<subseteq># image_mset p_TxId (mset (map tx_Payload txs))"
    using assms(1) by (intro image_mset_subseteq_mono) (rule subset_mset.order_trans)
  then have "mset (map TxId ts) \<subseteq># mset (map TxId txs)"
    by (simp add: multiset.map_comp comp_def)
  then show ?thesis
    using assms(2) by (rule distinct_submset)
qed

text \<open>The transactions of the block, which carry their results, run as the ones without.\<close>

lemma rerun_with_results:
  assumes opt: "\<not> IsOptimizeChargeGasEnabled h" and run: "serial_run (tx_exec h version [] col) v0 ts = (outs, v)"
    and txs: "txs = map2 (\<lambda>t out. set_result (snd out) t) ts outs"
    and ok: "\<And>t. t \<in> set txs \<Longrightarrow> payer_fixed h t \<and> tx_covered h version t"
  shows "serial_run (tx_exec h version [] col) v0 txs = (outs, v)" and "length txs = length outs"
    and "\<forall>i<length txs. rw_TxId (fst (outs ! i)) = TxId (txs ! i) \<and> snd (outs ! i) = tx_Result (txs ! i)"
proof -
  let ?ex = "tx_exec h version [] col"
  have len: "length outs = length ts" using length_serial_run [of ?ex v0 ts] run by simp
  then show lent: "length txs = length outs" by (simp add: txs)
  have nth: "txs ! i = set_result (snd (outs ! i)) (ts ! i)" if "i < length ts" for i
    using that len by (simp add: txs)
  have "?ex w (txs ! i) = ?ex w (ts ! i)" if "i < length ts" for i w
  proof -
    have "payer_fixed h (txs ! i)" using ok [OF nth_mem, of i] that len lent by simp
    moreover have "ts ! i = set_result (tx_Result (ts ! i)) (txs ! i)" by (simp add: nth that)
    ultimately show ?thesis using tx_exec_result [OF opt, of "txs ! i"] by metis
  qed
  then show run': "serial_run ?ex v0 txs = (outs, v)"
    using serial_run_same [of ts txs ?ex v0] lent len run by simp
  have "rw_TxId (fst (outs ! i)) = TxId (txs ! i)" if i: "i < length txs" for i
  proof -
    obtain w where "outs ! i = ?ex w (txs ! i)" using serial_run_nth [OF i, of ?ex v0] run' by auto
    then show ?thesis using tx_exec_TxId ok [OF nth_mem [OF i]] by simp
  qed
  then show "\<forall>i<length txs. rw_TxId (fst (outs ! i)) = TxId (txs ! i) \<and> snd (outs ! i) = tx_Result (txs ! i)"
    using nth len lent by simp
qed

lemma serial_pairs_within:
  assumes run: "serial_run (tx_exec h version [] col) v0 txs = (outs, v)" and "total_view v0"
    and "\<And>t. t \<in> set txs \<Longrightarrow> pairs_within h version U t"
  shows "rw_pairs (map fst outs) \<subseteq> U"
proof -
  have "rw_pairs [fst o1] \<subseteq> U" if o1: "o1 \<in> set outs" for o1
  proof -
    have "length outs = length txs" using length_serial_run [of "tx_exec h version [] col" v0 txs] run by simp
    then obtain i where i: "i < length txs" "o1 = outs ! i" using o1 unfolding in_set_conv_nth by metis
    then show ?thesis
      using serial_run_view_at [OF run i(1)] assms(3) [OF nth_mem [OF i(1)]] total_view_at [OF assms(2)]
      by (simp add: pairs_within_def)
  qed
  then show ?thesis unfolding rw_pairs_def by (simp add: UN_subset_iff)
qed

lemma proposed_block:
  assumes reach: "occ_reach (tx_exec h (v235 + d) [] col) U
      \<lparr>oc_snapshot = makeSnapshotImpl store ver, oc_running = [], oc_pool = txs\<rparr> st"
    and U: "unambiguous U" and total: "total_view (ReadObject store)" and batch: "batch_ok h (v235 + d) U txs"
    and opt: "\<not> IsOptimizeChargeGasEnabled h" and coh: "coherent h cache"
    and time: "length (specialTxTable (snap (oc_snapshot st))) \<le> limit"
    and keys: "distinct_keys (txRWSetTable (snap (oc_snapshot st)))"
  shows "\<exists>bl outs v. finish_schedule ce limit h (v235 + d) False n col cache (oc_snapshot st) = Some bl \<and>
    serial_run (tx_exec h (v235 + d) [] col) (ReadObject store) (bl_Txs bl) = (outs, v) \<and>
    map bare_tx (bl_Txs bl) = map bare_tx (txTable (snap (oc_snapshot st)) @ specialTxTable (snap (oc_snapshot st))) \<and>
    dag_covers (bl_Dag bl) (map fst outs) \<and> rw_pairs (map fst outs) \<subseteq> U \<and> distinct (map TxId (bl_Txs bl)) \<and>
    (\<forall>t\<in>set (bl_Txs bl). tx_covered h (v235 + d) t) \<and>
    (\<forall>i<length (bl_Txs bl). rw_TxId (fst (outs ! i)) = TxId (bl_Txs bl ! i) \<and>
      map_of (bl_txRWSetMap bl) (TxId (bl_Txs bl ! i)) = Some (fst (outs ! i)) \<and> snd (outs ! i) = tx_Result (bl_Txs bl ! i))"
proof -
  let ?s = "oc_snapshot st" and ?ver = "v235 + d" and ?v0 = "ReadObject store"
  let ?ex = "tx_exec h ?ver [] col"
  have from_inv: "occ_from store txs st" "occ_inv ?ex U ?v0 (mset (map tx_Payload txs)) st"
    using occ_from_reach [OF reach U total] batch by (auto simp: batch_ok_def)
  then have inv: "wf_snap ?s" "serial_table ?ex U ?v0 ?s" "occ_payloads st \<subseteq># mset (map tx_Payload txs)"
    by (simp_all add: occ_inv_def)
  have store: "blockchainStore (snap ?s) = store" using from_inv(1) by (simp add: occ_from_def)
  have member: "bare_tx t \<in> bare_tx ` set txs" if "bare_tx t \<in> bare_tx ` set (txTable (snap ?s) @ specialTxTable (snap ?s))" for t
    using from_inv(1) that unfolding occ_from_def by blast
  have special: "\<forall>t\<in>set (specialTxTable (snap ?s)). tx_covered h ?ver t \<and> reads_within h ?ver U t"
    using batch_ok_member [OF batch member] pairs_reads_within by simp
  obtain bl ts outs v where bl: "finish_schedule ce limit h ?ver False n col cache ?s = Some bl"
      "serial_run ?ex ?v0 ts = (outs, v)" "bl_Txs bl = map2 (\<lambda>t out. set_result (snd out) t) ts outs"
      "dag_covers (bl_Dag bl) (map fst outs)"
      "map bare_tx (bl_Txs bl) = map bare_tx (txTable (snap ?s) @ specialTxTable (snap ?s))"
      "distinct (map (rw_TxId \<circ> fst) outs) \<longrightarrow>
        (\<forall>i<length outs. map_of (bl_txRWSetMap bl) (rw_TxId (fst (outs ! i))) = Some (fst (outs ! i)))"
    using default_block [OF inv(1,2) U total _ opt coh special time keys, of ce n] total store by auto
  let ?txs = "bl_Txs bl"
  have ok: "payer_fixed h t \<and> tx_covered h ?ver t" and within: "pairs_within h ?ver U t" if "t \<in> set ?txs" for t
  proof -
    have "bare_tx t \<in> set (map bare_tx ?txs)" using that by simp
    then have "bare_tx t \<in> bare_tx ` set txs" unfolding bl(5) set_map by (rule member)
    then show "payer_fixed h t \<and> tx_covered h ?ver t" "pairs_within h ?ver U t" using batch_ok_member [OF batch] by simp_all
  qed
  note rerun = rerun_with_results [OF opt bl(2,3) ok]
  have ids: "distinct (map TxId ?txs)"
    using block_ids [OF inv(3) _ bl(5)] batch by (simp add: batch_ok_def)
  have "map (rw_TxId \<circ> fst) outs = map TxId ?txs"
    using rerun(2,3) by (intro nth_equalityI) simp_all
  then have "distinct (map (rw_TxId \<circ> fst) outs)" using ids by (simp only:)
  with bl(6) rerun(2,3) have "\<forall>i<length ?txs. map_of (bl_txRWSetMap bl) (TxId (?txs ! i)) = Some (fst (outs ! i))" by simp
  moreover have "rw_pairs (map fst outs) \<subseteq> U"
    by (rule serial_pairs_within [OF rerun(1) total within])
  ultimately show ?thesis using bl(1,4,5) rerun(1,3) ids ok by blast
qed

end
