(* ===== verification/Serial.thy ===== *)
theory Serial
  imports Blocks
begin

text \<open>
  The serial deterministic scheduler (\<^verbatim>\<open>deterministic/serial/serial_scheduler.go\<close>), for which
  schedule and replay are the same loop. It is the program the serial reference execution stands for.

  \<open>serial_end\<close> tells how the loop ends: on its own, at the time limit after some number of transactions, or
  by \<^verbatim>\<open>Halt\<close>. At the time limit the loop is between two transactions here; in the program the one under execution may
  still be applied while the tables are read.
\<close>

section \<open>The loop\<close>

datatype ScheduleMode = ModeSchedule | ModeSimulate

datatype serial_end = Runs | Deadline nat | HaltedAfter nat

datatype serial_error = SnapshotSealed string | SerialConflict string nat | ContextDone

definition serial_tx ::
    "CommonVMHelper \<Rightarrow> nat \<Rightarrow> ScheduleMode \<Rightarrow> Transaction \<Rightarrow> contract_cache \<Rightarrow> SnapshotImpl \<Rightarrow>
     (bool \<times> nat) \<times> contract_cache \<times> SnapshotImpl" where
  "serial_tx h version mode tx cache snapshot =
     (let er = ExecuteTx h version cache (GetKey snapshot) tx;
          tx' = (if mode = ModeSchedule then (er_tx er)\<lparr>tx_Result := sc_txResult (er_ctx er)\<rparr> else er_tx er);
          sim = \<lparr>sim_tx = tx', sim_txExecSeq = GetSnapshotSize snapshot,
                 sim_GetTxRWSet = (\<lambda>ok. GetTxRWSet ok (er_ctx er)), sim_GetTxResult = sc_txResult (er_ctx er)\<rparr>;
          (applied, snapshot') = ApplyTxSimContext sim (er_specialTxType er) (er_runVmSuccess er) True snapshot
      in (applied, er_cache er, snapshot'))"

text \<open>\<open>budget\<close> is the number of transactions after which the context is done; \<open>None\<close> for never.\<close>

fun handleTxsSerially ::
    "CommonVMHelper \<Rightarrow> nat \<Rightarrow> ScheduleMode \<Rightarrow> nat option \<Rightarrow> Transaction list \<Rightarrow> contract_cache \<Rightarrow> SnapshotImpl \<Rightarrow>
     serial_error option \<times> contract_cache \<times> SnapshotImpl" where
  "handleTxsSerially h version mode budget [] cache snapshot = (None, cache, snapshot)"
| "handleTxsSerially h version mode budget (tx # txs) cache snapshot =
     (if budget = Some 0 then (Some ContextDone, cache, snapshot)
      else if IsSealed snapshot then (Some (SnapshotSealed (TxId tx)), cache, snapshot)
      else
        (let ((applyResult, applySize), cache', snapshot') = serial_tx h version mode tx cache snapshot
         in if \<not> applyResult then (Some (SerialConflict (TxId tx) applySize), cache', snapshot')
            else handleTxsSerially h version mode (map_option (\<lambda>n. n - 1) budget) txs cache' snapshot'))"

record serial_result =
  sr_Txs :: "Transaction list"
  sr_txRWSetMap :: "(string \<times> TxRWSet) list"
  sr_contractEventMap :: "(string \<times> ContractEvent list) list"
  sr_txResultMap :: "(string \<rightharpoonup> Result option) option"

text \<open>
  \<open>Inl True\<close> is the error of a halted schedule, \<open>Inl False\<close> the panic at a transaction without result. An error of
  the loop is logged and the transactions handled so far are packed.
\<close>

definition serial_schedule ::
    "CommonVMHelper \<Rightarrow> nat \<Rightarrow> ScheduleMode \<Rightarrow> serial_end \<Rightarrow> Transaction list \<Rightarrow> contract_cache \<Rightarrow> SnapshotImpl \<Rightarrow>
     bool + serial_result" where
  "serial_schedule h version mode how txBatch cache snapshot =
     (let budget = (case how of Runs \<Rightarrow> None | Deadline n \<Rightarrow> Some n | HaltedAfter n \<Rightarrow> Some n);
          (_, _, snapshot') = handleTxsSerially h version mode budget txBatch cache snapshot;
          sealed = Seal snapshot'
      in case how of
           HaltedAfter _ \<Rightarrow> Inl True
         | _ \<Rightarrow>
             (case getContractEventMap (GetTxTable sealed) [] of
                None \<Rightarrow> Inl False
              | Some events \<Rightarrow>
                  Inr \<lparr>sr_Txs = GetTxTable sealed, sr_txRWSetMap = getTxRWSetTable sealed, sr_contractEventMap = events,
                       sr_txResultMap = (if mode = ModeSimulate then Some (GetTxResultMap sealed) else None)\<rparr>))"

section \<open>No conflict\<close>

text \<open>An application right after the execution is accepted: nothing was written in between.\<close>

lemma serial_apply:
  assumes wf: "wf_snap s" and seq: "strict_seq s" and open_: "\<not> IsSealed s" and now: "sim_txExecSeq sim = GetSnapshotSize s"
    and ap: "ApplyTxSimContext sim ty ok True s = ((b, n), s')"
  shows "b \<and> applied_like sim ok s s' \<and> \<not> IsSealed s' \<and>
    txResultMap (snap s') = (txResultMap (snap s))(TxId (sim_tx sim) \<mapsto> sim_GetTxResult sim)"
proof -
  obtain rkvs wkvs where kv: "buildKVMaps (sim_GetTxRWSet sim ok) = (rkvs, wkvs)" by force
  have no: "\<not> key_conflicted s (sim_txExecSeq sim) k" for k
    using seq now by (fastforce simp: key_conflicted_def strict_seq_def split: option.splits)
  let ?s1 = "applyOptimize (sim_tx sim) (sim_GetTxRWSet sim ok) (sim_GetTxResult sim) ok rkvs wkvs s"
  let ?s2 = "apply_tx (sim_tx sim) (sim_GetTxRWSet sim ok) (sim_GetTxResult sim) ok s"
  have "b \<and> (s' = ?s1 \<or> s' = ?s2)"
    using ap open_ now no
    by (cases ty) (auto simp: apply_defs kv list_ex_iff Let_def split: if_splits)
  moreover have "applied_like sim ok s ?s1" "applied_like sim ok s ?s2"
    by (rule applied_like_optimize [OF wf kv], rule applied_like_apply)
  moreover have "\<not> IsSealed ?s1" "\<not> IsSealed ?s2"
    using open_ by (simp_all add: IsSealed_def applyOptimize_def apply_tx_def Let_def)
  moreover have "txResultMap (snap ?s1) = (txResultMap (snap s))(TxId (sim_tx sim) \<mapsto> sim_GetTxResult sim)"
      "txResultMap (snap ?s2) = (txResultMap (snap s))(TxId (sim_tx sim) \<mapsto> sim_GetTxResult sim)"
    by (simp_all add: applyOptimize_def apply_tx_def Let_def)
  ultimately show ?thesis by (elim conjE disjE) simp_all
qed

section \<open>The loop is the serial execution\<close>

definition serial_so_far ::
    "exec_fun \<Rightarrow> (string \<times> string) set \<Rightarrow> BlockchainStore \<Rightarrow> ScheduleMode \<Rightarrow> Transaction list \<Rightarrow> SnapshotImpl \<Rightarrow> bool" where
  "serial_so_far ex U store mode ts s \<longleftrightarrow>
     (\<exists>outs v. serial_run ex (ReadObject store) ts = (outs, v) \<and> txRWSetTable (snap s) = map fst outs \<and>
        map bare_tx (txTable (snap s)) = map bare_tx ts \<and>
        (mode = ModeSchedule \<longrightarrow> txTable (snap s) = map2 (\<lambda>t out. set_result (snd out) t) ts outs) \<and>
        (mode = ModeSimulate \<and> (\<forall>t\<in>set ts. tx_Result t \<noteq> None) \<longrightarrow> txTable (snap s) = ts) \<and>
        txResultMap (snap s) = map_of (rev (map2 (\<lambda>t out. (TxId t, snd out)) ts outs)) \<and>
        (\<forall>c k. (c, k) \<in> U \<longrightarrow> v c k = GetKey s c k)) \<and>
     wf_snap s \<and> strict_seq s \<and> \<not> IsSealed s \<and> blockchainStore (snap s) = store"

definition vm_pairs_within :: "CommonVMHelper \<Rightarrow> nat \<Rightarrow> (string \<times> string) set \<Rightarrow> Transaction \<Rightarrow> bool" where
  "vm_pairs_within h version U t \<longleftrightarrow>
     (\<forall>v. total_view v \<longrightarrow> (\<forall>r\<in>set (reads_of (vm_exec h version [] v t)). read_pair r \<in> U))"

lemma ExecuteTx_tx:
  "bare_tx (er_tx (ExecuteTx h version cache v tx)) = bare_tx tx"
  "tx_Result tx \<noteq> None \<Longrightarrow> er_tx (ExecuteTx h version cache v tx) = tx"
  by (simp_all add: ExecuteTx_def guarded_run_def guard_version_def GuardForExecuteTx2300_def Let_def split_beta)

lemma serial_start:
  "serial_so_far ex U store mode [] (makeSnapshotImpl store ver)"
proof -
  let ?s = "makeSnapshotImpl store ver"
  have "GetKey ?s = ReadObject store"
    by (simp add: fun_eq_iff GetKey_layers under_writes_def makeSnapshotImpl_def shard_kv.get_empty)
  moreover have "strict_seq ?s"
    by (simp add: strict_seq_def makeSnapshotImpl_def shard_kv.get_empty)
  moreover have "txRWSetTable (snap ?s) = []" "txTable (snap ?s) = []" "txResultMap (snap ?s) = Map.empty"
      "\<not> IsSealed ?s" "blockchainStore (snap ?s) = store"
    by (simp_all add: makeSnapshotImpl_def IsSealed_def)
  ultimately show ?thesis by (simp add: serial_so_far_def)
qed

lemma serial_tx_step:
  assumes inv: "serial_so_far (vm_exec h (v235 + d) []) U store mode ts s" and U: "unambiguous U"
    and total: "total_view (ReadObject store)" and cov: "vm_covered h t" and within: "vm_pairs_within h (v235 + d) U t"
    and coh: "coherent h cache" and st: "serial_tx h (v235 + d) mode t cache s = ((b, n), cache', s')"
  shows "b \<and> coherent h cache' \<and> serial_so_far (vm_exec h (v235 + d) []) U store mode (ts @ [t]) s'"
proof -
  let ?ver = "v235 + d" and ?ex = "vm_exec h (v235 + d) []"
  obtain outs v where run: "serial_run ?ex (ReadObject store) ts = (outs, v)" and tab: "txRWSetTable (snap s) = map fst outs"
      "map bare_tx (txTable (snap s)) = map bare_tx ts"
      "mode = ModeSchedule \<longrightarrow> txTable (snap s) = map2 (\<lambda>t out. set_result (snd out) t) ts outs"
      "mode = ModeSimulate \<and> (\<forall>t\<in>set ts. tx_Result t \<noteq> None) \<longrightarrow> txTable (snap s) = ts"
      "txResultMap (snap s) = map_of (rev (map2 (\<lambda>t out. (TxId t, snd out)) ts outs))"
      and agree: "\<And>c k. (c, k) \<in> U \<Longrightarrow> v c k = GetKey s c k"
      and i: "wf_snap s" "strict_seq s" "\<not> IsSealed s" "blockchainStore (snap s) = store"
    using inv unfolding serial_so_far_def by blast
  define er where "er = ExecuteTx h ?ver cache (GetKey s) t"
  define tx' where "tx' = (if mode = ModeSchedule then set_result (sc_txResult (er_ctx er)) (er_tx er) else er_tx er)"
  define sim where "sim = \<lparr>sim_tx = tx', sim_txExecSeq = GetSnapshotSize s,
    sim_GetTxRWSet = (\<lambda>ok. GetTxRWSet ok (er_ctx er)), sim_GetTxResult = sc_txResult (er_ctx er)\<rparr>"
  let ?ok = "er_runVmSuccess er"
  have ap: "ApplyTxSimContext sim (er_specialTxType er) ?ok True s = ((b, n), s')" and cache': "cache' = er_cache er"
    using st by (auto simp: serial_tx_def er_def [symmetric] tx'_def [symmetric] sim_def [symmetric] Let_def split: prod.splits)
  have "sim_txExecSeq sim = GetSnapshotSize s" by (simp add: sim_def)
  note app = serial_apply [OF i(1-3) this ap]
  then have like: "applied_like sim ?ok s s'" by blast
  have out: "?ex (GetKey s) t = out_of sim ?ok"
    using fun_cong [OF fun_cong [OF vm_exec_cache(1) [OF coh, of ?ver]], of "GetKey s" t]
    by (simp add: vm_exec_def er_def [symmetric] out_of_def sim_def Let_def)
  have tv: "total_view (GetKey s)" "total_view v"
    using GetKey_total [of s] total i(4) serial_run_total [OF total, of ?ex ts] run by simp_all
  have reads: "\<forall>r\<in>set (TxReads (sim_GetTxRWSet sim ?ok)). read_pair r \<in> U \<and> read_ok s r"
    using within tv(1) vm235.exec_values [OF cov tv(1), of _ d "[]"] out
    unfolding vm_pairs_within_def out_of_def by fastforce
  have "?ex v t = ?ex (GetKey s) t"
    using reads agree out by (intro vm.exec_local [OF cov tv]) (auto simp: out_of_def)
  then have run': "serial_run ?ex (ReadObject store) (ts @ [t]) =
      (outs @ [out_of sim ?ok], apply_writes v (TxWrites (sim_GetTxRWSet sim ?ok)))"
    using run out by (simp add: serial_run_append out_of_def)
  have len: "length outs = length ts" using length_serial_run [of ?ex "ReadObject store" ts] run by simp
  obtain r where er_tx: "er_tx er = set_result r t"
    using bare_tx_cases [OF ExecuteTx_tx(1) [of h ?ver cache "GetKey s" t]] unfolding er_def by blast
  have bare: "bare_tx tx' = bare_tx t" "mode = ModeSchedule \<longrightarrow> tx' = set_result (sc_txResult (er_ctx er)) t"
    by (simp_all add: tx'_def er_tx bare_tx_def)
  have same: "mode = ModeSimulate \<and> tx_Result t \<noteq> None \<longrightarrow> tx' = t"
    using ExecuteTx_tx(2) [of t h ?ver cache "GetKey s"] by (simp add: tx'_def er_def)
  have id: "TxId tx' = TxId t" using bare(1) by (metis bare_tx_Payload)
  have "apply_writes v (TxWrites (sim_GetTxRWSet sim ?ok)) c k = GetKey s' c k" if "(c, k) \<in> U" for c k
    using view_applied [OF like i(1) U that reads] agree [OF that] by (simp add: apply_writes_def split: option.splits)
  moreover have "txRWSetTable (snap s') = map fst (outs @ [out_of sim ?ok])"
      "map bare_tx (txTable (snap s')) = map bare_tx (ts @ [t])"
      "mode = ModeSchedule \<longrightarrow> txTable (snap s') = map2 (\<lambda>t out. set_result (snd out) t) (ts @ [t]) (outs @ [out_of sim ?ok])"
      "mode = ModeSimulate \<and> (\<forall>t\<in>set (ts @ [t]). tx_Result t \<noteq> None) \<longrightarrow> txTable (snap s') = ts @ [t]"
      "txResultMap (snap s') = map_of (rev (map2 (\<lambda>t out. (TxId t, snd out)) (ts @ [t]) (outs @ [out_of sim ?ok])))"
      "blockchainStore (snap s') = store"
    using like app tab bare same id len i(4) by (simp_all add: applied_like_def out_of_def sim_def)
  moreover have "wf_snap s'"
    using wf_ApplyTxSimContext [OF i(1), of sim "er_specialTxType er" ?ok True] ap by simp
  moreover have "strict_seq s'" by (rule strict_seq_applied [OF like i(1,2)])
  ultimately have "serial_so_far ?ex U store mode (ts @ [t]) s'"
    using run' app unfolding serial_so_far_def by blast
  then show ?thesis
    using app cache' vm_exec_cache(2) [OF coh] by (simp add: er_def)
qed

lemma serial_loop:
  assumes "serial_so_far (vm_exec h (v235 + d) []) U store mode ts s" and U: "unambiguous U"
    and total: "total_view (ReadObject store)" and "\<forall>t\<in>set txs. vm_covered h t \<and> vm_pairs_within h (v235 + d) U t"
    and "coherent h cache" and "handleTxsSerially h (v235 + d) mode budget txs cache s = (err, cache', s')"
  shows "\<exists>m. m = (case budget of None \<Rightarrow> length txs | Some n \<Rightarrow> min n (length txs)) \<and>
    (err = None \<longleftrightarrow> m = length txs) \<and> (err = None \<or> err = Some ContextDone) \<and>
    serial_so_far (vm_exec h (v235 + d) []) U store mode (ts @ take m txs) s'"
  using assms(1,4-)
proof (induction txs arbitrary: ts s cache budget)
  case Nil
  then show ?case by (auto split: option.splits)
next
  case (Cons t txs)
  show ?case
  proof (cases "budget = Some 0")
    case True
    then show ?thesis using Cons.prems by auto
  next
    case False
    obtain b n c1 s1 where st: "serial_tx h (v235 + d) mode t cache s = ((b, n), c1, s1)" by (metis surj_pair)
    have "\<not> IsSealed s" using Cons.prems(1) by (simp add: serial_so_far_def)
    moreover have step: "b" "coherent h c1" "serial_so_far (vm_exec h (v235 + d) []) U store mode (ts @ [t]) s1"
      using serial_tx_step [OF Cons.prems(1) U total _ _ Cons.prems(3) st] Cons.prems(2) by simp_all
    ultimately have "handleTxsSerially h (v235 + d) mode (map_option (\<lambda>n. n - 1) budget) txs c1 s1 = (err, cache', s')"
      using Cons.prems(4) False st by simp
    note IH = Cons.IH [OF step(3) _ step(2) this]
    show ?thesis
    proof (cases budget)
      case None
      then show ?thesis using IH Cons.prems(2) by simp
    next
      case (Some k)
      then obtain j where "k = Suc j" using False by (cases k) auto
      then show ?thesis using IH Cons.prems(2) Some by auto
    qed
  qed
qed

section \<open>The result of a run\<close>

fun handled :: "serial_end \<Rightarrow> Transaction list \<Rightarrow> nat" where
  "handled Runs txs = length txs"
| "handled (Deadline n) txs = min n (length txs)"
| "handled (HaltedAfter n) txs = min n (length txs)"

definition serial_outcome ::
    "exec_fun \<Rightarrow> view \<Rightarrow> ScheduleMode \<Rightarrow> Transaction list \<Rightarrow> serial_result \<Rightarrow> outcome list \<Rightarrow> bool" where
  "serial_outcome ex v0 mode ts res outs \<longleftrightarrow>
     fst (serial_run ex v0 ts) = outs \<and> map bare_tx (sr_Txs res) = map bare_tx ts \<and>
     (mode = ModeSchedule \<longrightarrow> sr_Txs res = map2 (\<lambda>t out. set_result (snd out) t) ts outs) \<and>
     (\<forall>i<length ts. map_of (sr_txRWSetMap res) (TxId (ts ! i)) = Some (fst (outs ! i))) \<and>
     (mode = ModeSimulate \<longrightarrow>
        (\<exists>rm. sr_txResultMap res = Some rm \<and> (\<forall>i<length ts. rm (TxId (ts ! i)) = Some (snd (outs ! i)))))"

lemma serial_so_far_outcome:
  assumes inv: "serial_so_far (vm_exec h version []) U store mode ts s" and dist: "distinct (map TxId ts)"
    and cov: "\<forall>t\<in>set ts. vm_covered h t" and sim: "mode = ModeSimulate \<Longrightarrow> \<forall>t\<in>set ts. tx_Result t \<noteq> None"
  shows "\<exists>events outs. getContractEventMap (GetTxTable (Seal s)) [] = Some events \<and>
    serial_outcome (vm_exec h version []) (ReadObject store) mode ts
      \<lparr>sr_Txs = GetTxTable (Seal s), sr_txRWSetMap = getTxRWSetTable (Seal s), sr_contractEventMap = events,
       sr_txResultMap = (if mode = ModeSimulate then Some (GetTxResultMap (Seal s)) else None)\<rparr> outs"
proof -
  let ?ex = "vm_exec h version []"
  obtain outs v where run: "serial_run ?ex (ReadObject store) ts = (outs, v)" and tab: "txRWSetTable (snap s) = map fst outs"
      "map bare_tx (txTable (snap s)) = map bare_tx ts"
      "mode = ModeSchedule \<longrightarrow> txTable (snap s) = map2 (\<lambda>t out. set_result (snd out) t) ts outs"
      "mode = ModeSimulate \<and> (\<forall>t\<in>set ts. tx_Result t \<noteq> None) \<longrightarrow> txTable (snap s) = ts"
      "txResultMap (snap s) = map_of (rev (map2 (\<lambda>t out. (TxId t, snd out)) ts outs))"
    using inv unfolding serial_so_far_def by blast
  have len: "length outs = length ts" using length_serial_run [of ?ex "ReadObject store" ts] run by simp
  have nth: "\<exists>w. outs ! i = ?ex w (ts ! i)" if "i < length ts" for i
    using serial_run_nth [OF that, of ?ex "ReadObject store"] run by auto
  have ids: "rw_TxId (fst (outs ! i)) = TxId (ts ! i)" "snd (outs ! i) \<noteq> None" if i: "i < length ts" for i
    using nth [OF i] vm_exec_TxId [of h "ts ! i"] vm_exec_has_result [of h version "[]"] cov nth_mem [OF i] by auto
  have "map (rw_TxId \<circ> fst) outs = map TxId ts"
    by (rule nth_equalityI) (simp_all add: len ids)
  then have rwd: "distinct (map (rw_TxId \<circ> fst) outs)" using dist by simp
  have rw: "map_of (getTxRWSetTable (Seal s)) (TxId (ts ! i)) = Some (fst (outs ! i))" if "i < length ts" for i
    using map_of_getTxRWSetTable [of "Seal s", OF _ rwd, of i] ids(1) [OF that] that len tab(1) by (simp add: Seal_def)
  have "map fst (map2 (\<lambda>t out. (TxId t, snd out)) ts outs) = map TxId ts"
    using len by (intro nth_equalityI) simp_all
  then have "distinct (map fst (rev (map2 (\<lambda>t out. (TxId t, snd out)) ts outs)))"
    using dist by (simp add: rev_map [symmetric])
  then have "map_of (rev (map2 (\<lambda>t out. (TxId t, snd out)) ts outs)) (TxId (ts ! i)) = Some (snd (outs ! i))" if "i < length ts" for i
    using that len by (intro map_of_is_SomeI) (auto simp: in_set_conv_nth simp del: set_map intro!: exI [of _ i])
  then have res: "GetTxResultMap (Seal s) (TxId (ts ! i)) = Some (snd (outs ! i))" if "i < length ts" for i
    using that tab(5) by (simp add: GetTxResultMap_def Seal_def)
  have all: "\<forall>out\<in>set outs. snd out \<noteq> None" using ids(2) len by (metis in_set_conv_nth)
  have "\<forall>t\<in>set (GetTxTable (Seal s)). tx_Result t \<noteq> None"
    using tab(3,4) sim all by (cases mode) (auto simp: GetTxTable_def Seal_def dest!: set_zip_rightD)
  then obtain events where "getContractEventMap (GetTxTable (Seal s)) [] = Some events"
    using getContractEventMap_total by blast
  moreover have "GetTxTable (Seal s) = txTable (snap s)" by (simp add: GetTxTable_def Seal_def)
  ultimately show ?thesis
    using run tab rw res unfolding serial_outcome_def by auto
qed

lemma serial_schedule_outcome:
  assumes U: "unambiguous U" and total: "total_view (ReadObject store)"
    and batch: "\<forall>t\<in>set txs. vm_covered h t \<and> vm_pairs_within h (v235 + d) U t" and dist: "distinct (map TxId txs)"
    and coh: "coherent h cache" and sim: "mode = ModeSimulate \<Longrightarrow> \<forall>t\<in>set txs. tx_Result t \<noteq> None"
    and how: "\<forall>n. how \<noteq> HaltedAfter n"
  shows "\<exists>res outs. serial_schedule h (v235 + d) mode how txs cache (makeSnapshotImpl store ver) = Inr res \<and>
    serial_outcome (vm_exec h (v235 + d) []) (ReadObject store) mode (take (handled how txs) txs) res outs"
proof -
  define budget where "budget = (case how of Runs \<Rightarrow> None | Deadline n \<Rightarrow> Some n | HaltedAfter n \<Rightarrow> Some n)"
  obtain err cache' s' where loop: "handleTxsSerially h (v235 + d) mode budget txs cache (makeSnapshotImpl store ver) = (err, cache', s')"
    by (metis surj_pair)
  have m: "(case budget of None \<Rightarrow> length txs | Some n \<Rightarrow> min n (length txs)) = handled how txs"
    by (cases how) (simp_all add: budget_def)
  have "serial_so_far (vm_exec h (v235 + d) []) U store mode (take (handled how txs) txs) s'"
    using serial_loop [OF serial_start U total batch coh loop] by (auto simp: m)
  moreover have "distinct (map TxId (take (handled how txs) txs))" "\<forall>t\<in>set (take (handled how txs) txs). vm_covered h t"
      "mode = ModeSimulate \<Longrightarrow> \<forall>t\<in>set (take (handled how txs) txs). tx_Result t \<noteq> None"
    using dist batch sim by (auto simp: take_map [symmetric] dest: in_set_takeD)
  ultimately obtain events outs where "getContractEventMap (GetTxTable (Seal s')) [] = Some events"
    "serial_outcome (vm_exec h (v235 + d) []) (ReadObject store) mode (take (handled how txs) txs)
      \<lparr>sr_Txs = GetTxTable (Seal s'), sr_txRWSetMap = getTxRWSetTable (Seal s'), sr_contractEventMap = events,
       sr_txResultMap = (if mode = ModeSimulate then Some (GetTxResultMap (Seal s')) else None)\<rparr> outs"
    using serial_so_far_outcome by blast
  then show ?thesis
    using how loop by (cases how) (auto simp: serial_schedule_def budget_def Let_def)
qed

text \<open>The transactions of the block, which carry their results, run as the ones without.\<close>

lemma serial_rerun:
  assumes opt: "\<not> IsOptimizeChargeGasEnabled h" and fixed: "\<forall>t\<in>set ts. payer_fixed h t"
    and run: "fst (serial_run (vm_exec h version []) v0 ts) = outs"
  shows "fst (serial_run (vm_exec h version []) v0 (map2 (\<lambda>t out. set_result (snd out) t) ts outs)) = outs"
proof -
  have len: "length outs = length ts" using length_serial_run [of "vm_exec h version []" v0 ts] run by simp
  have "vm_exec h version [] w (map2 (\<lambda>t out. set_result (snd out) t) ts outs ! i) = vm_exec h version [] w (ts ! i)"
    if "i < length ts" for i w
    using vm_exec_result [OF opt] fixed nth_mem [OF that] that len by simp
  then show ?thesis
    using serial_run_same [of ts "map2 (\<lambda>t out. set_result (snd out) t) ts outs" "vm_exec h version []" v0] len run by simp
qed

lemma serial_replay_agrees:
  assumes U: "unambiguous U" and total: "total_view (ReadObject store)" and opt: "\<not> IsOptimizeChargeGasEnabled h"
    and batch: "\<forall>t\<in>set txs. payer_fixed h t \<and>
      (\<forall>r. vm_covered h (set_result r t) \<and> vm_pairs_within h (v235 + d) U (set_result r t))"
    and dist: "distinct (map TxId txs)" and coh: "coherent h cache" "coherent h cache'" and how: "\<forall>n. how \<noteq> HaltedAfter n"
  shows "\<exists>res res' rm. serial_schedule h (v235 + d) ModeSchedule how txs cache (makeSnapshotImpl store ver) = Inr res \<and>
    map bare_tx (sr_Txs res) = map bare_tx (take (handled how txs) txs) \<and>
    serial_schedule h (v235 + d) ModeSimulate Runs (sr_Txs res) cache' (makeSnapshotImpl store ver') = Inr res' \<and>
    sr_txResultMap res' = Some rm \<and>
    (\<forall>t\<in>set (sr_Txs res). rm (TxId t) = Some (tx_Result t) \<and>
       map_of (sr_txRWSetMap res) (TxId t) \<noteq> None \<and> map_of (sr_txRWSetMap res') (TxId t) = map_of (sr_txRWSetMap res) (TxId t))"
proof -
  let ?ex = "vm_exec h (v235 + d) []" and ?ts = "take (handled how txs) txs"
  have "t = set_result (tx_Result t) t" for t :: Transaction by simp
  then have "\<forall>t\<in>set txs. vm_covered h t \<and> vm_pairs_within h (v235 + d) U t" using batch by metis
  then obtain res outs where res: "serial_schedule h (v235 + d) ModeSchedule how txs cache (makeSnapshotImpl store ver) = Inr res"
      and out: "serial_outcome ?ex (ReadObject store) ModeSchedule ?ts res outs"
    using serial_schedule_outcome [OF U total _ dist coh(1) _ how, of d ModeSchedule ver] by auto
  have run: "fst (serial_run ?ex (ReadObject store) ?ts) = outs" and bl: "sr_Txs res = map2 (\<lambda>t out. set_result (snd out) t) ?ts outs"
    using out by (simp_all add: serial_outcome_def)
  have len: "length outs = length ?ts" using length_serial_run [of ?ex "ReadObject store" ?ts] run by simp
  have nth: "sr_Txs res ! i = set_result (snd (outs ! i)) (?ts ! i)" if "i < length ?ts" for i
    using that len by (simp add: bl)
  have len': "length (sr_Txs res) = length ?ts" using len by (simp add: bl)
  then have each: "\<exists>i<length ?ts. t = set_result (snd (outs ! i)) (?ts ! i)" if "t \<in> set (sr_Txs res)" for t
    using that nth by (auto simp: in_set_conv_nth)
  have "vm_covered h t \<and> vm_pairs_within h (v235 + d) U t" if t: "t \<in> set (sr_Txs res)" for t
  proof -
    obtain i where i: "i < length ?ts" "t = set_result (snd (outs ! i)) (?ts ! i)" using each [OF t] by blast
    then show ?thesis using batch in_set_takeD [OF nth_mem [OF i(1)]] by blast
  qed
  then have "\<forall>t\<in>set (sr_Txs res). vm_covered h t \<and> vm_pairs_within h (v235 + d) U t" by blast
  moreover have "snd (outs ! i) \<noteq> None" if i: "i < length ?ts" for i
    using serial_run_nth [OF i, of ?ex "ReadObject store"] run vm_exec_has_result [of h "v235 + d" "[]"] by auto
  then have "\<forall>t\<in>set (sr_Txs res). tx_Result t \<noteq> None" using each by fastforce
  moreover have "map TxId (sr_Txs res) = map TxId ?ts" using len by (intro nth_equalityI) (simp_all add: bl)
  then have "distinct (map TxId (sr_Txs res))" using dist by (simp add: take_map [symmetric])
  ultimately obtain res' outs' where res': "serial_schedule h (v235 + d) ModeSimulate Runs (sr_Txs res) cache' (makeSnapshotImpl store ver') = Inr res'"
      and out': "serial_outcome ?ex (ReadObject store) ModeSimulate (sr_Txs res) res' outs'"
    using serial_schedule_outcome [OF U total _ _ coh(2), of "sr_Txs res" d ModeSimulate Runs ver'] by auto
  have "\<forall>t\<in>set ?ts. payer_fixed h t" using batch in_set_takeD by fast
  from serial_rerun [OF opt this run] have "outs' = outs" using out' by (simp add: serial_outcome_def bl)
  then obtain rm where rm: "sr_txResultMap res' = Some rm" "\<forall>i<length ?ts. rm (TxId (sr_Txs res ! i)) = Some (snd (outs ! i))"
      and rw: "\<forall>i<length ?ts. map_of (sr_txRWSetMap res') (TxId (sr_Txs res ! i)) = Some (fst (outs ! i))"
      and rw0: "\<forall>i<length ?ts. map_of (sr_txRWSetMap res) (TxId (?ts ! i)) = Some (fst (outs ! i))"
    using out out' unfolding serial_outcome_def len' by blast
  have "rm (TxId t) = Some (tx_Result t) \<and> map_of (sr_txRWSetMap res) (TxId t) \<noteq> None \<and>
      map_of (sr_txRWSetMap res') (TxId t) = map_of (sr_txRWSetMap res) (TxId t)" if t: "t \<in> set (sr_Txs res)" for t
  proof -
    obtain i where "i < length ?ts" "t = set_result (snd (outs ! i)) (?ts ! i)" using each [OF t] by blast
    then show ?thesis using rm(2) rw rw0 nth [of i] by auto
  qed
  then show ?thesis using res res' rm(1) out unfolding serial_outcome_def by blast
qed

end
