(* ===== verification/Balance.thy ===== *)
theory Balance
  imports TxExec
begin

text \<open>
  What the sender collection guarantees: 64-bit sums are checked, transactions are neither lost nor
  duplicated when they are grouped, the transactions that run in parallel have limits the balance covers, and
  executions one after the other never charge an account more than it holds.
\<close>

section \<open>Checked arithmetic\<close>

lemma unat_add64: "unat (a + b :: 64 word) = (if unat a + unat b < 2 ^ 64 then unat a + unat b else unat a + unat b - 2 ^ 64)"
proof -
  have "unat a < 2 ^ LENGTH(64)" "unat b < 2 ^ LENGTH(64)" by (rule unsigned_less)+
  then show ?thesis
    by (cases "unat a + unat b < 2 ^ 64") (simp_all add: unat_word_ariths le_mod_geq)
qed

lemma add_wraps_iff: "(a + b :: 64 word) < a \<longleftrightarrow> 2 ^ 64 \<le> unat a + unat b"
proof -
  have "unat b < 2 ^ LENGTH(64)" by (rule unsigned_less)
  then show ?thesis by (auto simp: word_less_nat_alt unat_add64)
qed

lemma uint64SafeAdd_iff:
  "uint64SafeAdd a b = (r, overflow) \<longleftrightarrow>
     (overflow \<longleftrightarrow> 2 ^ 64 \<le> unat a + unat b) \<and> r = (if overflow then 0 else a + b)"
  by (auto simp: uint64SafeAdd_def Let_def add_wraps_iff)

lemma addTxGas_iff:
  "addTxGas gas g = (g', overflow) \<longleftrightarrow>
     (overflow \<longleftrightarrow> 2 ^ 64 \<le> unat (tc_totalGasUsed g) + unat gas) \<and>
     g' = (if overflow then g else g\<lparr>tc_totalGasUsed := tc_totalGasUsed g + gas\<rparr>)"
  by (auto simp: addTxGas_def Let_def add_wraps_iff)

text \<open>The checked difference is right while operands are less than \<open>2 ^ 63\<close> apart.\<close>

lemma sint_nonneg_iff: "0 \<le> sint (w :: 64 word) \<longleftrightarrow> unat w < 2 ^ 63"
proof -
  have w: "unat w < 2 ^ LENGTH(64)" by (rule unsigned_less)
  have "sint w < 0 \<longleftrightarrow> bit (unat w) 63"
    using bit_last_iff [of w] by (simp add: bit_unsigned_iff)
  also have "\<dots> \<longleftrightarrow> odd (unat w div 2 ^ 63)"
    by (simp add: bit_iff_odd)
  also have "\<dots> \<longleftrightarrow> 2 ^ 63 \<le> unat w"
  proof (cases "unat w < 2 ^ 63")
    case False
    then have "unat w div 2 ^ 63 = 1"
      using w by (intro div_nat_eqI) simp_all
    with False show ?thesis by simp
  qed simp
  finally show ?thesis by linarith
qed

lemma unat_diff64:
  "unat (a - b :: 64 word) < 2 ^ 63 \<longleftrightarrow> (if b \<le> a then unat a - unat b < 2 ^ 63 else 2 ^ 63 < unat b - unat a)"
proof (cases "b \<le> a")
  case True
  then show ?thesis by (simp add: unat_sub)
next
  case False
  then have "unat a < unat b" by (simp add: word_le_nat_alt)
  moreover have "unat b < 2 ^ 64" "unat a < 2 ^ 64"
    using unsigned_less [of a] unsigned_less [of b] by simp_all
  ultimately have "unat (a - b) = 2 ^ 64 - (unat b - unat a)"
    using unat_sub_if' [of a b] by simp
  then show ?thesis
    using False \<open>unat a < unat b\<close> \<open>unat b < 2 ^ 64\<close> by auto
qed

lemma uint64SafeSub_right:
  assumes "b \<le> a" and "unat a - unat b < 2 ^ 63"
  shows "uint64SafeSub a b = (a - b, False)"
  using assms by (simp add: uint64SafeSub_def Let_def sint_nonneg_iff unat_sub)

section \<open>Charging one execution after the other\<close>

definition gas_ok :: "SenderCollection \<Rightarrow> bool" where
  "gas_ok s \<longleftrightarrow> (\<forall>a c. map_of (sn_txsMap s) a = Some c \<longrightarrow> tc_accountStatus c = SUCCESS \<longrightarrow>
     tc_totalGasUsed c \<le> tc_accountBalance c)"

lemma gas_ok_reset: "gas_ok (resetTotalGasUsed s)"
  by (auto simp: gas_ok_def resetTotalGasUsed_def map_of_map [unfolded comp_def])

lemma checked_limit:
  assumes "checkBalanceInSenderCollection s tx = None" and "find_collection s tx = Some (a, c)"
    and "p_Limit (tx_Payload tx) = Some limit"
  shows "unat (tc_totalGasUsed c) + unat limit \<le> unat (tc_accountBalance c)"
proof -
  have "\<not> tc_totalGasUsed c + limit < tc_totalGasUsed c" "\<not> tc_accountBalance c < tc_totalGasUsed c + limit"
    using assms by (auto simp: checkBalanceInSenderCollection_def uint64SafeAdd_def Let_def split: if_splits)
  then have "unat (tc_totalGasUsed c) + unat limit < 2 ^ 64" "unat (tc_totalGasUsed c + limit) \<le> unat (tc_accountBalance c)"
    unfolding add_wraps_iff by (simp_all add: word_less_nat_alt)
  then show ?thesis by (simp add: unat_add64)
qed

text \<open>A charge within the checked limit adds what it reports and stays within the balance.\<close>

lemma charge_within:
  assumes "unat (tc_totalGasUsed c) + unat limit \<le> unat (tc_accountBalance c)"
    and "charge_collection limit used c = (gas, err, c')"
  shows "c' = c\<lparr>tc_totalGasUsed := tc_totalGasUsed c + gas\<rparr>" and "gas = min used limit"
    and "unat (tc_totalGasUsed c') = unat (tc_totalGasUsed c) + unat gas" and "tc_totalGasUsed c' \<le> tc_accountBalance c'"
    and "err = None \<longleftrightarrow> used \<le> limit"
proof -
  have b: "unat (tc_accountBalance c) < 2 ^ LENGTH(64)" by (rule unsigned_less)
  have "c' = c\<lparr>tc_totalGasUsed := tc_totalGasUsed c + gas\<rparr> \<and> gas = min used limit \<and> (err = None \<longleftrightarrow> used \<le> limit)"
  proof (cases "used > limit")
    case True
    then show ?thesis
      using assms b
      by (cases "addTxGas limit c") (auto simp: charge_collection_def addTxGas_iff min_def split: if_splits)
  next
    case False
    then have "unat used \<le> unat limit" by (simp add: word_less_nat_alt)
    then have no: "\<not> 2 ^ 64 \<le> unat (tc_totalGasUsed c) + unat used" "\<not> tc_totalGasUsed c + used > tc_accountBalance c"
      using assms(1) b by (auto simp: word_less_nat_alt unat_add64)
    then have "uint64SafeAdd (tc_totalGasUsed c) used = (tc_totalGasUsed c + used, False)"
      by (simp add: uint64SafeAdd_iff)
    then have "charge_collection limit used c = (used, None, c\<lparr>tc_totalGasUsed := tc_totalGasUsed c + used\<rparr>)"
      using False no(2) by (simp only: charge_collection_def if_False Let_def prod.case)
    then show ?thesis
      using False assms(2) by (auto simp: min_def)
  qed
  then show "c' = c\<lparr>tc_totalGasUsed := tc_totalGasUsed c + gas\<rparr>" "gas = min used limit" "err = None \<longleftrightarrow> used \<le> limit"
    by simp_all
  moreover have "unat gas \<le> unat limit"
    using calculation(2) by (simp add: min_def word_le_nat_alt)
  ultimately show "unat (tc_totalGasUsed c') = unat (tc_totalGasUsed c) + unat gas" "tc_totalGasUsed c' \<le> tc_accountBalance c'"
    using assms(1) b by (auto simp: unat_add64 word_le_nat_alt)
qed

lemma charge_status: "charge_collection limit used c = (gas, err, c') \<Longrightarrow> tc_accountStatus c' = tc_accountStatus c"
  by (auto simp: charge_collection_def addTxGas_def Let_def split: if_splits prod.splits)

text \<open>Where the virtual machine runs for a charged transaction of a normal account, the balance was checked.\<close>

lemma guard_checked:
  assumes "fst (guard_tx h version s v tx)" and "version \<ge> blockVersion2340" and "IsOptimizeChargeGasEnabled h"
    and "checkNativeFilter h version (p_ContractName (tx_Payload tx)) (p_Method (tx_Payload tx)) tx v"
    and "find_collection s tx = Some (a, c)" and "tc_accountStatus c = SUCCESS"
  shows "checkBalanceInSenderCollection s tx = None"
  using assms by (auto simp: guard_tx_def processSenderCollectionIn234_def Let_def split: option.splits)

lemma executeTx_gas_ok:
  assumes "gas_ok s"
  shows "gas_ok (snd (executeTx h version cache s v tx))"
proof (cases "fst (guard_tx h version s v tx) \<and> version \<ge> blockVersion2340 \<and> IsOptimizeChargeGasEnabled h")
  case True
  define need where "need = (checkNativeFilter h version (p_ContractName (tx_Payload tx)) (p_Method (tx_Payload tx)) tx v \<and>
    p_TxType (tx_Payload tx) = INVOKE_CONTRACT)"
  define res where "res = the (sc_txResult (er_ctx (base_run h version cache s v tx)))"
  have s': "snd (executeTx h version cache s v tx) = snd (snd (chargeGasInSenderCollection s tx res need))"
    using True by (simp add: executeTx_base charge_after_def need_def res_def split_beta Let_def split: option.splits)
  show ?thesis
  proof (cases "need \<and> p_Limit (tx_Payload tx) \<noteq> None \<and> find_collection s tx \<noteq> None")
    case charged: True
    then obtain limit a c where ch: "p_Limit (tx_Payload tx) = Some limit" "find_collection s tx = Some (a, c)" by auto
    obtain gas err c' where cc: "charge_collection limit (cr_GasUsed (res_ContractResult res)) c = (gas, err, c')"
      by (metis surj_pair)
    have "tc_totalGasUsed c' \<le> tc_accountBalance c'" if "tc_accountStatus c' = SUCCESS"
    proof (rule charge_within(4) [OF checked_limit cc])
      show "checkBalanceInSenderCollection s tx = None"
        using guard_checked [OF _ _ _ _ ch(2)] True charged charge_status [OF cc] that by (auto simp: need_def)
    qed (use ch in auto)
    then show ?thesis
      using assms charged ch cc unfolding s'
      by (auto simp: gas_ok_def chargeGasInSenderCollection_def update_conv' split: if_splits)
  qed (use assms in \<open>auto simp: s' chargeGasInSenderCollection_def split: option.splits\<close>)
qed (use assms in \<open>auto simp: executeTx_base\<close>)

text \<open>A transaction kept out of the virtual machine costs nothing.\<close>

lemma guard2300_free:
  assumes "guardForExecuteTx2300 h tx ctx g opt v st ver = (False, ctx1, tx1)"
  shows "\<exists>res. sc_txResult ctx1 = Some res \<and> cr_GasUsed (res_ContractResult res) = 0"
  using assms by (auto simp: guardForExecuteTx2300_def gasLimitNotSet_def SetTxResult_def Let_def split: if_splits option.splits)

lemma guard_tx_free:
  assumes "\<not> fst (guard_tx h version s v tx)" and "version \<ge> blockVersion2340" and "find_collection s tx = Some (a, c)"
  shows "\<exists>res. sc_txResult (fst (snd (guard_tx h version s v tx))) = Some res \<and> cr_GasUsed (res_ContractResult res) = 0"
proof -
  obtain st ab ctx1 where p: "processSenderCollectionIn234 s tx
      (checkNativeFilter h version (p_ContractName (tx_Payload tx)) (p_Method (tx_Payload tx)) tx v)
      (IsOptimizeChargeGasEnabled h) (NewTxSimContext tx version) = (st, ab, ctx1)"
    by (metis surj_pair)
  show ?thesis
  proof (cases ab)
    case True
    then have "\<exists>e. ctx1 = SetTxResult (Some (failed_result CONTRACT_FAIL e e)) (NewTxSimContext tx version)"
      using p assms(3) by (auto simp: processSenderCollectionIn234_def split: if_splits option.splits)
    then show ?thesis
      using True assms(2) p by (auto simp: guard_tx_def Let_def failed_result_def SetTxResult_def)
  next
    case False
    have v: "version \<ge> 2300"
      using assms(2) by (simp add: blockVersion2340_def)
    obtain go ctx2 tx2 where g: "guardForExecuteTx2300 h tx ctx1 (CheckGasEnable h) (IsOptimizeChargeGasEnabled h) v st version = (go, ctx2, tx2)"
      by (metis surj_pair)
    then have "\<not> go" "guard_tx h version s v tx = (go, ctx2, tx2)"
      using False assms(1,2) p v by (auto simp: guard_tx_def Let_def split: if_splits)
    then show ?thesis
      using guard2300_free g by auto
  qed
qed

text \<open>
  The collection counts for the payer what the result of the execution reports.
\<close>

lemma executeTx_accounts:
  assumes "version \<ge> blockVersion2340" and "IsOptimizeChargeGasEnabled h"
    and "checkNativeFilter h version (p_ContractName (tx_Payload tx)) (p_Method (tx_Payload tx)) tx v"
    and "p_TxType (tx_Payload tx) = INVOKE_CONTRACT" and "find_collection s tx = Some (a, c)"
    and "tc_accountStatus c = SUCCESS" and "executeTx h version cache s v tx = (er, s')"
  shows "\<exists>res c'. sc_txResult (er_ctx er) = Some res \<and> map_of (sn_txsMap s') = (map_of (sn_txsMap s))(a \<mapsto> c') \<and>
    unat (tc_totalGasUsed c') = unat (tc_totalGasUsed c) + unat (cr_GasUsed (res_ContractResult res)) \<and>
    tc_accountBalance c' = tc_accountBalance c"
proof (cases "fst (guard_tx h version s v tx)")
  case False
  have "map_of (sn_txsMap s) a = Some c"
    using assms(5) by (auto simp: find_collection_def split: option.splits)
  moreover have "er = base_run h version cache s v tx" "s' = s"
    using False assms(7) by (auto simp: executeTx_base)
  moreover have "er_ctx (base_run h version cache s v tx) = fst (snd (guard_tx h version s v tx))"
    using False by (cases "guard_tx h version s v tx") (auto simp: base_run_def guarded_run_def)
  ultimately show ?thesis
    using guard_tx_free [OF False assms(1,5)] by (auto intro!: exI [of _ c] simp: fun_upd_idem)
next
  case True
  have check: "checkBalanceInSenderCollection s tx = None"
    using guard_checked [OF True assms(1-3,5,6)] .
  then obtain limit where limit: "p_Limit (tx_Payload tx) = Some limit"
    by (auto simp: checkBalanceInSenderCollection_def split: option.splits)
  obtain res where res: "sc_txResult (er_ctx (base_run h version cache s v tx)) = Some res"
    using True by (cases "guard_tx h version s v tx") (auto simp: base_run_def guarded_run_def SetTxResult_def Let_def)
  obtain gas err c' where cc: "charge_collection limit (cr_GasUsed (res_ContractResult res)) c = (gas, err, c')"
    by (metis surj_pair)
  note w = charge_within [OF checked_limit [OF check assms(5) limit] cc]
  have ch: "chargeGasInSenderCollection s tx res True = (gas, err, s\<lparr>sn_txsMap := AList.update a c' (sn_txsMap s)\<rparr>)"
    using limit assms(5) cc by (simp add: chargeGasInSenderCollection_def)
  then have ex: "executeTx h version cache s v tx = charge_after h version v tx (base_run h version cache s v tx, s)"
    using True assms(1,2) by (simp add: executeTx_base)
  have "s' = s\<lparr>sn_txsMap := AList.update a c' (sn_txsMap s)\<rparr> \<and>
      (\<exists>r. sc_txResult (er_ctx er) = Some r \<and> cr_GasUsed (res_ContractResult r) = gas)"
  proof (cases err)
    case None
    then show ?thesis
      using assms(3,4,7) w(2,5) ch res ex by (auto simp: charge_after_def min_def)
  next
    case (Some e)
    then show ?thesis
      using assms(3,4,7) ch res ex by (auto simp: charge_after_def SetTxResult_def)
  qed
  then obtain r where r: "s' = s\<lparr>sn_txsMap := AList.update a c' (sn_txsMap s)\<rparr>" "sc_txResult (er_ctx er) = Some r"
      "cr_GasUsed (res_ContractResult r) = gas"
    by blast
  moreover have "tc_accountBalance c' = tc_accountBalance c"
    by (simp add: w(1))
  ultimately show ?thesis
    using w(3) by (intro exI [of _ r] exI [of _ c'] conjI) (simp_all add: update_conv')
qed

section \<open>Grouping\<close>

definition charged_limit :: "CommonVMHelper \<Rightarrow> nat \<Rightarrow> view \<Rightarrow> Transaction \<Rightarrow> nat" where
  "charged_limit h version v tx =
     (if checkNativeFilter h version (p_ContractName (tx_Payload tx)) (p_Method (tx_Payload tx)) tx v
      then case p_Limit (tx_Payload tx) of None \<Rightarrow> 0 | Some limit \<Rightarrow> unat limit else 0)"

definition parallel_gas :: "CommonVMHelper \<Rightarrow> nat \<Rightarrow> view \<Rightarrow> TxCollection \<Rightarrow> nat" where
  "parallel_gas h version v c = sum_list (map (charged_limit h version v) (tc_txs c))"

text \<open>The parallel queue of a normal account: its limits are counted and covered by the balance.\<close>

definition queue_ok :: "CommonVMHelper \<Rightarrow> nat \<Rightarrow> view \<Rightarrow> TxCollection \<Rightarrow> bool" where
  "queue_ok h version v c \<longleftrightarrow> tc_accountStatus c = SUCCESS \<longrightarrow>
     parallel_gas h version v c \<le> unat (tc_totalGasUsed c) \<and> parallel_gas h version v c \<le> unat (tc_accountBalance c)"

lemma place_tx_cases:
  assumes "place_tx h version v tx c = (c', special)" and "queue_ok h version v c"
  shows "queue_ok h version v c'" and "mset (tc_txs c') + mset special \<subseteq># mset (tc_txs c) + {#tx#}"
    and "unat (tc_totalGasUsed c) + charged_limit h version v tx < 2 ^ 64 \<Longrightarrow>
      mset (tc_txs c') + mset special = mset (tc_txs c) + {#tx#} \<and>
      unat (tc_totalGasUsed c') \<le> unat (tc_totalGasUsed c) + charged_limit h version v tx"
proof -
  let ?need = "checkNativeFilter h version (p_ContractName (tx_Payload tx)) (p_Method (tx_Payload tx)) tx v"
  let ?lim = "charged_limit h version v tx"
  show "mset (tc_txs c') + mset special \<subseteq># mset (tc_txs c) + {#tx#}"
    using assms(1) by (auto simp: place_tx_def addTxGas_def Let_def split: if_splits option.splits prod.splits)
  obtain c1 ov where c1: "(case p_Limit (tx_Payload tx) of None \<Rightarrow> (c, False) | Some limit \<Rightarrow> addTxGas limit c) = (c1, ov)"
    by force
  have sum: "ov \<longleftrightarrow> 2 ^ 64 \<le> unat (tc_totalGasUsed c) + ?lim"
      "\<not> ov \<Longrightarrow> unat (tc_totalGasUsed c1) = unat (tc_totalGasUsed c) + ?lim"
      "tc_txs c1 = tc_txs c" "tc_accountBalance c1 = tc_accountBalance c" "tc_accountStatus c1 = tc_accountStatus c"
      "ov \<Longrightarrow> c1 = c" if ?need
    using c1 that unsigned_less [of "tc_totalGasUsed c", where 'a = nat]
    by (auto simp: charged_limit_def addTxGas_iff unat_add64 split: option.splits if_splits)
  show "queue_ok h version v c'"
  proof (cases "?need \<and> tc_accountStatus c = SUCCESS")
    case True
    then show ?thesis
      using assms sum c1
      by (auto simp: place_tx_def queue_ok_def parallel_gas_def word_less_nat_alt not_less Let_def split: if_splits)
  next
    case False
    then have "c' = c\<lparr>tc_txs := tc_txs c @ [tx]\<rparr>"
      using assms(1) by (auto simp: place_tx_def Let_def split: if_splits)
    then show ?thesis
      using False assms(2) by (auto simp: queue_ok_def parallel_gas_def charged_limit_def)
  qed
  show "mset (tc_txs c') + mset special = mset (tc_txs c) + {#tx#} \<and> unat (tc_totalGasUsed c') \<le> unat (tc_totalGasUsed c) + ?lim"
    if "unat (tc_totalGasUsed c) + ?lim < 2 ^ 64"
    using assms(1) c1 sum that by (auto simp: place_tx_def Let_def split: if_splits)
qed

text \<open>All transactions of a collection, queued or special.\<close>

definition queued_txs :: "(string \<times> TxCollection) list \<Rightarrow> Transaction multiset" where
  "queued_txs m = mset (concat (map (\<lambda>(_, c). tc_txs c) m))"

lemma queued_update:
  "queued_txs (AList.update a c m) + mset (case map_of m a of None \<Rightarrow> [] | Some c0 \<Rightarrow> tc_txs c0) = queued_txs m + mset (tc_txs c)"
  by (induction m) (auto simp: queued_txs_def)

definition queues_ok :: "CommonVMHelper \<Rightarrow> nat \<Rightarrow> view \<Rightarrow> (string \<times> TxCollection) list \<Rightarrow> bool" where
  "queues_ok h version v m \<longleftrightarrow> (\<forall>a c. map_of m a = Some c \<longrightarrow> queue_ok h version v c)"

text \<open>No account's sum of limits can reach 64 bits within the rest of the batch.\<close>

definition sums_fit :: "CommonVMHelper \<Rightarrow> nat \<Rightarrow> view \<Rightarrow> Transaction list \<Rightarrow> (string \<times> TxCollection) list \<Rightarrow> bool" where
  "sums_fit h version v txs m \<longleftrightarrow> sum_list (map (charged_limit h version v) txs) < 2 ^ 64 \<and>
     (\<forall>a c. map_of m a = Some c \<longrightarrow> unat (tc_totalGasUsed c) + sum_list (map (charged_limit h version v) txs) < 2 ^ 64)"

lemma sums_fit_update:
  assumes "sums_fit h version v (tx # txs) m"
    and "unat (tc_totalGasUsed c) + sum_list (map (charged_limit h version v) txs) < 2 ^ 64"
  shows "sums_fit h version v txs (AList.update a c m)"
proof -
  have "unat (tc_totalGasUsed c') + sum_list (map (charged_limit h version v) txs) < 2 ^ 64" if "map_of m b = Some c'" for b c'
  proof -
    have "unat (tc_totalGasUsed c') + (charged_limit h version v tx + sum_list (map (charged_limit h version v) txs)) < 2 ^ 64"
      using assms(1) that unfolding sums_fit_def by simp
    then show ?thesis by simp
  qed
  then show ?thesis
    using assms by (auto simp: sums_fit_def update_conv')
qed

lemma mset_replace:
  assumes "Q1 + C = Q + C'"
  shows "C' + sp \<subseteq># C + {#t#} \<Longrightarrow> Q1 + (S + sp) \<subseteq># Q + S + {#t#}"
    and "C' + sp = C + {#t#} \<Longrightarrow> Q1 + (S + sp) = Q + S + {#t#}"
proof -
  have "Q1 + (S + sp) + C = (Q1 + C) + S + sp"
    by (simp add: ac_simps)
  then have e: "Q1 + (S + sp) + C = Q + S + (C' + sp)"
    unfolding assms by (simp add: ac_simps)
  show "Q1 + (S + sp) \<subseteq># Q + S + {#t#}" if "C' + sp \<subseteq># C + {#t#}"
  proof -
    have "Q1 + (S + sp) + C \<subseteq># Q + S + (C + {#t#})"
      unfolding e using that by (rule subset_mset.add_left_mono)
    then have "Q1 + (S + sp) + C \<subseteq># Q + S + {#t#} + C"
      by (simp add: ac_simps)
    then show ?thesis by (simp only: mset_subset_eq_mono_add_right_cancel)
  qed
  show "Q1 + (S + sp) = Q + S + {#t#}" if "C' + sp = C + {#t#}"
  proof -
    have "Q1 + (S + sp) + C = Q + S + {#t#} + C"
      unfolding e that by (simp add: ac_simps)
    then show ?thesis by simp
  qed
qed

lemma getSenderTxCollection234_groups:
  fixes txs :: "Transaction list"
  assumes "queues_ok h version v (sn_txsMap s)"
  defines "s' \<equiv> getSenderTxCollection234 h version v txs s"
  shows "queues_ok h version v (sn_txsMap s') \<and>
    queued_txs (sn_txsMap s') + mset (sn_specialTxTable s') \<subseteq># queued_txs (sn_txsMap s) + mset (sn_specialTxTable s) + mset txs \<and>
    (sums_fit h version v txs (sn_txsMap s) \<and> (\<forall>tx\<in>set txs. \<exists>a. h_payerAddr h v tx = Inr a) \<longrightarrow>
       queued_txs (sn_txsMap s') + mset (sn_specialTxTable s') =
         queued_txs (sn_txsMap s) + mset (sn_specialTxTable s) + mset txs)"
  using assms(1) unfolding s'_def
proof (induction txs arbitrary: s)
  case (Cons tx txs)
  show ?case
  proof (cases "h_payerAddr h v tx")
    case (Inl e)
    note IH = Cons.IH [OF Cons.prems]
    have "queued_txs (sn_txsMap s) + mset (sn_specialTxTable s) + mset txs \<subseteq>#
        queued_txs (sn_txsMap s) + mset (sn_specialTxTable s) + mset (tx # txs)"
      by simp
    with conjunct1 [OF conjunct2 [OF IH]] have "queued_txs (sn_txsMap (getSenderTxCollection234 h version v txs s)) +
        mset (sn_specialTxTable (getSenderTxCollection234 h version v txs s)) \<subseteq>#
        queued_txs (sn_txsMap s) + mset (sn_specialTxTable s) + mset (tx # txs)"
      by (rule subset_mset.order_trans)
    then show ?thesis
      using conjunct1 [OF IH] Inl by simp
  next
    case (Inr a)
    define c where "c = (case map_of (sn_txsMap s) a of None \<Rightarrow> new_collection234 version v a | Some c \<Rightarrow> c)"
    obtain c' special where p: "place_tx h version v tx c = (c', special)" by force
    define s1 where "s1 = \<lparr>sn_txsMap = AList.update a c' (sn_txsMap s),
      sn_txAddressCache = AList.update (TxId tx) a (sn_txAddressCache s), sn_specialTxTable = sn_specialTxTable s @ special\<rparr>"
    have step: "getSenderTxCollection234 h version v (tx # txs) s = getSenderTxCollection234 h version v txs s1"
      using Inr p by (simp add: c_def s1_def)
    have "tc_txs (new_collection234 version v a) = []" "tc_totalGasUsed (new_collection234 version v a) = 0"
      by (simp_all add: new_collection234_def split_beta Let_def)
    then have qc: "queue_ok h version v c" "mset (case map_of (sn_txsMap s) a of None \<Rightarrow> [] | Some c0 \<Rightarrow> tc_txs c0) = mset (tc_txs c)"
        and fit: "sums_fit h version v (tx # txs) (sn_txsMap s) \<Longrightarrow>
          unat (tc_totalGasUsed c) + (charged_limit h version v tx + sum_list (map (charged_limit h version v) txs)) < 2 ^ 64"
      using Cons.prems by (auto simp: c_def queues_ok_def queue_ok_def parallel_gas_def sums_fit_def split: option.splits)
    note pl = place_tx_cases [OF p qc(1)]
    have q1: "queues_ok h version v (sn_txsMap s1)"
      using Cons.prems pl(1) by (auto simp: queues_ok_def s1_def update_conv')
    have q: "queued_txs (sn_txsMap s1) + mset (tc_txs c) = queued_txs (sn_txsMap s) + mset (tc_txs c')"
      using queued_update [of a c' "sn_txsMap s"] qc(2) by (simp add: s1_def)
    have sub: "queued_txs (sn_txsMap s1) + mset (sn_specialTxTable s1) \<subseteq># queued_txs (sn_txsMap s) + mset (sn_specialTxTable s) + {#tx#}"
      using mset_replace(1) [OF q pl(2)] by (simp add: s1_def)
    have eq: "queued_txs (sn_txsMap s1) + mset (sn_specialTxTable s1) = queued_txs (sn_txsMap s) + mset (sn_specialTxTable s) + {#tx#} \<and>
        sums_fit h version v txs (sn_txsMap s1)" if "sums_fit h version v (tx # txs) (sn_txsMap s)"
    proof -
      have "unat (tc_totalGasUsed c) + charged_limit h version v tx < 2 ^ 64"
        using fit [OF that] by simp
      note pl3 = pl(3) [OF this]
      then have "unat (tc_totalGasUsed c') + sum_list (map (charged_limit h version v) txs) < 2 ^ 64"
        using fit [OF that] by simp
      then have "sums_fit h version v txs (sn_txsMap s1)"
        using sums_fit_update [OF that] by (simp add: s1_def)
      then show ?thesis
        using mset_replace(2) [OF q, of "mset special" tx "mset (sn_specialTxTable s)"] pl3 by (simp add: s1_def)
    qed
    note IH = Cons.IH [OF q1]
    have "queued_txs (sn_txsMap s1) + mset (sn_specialTxTable s1) + mset txs \<subseteq>#
        queued_txs (sn_txsMap s) + mset (sn_specialTxTable s) + {#tx#} + mset txs"
      using sub by (rule subset_mset.add_right_mono)
    with conjunct1 [OF conjunct2 [OF IH]] have "queued_txs (sn_txsMap (getSenderTxCollection234 h version v txs s1)) +
        mset (sn_specialTxTable (getSenderTxCollection234 h version v txs s1)) \<subseteq>#
        queued_txs (sn_txsMap s) + mset (sn_specialTxTable s) + {#tx#} + mset txs"
      by (rule subset_mset.order_trans)
    then show ?thesis
      unfolding step using conjunct1 [OF IH] conjunct2 [OF conjunct2 [OF IH]] eq by simp
  qed
qed simp

section \<open>Dispatching before version 2.3.4\<close>

text \<open>With limit and balance below \<open>2 ^ 63\<close> a transaction passes exactly when the balance covers its limit.\<close>

lemma dispatch_step_covered:
  assumes "tx_Result tx = None" and "charged_limit h version v tx < 2 ^ 63" and "unat balance < 2 ^ 63"
    and "dispatch_step h version v addr tx balance = (tx', balance')" and "tx_Result tx' = None"
  shows "tx' = tx" and "unat balance' + charged_limit h version v tx = unat balance"
proof -
  let ?need = "checkNativeFilter h version (p_ContractName (tx_Payload tx)) (p_Method (tx_Payload tx)) tx v"
  define L where "L = (if \<not> ?need then 0 else the (p_Limit (tx_Payload tx)))"
  have lim: "?need \<Longrightarrow> p_Limit (tx_Payload tx) \<noteq> None"
    using assms(4,5) by (auto simp: dispatch_step_def split: if_splits)
  have L: "charged_limit h version v tx = unat L"
    using lim by (auto simp: charged_limit_def L_def)
  have st: "tx' = tx" "balance' = balance - L" "0 \<le> sint (balance - L)"
    using assms(1,4,5) lim by (auto simp: dispatch_step_def L_def [symmetric] Let_def split: if_splits)
  have "L \<le> balance"
  proof (rule ccontr)
    assume "\<not> L \<le> balance"
    then have "unat (balance - L) = 2 ^ 64 - (unat L - unat balance)"
      using assms(2) L by (simp add: unat_sub_if' word_le_nat_alt)
    then show False
      using st(3) assms(2) L unfolding sint_nonneg_iff by simp
  qed
  then show "unat balance' + charged_limit h version v tx = unat balance"
    by (simp add: st(2) L unat_sub word_le_nat_alt)
  show "tx' = tx" by (fact st(1))
qed

lemma dispatch_failed_keeps:
  "dispatch_step h version v addr tx balance = (tx', balance') \<Longrightarrow> tx_Result tx' \<noteq> None \<Longrightarrow> tx_Result tx = None \<Longrightarrow> balance' = balance"
  by (auto simp: dispatch_step_def Let_def split: if_splits)

lemma dispatch_collection_covered:
  assumes "\<forall>tx\<in>set txs. tx_Result tx = None \<and> charged_limit h version v tx < 2 ^ 63" and "unat balance < 2 ^ 63"
  shows "sum_list (map (charged_limit h version v) (filter (\<lambda>tx. tx_Result tx = None) (dispatch_collection h version v addr txs balance)))
    \<le> unat balance"
  using assms
proof (induction txs arbitrary: balance)
  case (Cons tx txs)
  obtain tx' b where st: "dispatch_step h version v addr tx balance = (tx', b)" by force
  show ?case
  proof (cases "tx_Result tx' = None")
    case True
    have tx: "tx_Result tx = None" "charged_limit h version v tx < 2 ^ 63"
      using Cons.prems(1) by simp_all
    note c = dispatch_step_covered [OF tx Cons.prems(2) st True]
    have "unat b < 2 ^ 63"
      using c(2) Cons.prems(2) by simp
    then show ?thesis
      using Cons.IH [of b] Cons.prems(1) st True c by simp
  next
    case False
    then have "b = balance"
      using dispatch_failed_keeps [OF st] Cons.prems(1) by simp
    then show ?thesis
      using Cons.IH [of balance] Cons.prems st False by auto
  qed
qed simp

text \<open>Beyond that range the cast to a signed number lets an uncovered limit pass.\<close>

lemma dispatch_step_huge_limit:
  assumes "checkNativeFilter h version (p_ContractName (tx_Payload tx)) (p_Method (tx_Payload tx)) tx v"
    and "p_Limit (tx_Payload tx) = Some (2 ^ 64 - 1)" and "tx_Result tx = None"
  shows "dispatch_step h version v addr tx 0 = (tx, 1)"
  using assms by (simp add: dispatch_step_def Let_def)

end
