(* ===== verification/DemoTx.thy ===== *)
theory DemoTx
  imports Demo Serial Balance
begin

text \<open>
  The small chain of theory Demo run by the default scheduler, without gas and with optimised charging:
  an account with a balance of \<open>100\<close> pays for transactions with a gas limit.
\<close>

section \<open>Without gas\<close>

abbreviation no_collection :: SenderCollection where
  "no_collection \<equiv> \<lparr>sn_txsMap = [], sn_txAddressCache = [], sn_specialTxTable = []\<rparr>"

abbreviation demo_tx_exec :: exec_fun where
  "demo_tx_exec \<equiv> tx_exec demo_helper (v235 + 300) [] no_collection"

lemma demo_opt [simp]: "\<not> IsOptimizeChargeGasEnabled demo_helper" "\<not> CheckGasEnable demo_helper"
  by (simp_all add: demo_helper_def IsOptimizeChargeGasEnabled_def CheckGasEnable_def)

lemma demo_filter [simp]: "checkNativeFilter h version ''c'' m tx v"
  by (simp add: checkNativeFilter_def IsNativeContract_def SystemContract_names_def)

lemma demo_tx_exec_eq:
  "v ''c'' key = Inr b \<Longrightarrow> demo_tx_exec v (set_result r (demo_tx txid key)) =
     (\<lparr>rw_TxId = txid,
       TxReads = [\<lparr>r_ContractName = ''c'', r_Key = key, r_Value = b\<rparr>],
       TxWrites = [\<lparr>w_ContractName = ''c'', w_Key = ''k'', w_Value = Some key\<rparr>]\<rparr>,
      Some \<lparr>res_Code = SUCCESS, res_ContractResult = demo_result, res_Message = []\<rparr>)"
proof -
  let ?tx = "set_result r (demo_tx txid key)"
  let ?rd = "\<lparr>r_ContractName = ''c'', r_Key = key, r_Value = b\<rparr>"
  let ?wr = "\<lparr>w_ContractName = ''c'', w_Key = ''k'', w_Value = Some key\<rparr>"
  let ?ctx = "\<lparr>sc_tx = ?tx, sc_blockVersion = v235 + 300,
    sc_frames = [[(''c'', \<lparr>txReadKeyMap = [(simKey ''c'' key, ?rd)], txWriteKeyMap = [(simKey ''c'' ''k'', ?wr)]\<rparr>)]],
    sc_relyCache = [], sc_txResult = None\<rparr>"
  assume v: "v ''c'' key = Inr b"
  have run: "run_prog demo_env v (RunContract demo_env pl c key ps g ty) (NewTxSimContext ?tx (v235 + 300)) =
      ((demo_result, ExecOrderTxTypeNormal, SUCCESS), ?ctx)" for pl c ps g ty
    by (simp add: demo_env_def run_prog_steps v sim_Get_def sim_Put_def getFromWriteSet_def getFromReadSet_def
        getFromRelyCache_def NewTxSimContext_def PutIntoReadSet_def putIntoWriteSet_def update_current_def
        empty_rwSet_def maxKeyLength_def)
  have gas: "calcTxGasUsed demo_helper ctx = Inr 0" "add_calc_gas demo_helper ctx SUCCESS demo_result = Inr demo_result" for ctx
    by (simp_all add: calcTxGasUsed_def add_calc_gas_def calcTxRWSetGasUsed_def calcTxEventGasUsed_def demo_helper_def Let_def demo_result_def)
  have guard: "guard_tx demo_helper (v235 + 300) no_collection v ?tx = (True, NewTxSimContext ?tx (v235 + 300), ?tx)"
    by (simp add: guard_tx_def processSenderCollectionIn234_def guardForExecuteTx2300_def v235_def Let_def)
  have helper: "h_env demo_helper = demo_env" "h_GetContractByName demo_helper c = Inr \<lparr>c_Name = c, c_RuntimeType = GO\<rparr>" for c
    by (simp_all add: demo_helper_def)
  have vm: "run_vm demo_helper (v235 + 300) [] v ?tx (NewTxSimContext ?tx (v235 + 300)) =
      \<lparr>vo_result = \<lparr>res_Code = SUCCESS, res_ContractResult = demo_result, res_Message = []\<rparr>, vo_specialTxType = ExecOrderTxTypeNormal,
       vo_err = None, vo_ctx = ?ctx, vo_cache = [(''c'', \<lparr>c_Name = ''c'', c_RuntimeType = GO\<rparr>)]\<rparr>"
    using run gas
    by (simp add: run_vm_def v235_def runVM2300_def runVM2300_main_def finish_with_gas_def prepare_vm_def helper
        ParseParameter2220_def GetContractFromCache_def GetContractBytecode_def
        finish_2300_def call_contract_of_def vm_done_def init_result_def demo_tx_def Let_def)
  have er: "fst (executeTx demo_helper (v235 + 300) [] no_collection v ?tx) =
      \<lparr>er_ctx = ?ctx\<lparr>sc_txResult := Some \<lparr>res_Code = SUCCESS, res_ContractResult = demo_result, res_Message = []\<rparr>\<rparr>,
       er_specialTxType = ExecOrderTxTypeNormal, er_runVmSuccess = True, er_tx = ?tx,
       er_cache = [(''c'', \<lparr>c_Name = ''c'', c_RuntimeType = GO\<rparr>)]\<rparr>"
    by (simp add: executeTx_def guard vm guarded_run_def SetTxResult_def)
  show ?thesis
    unfolding tx_exec_def er Let_def
    by (simp add: GetTxRWSet_def collectReadSetAndKey_def
        collectWriteSetAndKey_def v235_def blockVersion2312_def merge_map_def demo_tx_def Let_def)
qed

lemma demo_batch_ok: "batch_ok demo_helper (v235 + 300) demo_U demo_txs"
proof -
  have cov: "tx_covered demo_helper (v235 + 300) t" for t
    by (rule tx_covered_payer) (auto simp: demo_helper_def env_ok_def demo_env_def name_ok_def v235_def blockVersion2312_def)
  have "pairs_within demo_helper (v235 + 300) demo_U (set_result r (demo_tx txid key))" if "key \<in> {''a'', ''k''}" for r txid key
    unfolding pairs_within_def
  proof (intro allI impI)
    fix v :: view and col
    assume "total_view v"
    then obtain b where "v ''c'' key = Inr b" unfolding total_view_def by blast
    moreover have "tx_exec demo_helper (v235 + 300) [] col = demo_tx_exec"
      by (rule tx_exec_no_collection) simp
    ultimately show "rw_pairs [fst (tx_exec demo_helper (v235 + 300) [] col v (set_result r (demo_tx txid key)))] \<subseteq> demo_U"
      using that by (auto simp: demo_tx_exec_eq rw_pairs_def)
  qed
  then show ?thesis
    using cov by (simp add: batch_ok_def demo_txs_def payer_fixed_def) (simp add: demo_helper_def demo_tx_def)
qed

lemma demo_serial_batch:
  "\<forall>t\<in>set demo_txs. payer_fixed demo_helper t \<and>
     (\<forall>r. vm_covered demo_helper (set_result r t) \<and> vm_pairs_within demo_helper (v235 + 300) demo_U (set_result r t))"
proof -
  have fixed: "payer_fixed demo_helper t" for t by (simp add: payer_fixed_def demo_helper_def)
  have cov: "vm_covered demo_helper (set_result r (demo_tx txid key))" if "key \<noteq> ''TRIG''" for r txid key
    using that by (intro vm_covered_no_trig) (auto simp: demo_helper_def demo_tx_def env_ok_def demo_env_def name_ok_def)
  have "vm_pairs_within demo_helper (v235 + 300) demo_U (set_result r (demo_tx txid key))" if "key \<in> {''a'', ''k''}" for r txid key
    unfolding vm_pairs_within_def vm_exec_result [OF demo_opt(1) fixed]
  proof (intro allI impI)
    fix v :: view
    assume "total_view v"
    then obtain b where "v ''c'' key = Inr b" unfolding total_view_def by blast
    then show "\<forall>r\<in>set (reads_of (vm_exec demo_helper (v235 + 300) [] v (demo_tx txid key))). read_pair r \<in> demo_U"
      using that demo_exec_eq [of v key b txid] by (auto simp: v235_def)
  qed
  then show ?thesis using fixed cov by (simp add: demo_txs_def)
qed

lemma demo_tx_exec_out: "demo_tx_exec (ReadObject demo_store) (demo_tx ''t1'' ''a'') = demo_out"
  using demo_tx_exec_eq [of "ReadObject demo_store" "''a''" None None "''t1''"] by (simp add: demo_store_def demo_out_def demo_tx_def)

lemma demo_unambiguous: "unambiguous demo_U"
  by (auto simp: unambiguous_def inj_on_def constructKey_def)

lemma demo_store_total: "total_view (ReadObject demo_store)"
  by (simp add: demo_store_def)

lemma demo_batch_covered: "t \<in> set demo_txs \<Longrightarrow> tx_covered demo_helper (v235 + 300) t"
  using demo_batch_ok batch_ok_member(2) [of demo_helper "v235 + 300" demo_U demo_txs t] by blast

lemma demo_covers: "dag_covers [Some []] [fst demo_out]"
  by (simp add: dag_covers_def dag_ok_def)

section \<open>Optimised charging\<close>

definition demo_charge_env :: charge_env where
  "demo_charge_env = \<lparr>ce_randTxId = ''charge'', ce_sign = (\<lambda>_. True), ce_orderGas = rev, ce_orderMap = (\<lambda>m. m)\<rparr>"

definition demo_gas_helper :: CommonVMHelper where
  "demo_gas_helper = demo_helper\<lparr>h_chainConf := Some \<lparr>AccountConfig_EnableGas = Some True,
     Core_EnableOptimizeChargeGas = Some True, Vm_Native_Multisign_EnableManualRun = None\<rparr>\<rparr>"

definition demo_gas_tx :: "string \<Rightarrow> 64 word \<Rightarrow> Transaction" where
  "demo_gas_tx txid limit = \<lparr>
     tx_Payload = \<lparr>p_TxId = txid, p_TxType = INVOKE_CONTRACT, p_ContractName = ''c'', p_Method = ''a'',
                   p_Parameters = [], p_Limit = Some limit\<rparr>,
     tx_Result = None\<rparr>"

definition demo_account :: TxCollection where
  "demo_account = \<lparr>tc_accountBalance = 100, tc_totalGasUsed = 0, tc_txs = [], tc_accountStatus = SUCCESS\<rparr>"

definition demo_collection :: SenderCollection where
  "demo_collection = \<lparr>sn_txsMap = [(''addr'', demo_account)], sn_txAddressCache = [(''t1'', ''addr'')], sn_specialTxTable = []\<rparr>"

lemma demo_gas_enabled [simp]: "IsOptimizeChargeGasEnabled demo_gas_helper" "h_payerAddr demo_gas_helper v tx = Inr ''addr''"
  by (simp_all add: demo_gas_helper_def demo_helper_def IsOptimizeChargeGasEnabled_def)

lemma demo_gas_payload [simp]:
  "p_ContractName (tx_Payload (demo_gas_tx txid limit)) = ''c''" "p_TxType (tx_Payload (demo_gas_tx txid limit)) = INVOKE_CONTRACT"
  "p_Limit (tx_Payload (demo_gas_tx txid limit)) = Some limit" "TxId (demo_gas_tx txid limit) = txid"
  "tx_Result (demo_gas_tx txid limit) = None"
  by (simp_all add: demo_gas_tx_def)

text \<open>A snapshot with one applied transaction that used \<open>7\<close> units of gas.\<close>

definition demo_used :: Result where
  "demo_used = \<lparr>res_Code = SUCCESS, res_ContractResult = demo_result\<lparr>cr_GasUsed := 7\<rparr>, res_Message = []\<rparr>"

definition demo_charged_snapshot :: SnapshotImpl where
  "demo_charged_snapshot = map_snap (\<lambda>d. d\<lparr>txTable := [set_result (Some demo_used) (demo_gas_tx ''t1'' 60)],
     txResultMap := [''t1'' \<mapsto> Some demo_used]\<rparr>) demo_snapshot"

lemma demo_charged_table:
  "\<forall>tx\<in>set (GetTxTable demo_charged_snapshot).
     charged_table demo_gas_helper v v' demo_collection (GetTxResultMap demo_charged_snapshot) tx"
  by (simp add: GetTxTable_def GetTxResultMap_def demo_charged_snapshot_def charged_table_def is_charge_tx_def demo_gas_tx_def
      demo_collection_def)

lemma demo_charge_env_ok: "ce_sign demo_charge_env p" "mset (ce_orderGas demo_charge_env l) = mset l"
  by (simp_all add: demo_charge_env_def)

end
