(* ===== verification/ConflictsWindow.thy ===== *)
theory ConflictsWindow
  imports Prelude
begin

text \<open>
  The window of recent conflicts that steers the size of the worker pool
  (\<^verbatim>\<open>conflicts_window.go\<close>, \<^verbatim>\<open>initOptimizeTools\<close> and \<^verbatim>\<open>adjustPoolSize\<close> in \<^verbatim>\<open>scheduler.go\<close>).

  The rate is the number of conflicts divided by 64, which a double represents exactly; it is compared with the
  decimal fractions 0.05 and 0.2, here as fractions of integers. A pool size times 3 or 0.25 is exact as well for
  sizes a pool can have, and the conversion to an integer truncates.
\<close>

unbundle bit_operations_syntax

section \<open>Operations\<close>

definition AdjustWindowSize :: nat where
  "AdjustWindowSize = 64"

definition MinAdjustTimes :: nat where
  "MinAdjustTimes = 2"

definition MinPoolCapacity :: int where
  "MinPoolCapacity = 2"

definition AscendCoefficient :: int where
  "AscendCoefficient = 3"

datatype TxExecType = ConflictTx | NormalTx

record ConflictsBitWindow =
  bitWindow :: "256 word"
  bitWindowCapacity :: nat
  maxPoolCapacity :: int
  conflictsNum :: int
  execCount :: nat

definition NewConflictsBitWindow :: "nat \<Rightarrow> ConflictsBitWindow" where
  "NewConflictsBitWindow txBatchSize =
     \<lparr>bitWindow = 0, bitWindowCapacity = AdjustWindowSize, maxPoolCapacity = int txBatchSize, conflictsNum = 0, execCount = 0\<rparr>"

text \<open>\<open>below_base\<close> and \<open>above_top\<close> compare the rate with \<open>0.05\<close> and \<open>0.2\<close>.\<close>

definition below_base :: "ConflictsBitWindow \<Rightarrow> bool" where
  "below_base q \<longleftrightarrow> 20 * conflictsNum q < int (bitWindowCapacity q)"

definition above_top :: "ConflictsBitWindow \<Rightarrow> bool" where
  "above_top q \<longleftrightarrow> 5 * conflictsNum q > int (bitWindowCapacity q)"

definition getNewPoolCapacity :: "ConflictsBitWindow \<Rightarrow> int \<Rightarrow> int" where
  "getNewPoolCapacity q currPoolCapacity =
     (let targetCapacity =
            (if below_base q then currPoolCapacity * AscendCoefficient
             else if above_top q then currPoolCapacity div 4
             else -1)
      in if targetCapacity > maxPoolCapacity q then maxPoolCapacity q
         else if targetCapacity < MinPoolCapacity then MinPoolCapacity
         else targetCapacity)"

definition tail_marked :: "nat \<Rightarrow> 256 word \<Rightarrow> bool" where
  "tail_marked capacity w \<longleftrightarrow> push_bit (capacity - 1) 1 AND w > 0"

definition shift_in :: "bool \<Rightarrow> 256 word \<Rightarrow> 256 word" where
  "shift_in mark w = push_bit 1 w OR (if mark then 1 else 0)"

definition Enqueue :: "TxExecType \<Rightarrow> int \<Rightarrow> ConflictsBitWindow \<Rightarrow> int \<times> ConflictsBitWindow" where
  "Enqueue v currPoolCapacity q =
     (let n1 = (if v = ConflictTx then conflictsNum q + 1 else conflictsNum q);
          n2 = (if tail_marked (bitWindowCapacity q) (bitWindow q) then n1 - 1 else n1);
          q' = q\<lparr>bitWindow := shift_in (v = ConflictTx) (bitWindow q), conflictsNum := n2, execCount := execCount q + 1\<rparr>
      in (if execCount q' mod bitWindowCapacity q' = 0 then getNewPoolCapacity q' currPoolCapacity else -1, q'))"

definition setMaxPoolCapacity :: "int \<Rightarrow> ConflictsBitWindow \<Rightarrow> ConflictsBitWindow" where
  "setMaxPoolCapacity n q = q\<lparr>maxPoolCapacity := (if n < MinPoolCapacity then MinPoolCapacity else n)\<rparr>"

text \<open>The tools of a batch: a window only for batches of at least two windows' size.\<close>

definition initOptimizeTools :: "bool \<Rightarrow> nat \<Rightarrow> bool \<times> ConflictsBitWindow option" where
  "initOptimizeTools enableConflictsBitWindow txBatchSize =
     (let enable = (if AdjustWindowSize * MinAdjustTimes > txBatchSize then False else enableConflictsBitWindow)
      in (enable, if enable then Some (NewConflictsBitWindow txBatchSize) else None))"

text \<open>The pool is its capacity; tuning sets it.\<close>

definition adjustPoolSize :: "TxExecType \<Rightarrow> int \<times> ConflictsBitWindow \<Rightarrow> int \<times> ConflictsBitWindow" where
  "adjustPoolSize txExecType st =
     (let (cap, q) = st; (newPoolSize, q') = Enqueue txExecType cap q
      in if newPoolSize = -1 then (cap, q') else (newPoolSize, q'))"

section \<open>The count is that of the window\<close>

definition marks :: "256 word \<Rightarrow> nat set" where
  "marks w = {i. i < 64 \<and> bit w i}"

definition window_ok :: "ConflictsBitWindow \<Rightarrow> bool" where
  "window_ok q \<longleftrightarrow> bitWindowCapacity q = AdjustWindowSize \<and> conflictsNum q = int (card (marks (bitWindow q)))"

lemma bit_shift_in: "i < 64 \<Longrightarrow> bit (shift_in mark w) i \<longleftrightarrow> (if i = 0 then mark else bit w (i - 1))"
  unfolding shift_in_def bit_or_iff bit_push_bit_iff by (auto simp: bit_1_iff)

lemma tail_marked_iff: "tail_marked AdjustWindowSize w \<longleftrightarrow> bit w 63"
proof -
  have "push_bit 63 1 AND w \<noteq> 0 \<longleftrightarrow> bit w 63"
    unfolding bit_iff_and_push_bit_not_eq_0 [of w 63] and.commute [of w] ..
  then show ?thesis unfolding tail_marked_def AdjustWindowSize_def word_gt_0 by simp
qed

lemma marks_shift: "marks (shift_in mark w) = Suc ` (marks w - {63}) \<union> (if mark then {0} else {})"
proof -
  have "i \<in> marks (shift_in mark w) \<longleftrightarrow> i \<in> Suc ` (marks w - {63}) \<union> (if mark then {0} else {})" for i
    by (cases i) (auto simp: marks_def bit_shift_in image_iff split: if_splits)
  then show ?thesis by blast
qed

lemma card_marks_shift:
  "int (card (marks (shift_in mark w))) = int (card (marks w)) + (if mark then 1 else 0) - (if bit w 63 then 1 else 0)"
proof -
  have fin: "finite (marks w)" by (simp add: marks_def)
  have "card (Suc ` (marks w - {63}) \<union> (if mark then {0} else {})) = card (marks w - {63}) + (if mark then 1 else 0)"
    using fin by (subst card_Un_disjoint) (auto simp: card_image)
  moreover have "bit w 63 \<Longrightarrow> 63 \<in> marks w" by (simp add: marks_def)
  then have "card (marks w - {63}) + (if bit w 63 then 1 else 0) = card (marks w)"
    using fin card_Suc_Diff1 [of "marks w" 63] by (auto simp: marks_def)
  ultimately show ?thesis unfolding marks_shift by auto
qed

lemma window_ok_Enqueue:
  assumes "window_ok q" and "Enqueue v cap q = (n, q')"
  shows "window_ok q'" and "maxPoolCapacity q' = maxPoolCapacity q"
  using assms card_marks_shift [of "v = ConflictTx" "bitWindow q"]
  by (auto simp: Enqueue_def window_ok_def tail_marked_iff Let_def)

section \<open>Pool sizes\<close>

text \<open>
  What the window makes of a pool size at the end of 64 executions: with at most 3 conflicts it is tripled, with
  at least 13 divided by four, within the bounds; with 4 to 12 it becomes the least size.
\<close>

lemma getNewPoolCapacity_cases:
  assumes "bitWindowCapacity q = AdjustWindowSize" and "maxPoolCapacity q \<ge> MinPoolCapacity" and "cap \<ge> 0"
  shows "getNewPoolCapacity q cap =
    (if conflictsNum q \<le> 3 then max MinPoolCapacity (min (maxPoolCapacity q) (3 * cap))
     else if conflictsNum q \<ge> 13 then max MinPoolCapacity (min (maxPoolCapacity q) (cap div 4))
     else MinPoolCapacity)"
  using assms
  by (auto simp: getNewPoolCapacity_def below_base_def above_top_def AdjustWindowSize_def MinPoolCapacity_def
      AscendCoefficient_def Let_def max_def min_def)

lemma adjustPoolSize_bounds:
  assumes "window_ok q" and "maxPoolCapacity q \<ge> MinPoolCapacity" and "MinPoolCapacity \<le> cap" and "cap \<le> maxPoolCapacity q"
    and "adjustPoolSize v (cap, q) = (cap', q')"
  shows "window_ok q' \<and> maxPoolCapacity q' = maxPoolCapacity q \<and> MinPoolCapacity \<le> cap' \<and> cap' \<le> maxPoolCapacity q"
proof -
  obtain n q1 where e: "Enqueue v cap q = (n, q1)" by force
  note ok = window_ok_Enqueue [OF assms(1) e]
  have "n = -1 \<or> n = getNewPoolCapacity q1 cap"
    using e by (auto simp: Enqueue_def Let_def)
  moreover have "MinPoolCapacity \<le> getNewPoolCapacity q1 cap" "getNewPoolCapacity q1 cap \<le> maxPoolCapacity q"
    using assms(2) ok(2) by (auto simp: getNewPoolCapacity_def Let_def)
  ultimately show ?thesis
    using assms(3-5) ok e by (auto simp: adjustPoolSize_def MinPoolCapacity_def)
qed

section \<open>History\<close>

text \<open>The low 64 bits are the last outcomes, the latest first.\<close>

definition history :: "TxExecType list \<Rightarrow> ConflictsBitWindow \<Rightarrow> bool" where
  "history vs q \<longleftrightarrow> (\<forall>i<64. bit (bitWindow q) i \<longleftrightarrow> i < length vs \<and> rev vs ! i = ConflictTx)"

lemma history_step:
  assumes "history vs q" and "adjustPoolSize v (cap, q) = (cap', q')"
  shows "history (vs @ [v]) q'"
proof -
  have "bitWindow q' = shift_in (v = ConflictTx) (bitWindow q)"
    using assms(2) by (auto simp: adjustPoolSize_def Enqueue_def Let_def split: if_splits)
  moreover have "bit (shift_in (v = ConflictTx) (bitWindow q)) i \<longleftrightarrow> i < length (vs @ [v]) \<and> rev (vs @ [v]) ! i = ConflictTx"
    if "i < 64" for i
    using that assms(1) by (cases i) (auto simp: bit_shift_in history_def)
  ultimately show ?thesis by (simp add: history_def)
qed

lemma history_run:
  "history vs (snd (fold adjustPoolSize vs (cap, NewConflictsBitWindow n))) \<and>
   window_ok (snd (fold adjustPoolSize vs (cap, NewConflictsBitWindow n)))"
proof (induction vs rule: rev_induct)
  case Nil
  show ?case by (simp add: history_def window_ok_def marks_def NewConflictsBitWindow_def)
next
  case (snoc v vs)
  obtain c q where st: "fold adjustPoolSize vs (cap, NewConflictsBitWindow n) = (c, q)" by force
  obtain c' q' where st': "adjustPoolSize v (c, q) = (c', q')" by force
  then obtain k where "Enqueue v c q = (k, q')"
    by (auto simp: adjustPoolSize_def Let_def split: prod.splits if_splits)
  with snoc st show ?case
    using history_step [OF _ st', of vs] window_ok_Enqueue(1) [of q v c k q'] st' by simp
qed

lemma card_history:
  assumes "history vs q"
  shows "card (marks (bitWindow q)) = length (filter (\<lambda>v. v = ConflictTx) (take 64 (rev vs)))"
proof -
  have "marks (bitWindow q) = {i. i < length (take 64 (rev vs)) \<and> take 64 (rev vs) ! i = ConflictTx}"
    using assms by (auto simp: marks_def history_def)
  then show ?thesis by (simp add: length_filter_conv_card)
qed

text \<open>The first 63 outcomes change no size.\<close>

lemma execCount_run:
  "execCount (snd (fold adjustPoolSize vs (cap, NewConflictsBitWindow n))) = length vs \<and>
   (length vs < 64 \<longrightarrow> fst (fold adjustPoolSize vs (cap, NewConflictsBitWindow n)) = cap)"
proof (induction vs rule: rev_induct)
  case Nil
  show ?case by (simp add: NewConflictsBitWindow_def)
next
  case (snoc v vs)
  obtain c q where st: "fold adjustPoolSize vs (cap, NewConflictsBitWindow n) = (c, q)" by force
  have "bitWindowCapacity q = 64"
    using history_run [of vs cap n] st by (simp add: window_ok_def AdjustWindowSize_def)
  then have "execCount (snd (adjustPoolSize v (c, q))) = Suc (execCount q) \<and>
      (Suc (execCount q) < 64 \<longrightarrow> fst (adjustPoolSize v (c, q)) = c)"
    by (simp add: adjustPoolSize_def Enqueue_def Let_def)
  then show ?case using snoc st by simp
qed

end
