(* ===== verification/SenderGroup.thy ===== *)
theory SenderGroup
  imports ConflictsWindow VMCore
begin

text \<open>
  Dispatching by sender (\<^verbatim>\<open>SenderGroup\<close>, \<^verbatim>\<open>sendTxBySenderGroup\<close>, \<^verbatim>\<open>handleApplyResult\<close> and the end of
  \<^verbatim>\<open>startTxHandler\<close> in \<^verbatim>\<open>scheduler.go\<close>): the next transaction of a sender is sent to the workers when the one
  before it has been applied. Transactions are pointers here, with the key of their payer.
\<close>

section \<open>Grouping\<close>

text \<open>Where the payer cannot be found the error is dropped and the key is empty.\<close>

definition getPayerHashKey :: "CommonVMHelper \<Rightarrow> view \<Rightarrow> Transaction \<Rightarrow> string" where
  "getPayerHashKey h v tx = (case h_payerAddr h v tx of Inl _ \<Rightarrow> [] | Inr address \<Rightarrow> address)"

fun getSenderTxsMap :: "('a \<Rightarrow> string) \<Rightarrow> 'a list \<Rightarrow> (string \<times> 'a list) list \<Rightarrow> (string \<times> 'a list) list" where
  "getSenderTxsMap key [] m = m"
| "getSenderTxsMap key (tx # txs) m =
     (let hashKey = key tx
      in getSenderTxsMap key txs (AList.update hashKey ((case map_of m hashKey of None \<Rightarrow> [] | Some l \<Rightarrow> l) @ [tx]) m))"

record 'a group_state =
  sg_txsMap :: "(string \<times> 'a list) list"
  sg_window :: "ConflictsBitWindow option"
  sg_running :: "'a list"
  sg_doneTxKeyC :: "string list"
  sg_returned :: bool
  sg_applied :: "'a list"

section \<open>Sending\<close>

text \<open>
  The first round, over the map in some order. The lists of a map are never empty.
\<close>

definition group_start :: "((string \<times> 'a list) list \<Rightarrow> (string \<times> 'a list) list) \<Rightarrow> ConflictsBitWindow option \<Rightarrow>
    (string \<times> 'a list) list \<Rightarrow> 'a group_state" where
  "group_start order window m =
     \<lparr>sg_txsMap = m, sg_window = map_option (setMaxPoolCapacity (int (length m))) window,
      sg_running = map (\<lambda>(_, v). hd v) (order m), sg_doneTxKeyC = [], sg_returned = False, sg_applied = []\<rparr>"

text \<open>
  What the sending goroutine does with a key: the empty one ends it, one without an entry is a slice out
  of bounds, a panic (\<open>None\<close>).
\<close>

definition send_done :: "string \<Rightarrow> 'a group_state \<Rightarrow> 'a group_state option" where
  "send_done k st =
     (if length k = 0 then Some (st\<lparr>sg_returned := True\<rparr>)
      else
        case map_of (sg_txsMap st) k of
          None \<Rightarrow> None
        | Some [] \<Rightarrow> None
        | Some (_ # rest) \<Rightarrow>
            (case rest of
               next # _ \<Rightarrow> Some (st\<lparr>sg_txsMap := AList.update k rest (sg_txsMap st), sg_running := sg_running st @ [next]\<rparr>)
             | [] \<Rightarrow>
                 (let m = AList.delete k (sg_txsMap st)
                  in Some (st\<lparr>sg_txsMap := m, sg_window := map_option (setMaxPoolCapacity (int (length m))) (sg_window st)\<rparr>))))"

text \<open>
  A worker that has executed a transaction either puts it back into the channel or, where it was applied, reports its key.
  When the schedule is finished or has timed out the empty key is sent.
\<close>

inductive group_step :: "('a \<Rightarrow> string) \<Rightarrow> 'a group_state \<Rightarrow> 'a group_state \<Rightarrow> bool" for key where
  rejected: "sg_running st = R1 @ t # R2 \<Longrightarrow> group_step key st (st\<lparr>sg_running := R1 @ R2 @ [t]\<rparr>)"
| applied: "sg_running st = R1 @ t # R2 \<Longrightarrow>
     group_step key st (st\<lparr>sg_running := R1 @ R2, sg_doneTxKeyC := sg_doneTxKeyC st @ [key t], sg_applied := sg_applied st @ [t]\<rparr>)"
| finished: "group_step key st (st\<lparr>sg_doneTxKeyC := sg_doneTxKeyC st @ [[]]\<rparr>)"
| send: "\<not> sg_returned st \<Longrightarrow> sg_doneTxKeyC st = k # q \<Longrightarrow> send_done k (st\<lparr>sg_doneTxKeyC := q\<rparr>) = Some st' \<Longrightarrow>
     group_step key st st'"

inductive group_reach :: "('a \<Rightarrow> string) \<Rightarrow> 'a group_state \<Rightarrow> 'a group_state \<Rightarrow> bool" for key st0 where
  here: "group_reach key st0 st0"
| further: "group_reach key st0 st \<Longrightarrow> group_step key st st' \<Longrightarrow> group_reach key st0 st'"

section \<open>The groups\<close>

lemma getSenderTxsMap_groups:
  "map_of (getSenderTxsMap key txs m) k =
     (let l = (case map_of m k of None \<Rightarrow> [] | Some l \<Rightarrow> l) @ filter (\<lambda>t. key t = k) txs
      in if map_of m k = None \<and> l = [] then None else Some l)"
  by (induction txs arbitrary: m) (auto simp: update_conv' Let_def split: option.splits)

lemma getSenderTxsMap_distinct: "distinct (map fst m) \<Longrightarrow> distinct (map fst (getSenderTxsMap key txs m))"
  by (induction txs arbitrary: m) (simp_all add: distinct_update Let_def)

section \<open>One transaction per sender\<close>

definition of_key :: "('a \<Rightarrow> string) \<Rightarrow> string \<Rightarrow> 'a list \<Rightarrow> 'a list" where
  "of_key key k = filter (\<lambda>t. key t = k)"

lemma of_key_simps [simp]:
  "of_key key k [] = []" "of_key key k (t # ts) = (if key t = k then t # of_key key k ts else of_key key k ts)"
  "of_key key k (xs @ ys) = of_key key k xs @ of_key key k ys"
  by (simp_all add: of_key_def)

text \<open>
  Of every sender, the transactions applied so far are a beginning of its transactions of the batch; the first of
  the others is with the workers, or its predecessor's key has been reported and not handled yet.
\<close>

definition group_ok :: "('a \<Rightarrow> string) \<Rightarrow> 'a list \<Rightarrow> 'a group_state \<Rightarrow> string \<Rightarrow> bool" where
  "group_ok key txs st k \<longleftrightarrow>
     (let pending = count_list (sg_doneTxKeyC st) k; running = of_key key k (sg_running st);
          done = of_key key k (sg_applied st)
      in case map_of (sg_txsMap st) k of
           None \<Rightarrow> running = [] \<and> pending = 0 \<and> done = of_key key k txs
         | Some l \<Rightarrow> (\<exists>t ts. l = t # ts \<and>
             (running = [t] \<and> pending = 0 \<and> done @ t # ts = of_key key k txs \<or>
              running = [] \<and> pending = 1 \<and> done @ ts = of_key key k txs)))"

definition group_inv :: "('a \<Rightarrow> string) \<Rightarrow> 'a list \<Rightarrow> 'a group_state \<Rightarrow> bool" where
  "group_inv key txs st \<longleftrightarrow> distinct (map fst (sg_txsMap st)) \<and> (\<forall>k. k \<noteq> [] \<longrightarrow> group_ok key txs st k) \<and>
     (\<forall>t\<in>set (sg_running st). key t \<noteq> [])"

lemma of_key_move: "of_key key k (R1 @ R2 @ [t]) = (if key t = k then of_key key k (R1 @ R2) @ [t] else of_key key k (R1 @ t # R2))"
  by simp

lemma group_inv_start:
  assumes "\<forall>t\<in>set txs. key t \<noteq> []" and order: "\<And>l. mset (order l) = mset l"
  shows "group_inv key txs (group_start order window (getSenderTxsMap key txs []))"
proof -
  let ?m = "getSenderTxsMap key txs []"
  have m: "map_of ?m k = (if of_key key k txs = [] then None else Some (of_key key k txs))" for k
    using getSenderTxsMap_groups [of key txs "[]" k] by (simp add: of_key_def Let_def)
  have dist: "distinct (map fst ?m)" using getSenderTxsMap_distinct [of "[]"] by simp
  have "mset (map fst (order ?m)) = mset (map fst ?m)" using order by simp
  then have dist': "distinct (map fst (order ?m))" using dist mset_eq_imp_distinct_iff by blast
  have entry: "(k, l) \<in> set (order ?m) \<longleftrightarrow> l = of_key key k txs \<and> l \<noteq> []" for k l
    using order mset_eq_setD [of "order ?m" ?m] map_of_eq_Some_iff [OF dist, of k l] m by (auto split: if_splits)
  have heads: "key (hd l) = k" if "(k, l) \<in> set (order ?m)" for k l
    using that hd_in_set [of l] unfolding entry of_key_def by auto
  have run: "of_key key k (map (\<lambda>(_, v). hd v) xs) = (case map_of xs k of None \<Rightarrow> [] | Some l \<Rightarrow> [hd l])"
    if "set xs \<subseteq> set (order ?m)" "distinct (map fst xs)" for xs k
    using that
  proof (induction xs)
    case (Cons x xs)
    obtain a l where x: "x = (a, l)" by force
    have "key (hd l) = a" using heads Cons.prems x by auto
    moreover have "map_of xs a = None" using Cons.prems x by (auto simp: map_of_eq_None_iff)
    ultimately show ?case using Cons x by auto
  qed simp
  have "map_of (order ?m) k = map_of ?m k" for k
    using entry [of k] m map_of_eq_Some_iff [OF dist'] by (cases "map_of (order ?m) k") (auto simp: map_of_eq_None_iff)
  then have "group_ok key txs (group_start order window ?m) k" for k
    using run [of "order ?m" k] dist' m [of k]
    by (cases "of_key key k txs") (auto simp: group_ok_def group_start_def Let_def)
  moreover have "\<forall>t\<in>set (map (\<lambda>(_, v). hd v) (order ?m)). key t \<noteq> []"
  proof
    fix t assume "t \<in> set (map (\<lambda>(_, v). hd v) (order ?m))"
    then obtain k l where kl: "(k, l) \<in> set (order ?m)" "t = hd l" by auto
    then have "t \<in> set txs" using entry hd_in_set [of l] by (auto simp: of_key_def)
    then show "key t \<noteq> []" using assms(1) by simp
  qed
  ultimately show ?thesis using dist by (simp add: group_inv_def group_start_def)
qed

lemma running_one:
  assumes "group_inv key txs st" and "sg_running st = R1 @ t # R2"
  shows "\<exists>ts. map_of (sg_txsMap st) (key t) = Some (t # ts) \<and> of_key key (key t) (R1 @ R2) = [] \<and>
    count_list (sg_doneTxKeyC st) (key t) = 0 \<and> of_key key (key t) (sg_applied st) @ t # ts = of_key key (key t) txs"
proof -
  have "group_ok key txs st (key t)" using assms by (auto simp: group_inv_def)
  then show ?thesis
    using assms(2) by (auto simp: group_ok_def Let_def Cons_eq_append_conv append_eq_Cons_conv split: option.splits)
qed

lemma distinct_keys_one:
  assumes "\<And>R1 t R2. xs = R1 @ t # R2 \<Longrightarrow> of_key key (key t) (R1 @ R2) = []"
  shows "distinct (map key xs)"
  using assms
proof (induction xs)
  case (Cons x xs)
  have "of_key key (key x) xs = []" using Cons.prems [of "[]" x xs] by simp
  then have "key x \<notin> key ` set xs" by (auto simp: of_key_def filter_empty_conv)
  moreover have "of_key key (key t) (R1 @ R2) = []" if "xs = R1 @ t # R2" for R1 t R2
    using Cons.prems [of "x # R1" t R2] that by (simp split: if_splits)
  then have "distinct (map key xs)" by (rule Cons.IH)
  ultimately show ?case by simp
qed simp

lemma group_inv_applied:
  assumes inv: "group_inv key txs st" and R: "sg_running st = R1 @ t # R2"
  shows "group_inv key txs (st\<lparr>sg_running := R1 @ R2, sg_doneTxKeyC := sg_doneTxKeyC st @ [key t], sg_applied := sg_applied st @ [t]\<rparr>)"
    (is "group_inv key txs ?st")
proof -
  obtain ts where t: "map_of (sg_txsMap st) (key t) = Some (t # ts)" "of_key key (key t) (R1 @ R2) = []"
      "count_list (sg_doneTxKeyC st) (key t) = 0" "of_key key (key t) (sg_applied st) @ t # ts = of_key key (key t) txs"
    using running_one [OF inv R] by blast
  have "group_ok key txs ?st k" if "k \<noteq> []" for k
  proof (cases "k = key t")
    case True
    then show ?thesis using t by (simp add: group_ok_def)
  next
    case False
    have "group_ok key txs st k" using inv that by (simp add: group_inv_def)
    then show ?thesis using False R by (simp add: group_ok_def)
  qed
  then show ?thesis using inv R by (auto simp: group_inv_def)
qed

lemma group_inv_send:
  assumes inv: "group_inv key txs st" and q: "sg_doneTxKeyC st = k # q" and "send_done k (st\<lparr>sg_doneTxKeyC := q\<rparr>) = Some st'"
    and keys: "\<forall>t\<in>set txs. key t \<noteq> []"
  shows "group_inv key txs st'"
proof (cases "k = []")
  case True
  then have "st' = st\<lparr>sg_doneTxKeyC := q, sg_returned := True\<rparr>" using assms(3) by (simp add: send_done_def)
  then show ?thesis using inv q True by (auto simp: group_inv_def group_ok_def)
next
  case False
  then have ok: "group_ok key txs st k" using inv by (simp add: group_inv_def)
  then obtain t ts where t: "map_of (sg_txsMap st) k = Some (t # ts)" "of_key key k (sg_running st) = []"
      "count_list q k = 0" "of_key key k (sg_applied st) @ ts = of_key key k txs"
    using q by (auto simp: group_ok_def Let_def split: option.splits)
  have other: "group_ok key txs st' k'" if "k' \<noteq> []" "k' \<noteq> k" "map_of (sg_txsMap st') k' = map_of (sg_txsMap st) k'"
      "of_key key k' (sg_running st') = of_key key k' (sg_running st)" "sg_doneTxKeyC st' = q" "sg_applied st' = sg_applied st" for k'
  proof -
    have "group_ok key txs st k'" using inv that(1) by (simp add: group_inv_def)
    then show ?thesis using that q by (simp add: group_ok_def)
  qed
  have mem: "u \<in> set ts \<Longrightarrow> key u = k" for u
    using arg_cong [OF t(4), of set] by (auto simp: of_key_def)
  show ?thesis
  proof (cases ts)
    case Nil
    then have st': "st' = st\<lparr>sg_doneTxKeyC := q, sg_txsMap := AList.delete k (sg_txsMap st),
        sg_window := map_option (setMaxPoolCapacity (int (length (AList.delete k (sg_txsMap st))))) (sg_window st)\<rparr>"
      using assms(3) t(1) False by (simp add: send_done_def Let_def)
    have "group_ok key txs st' k" using t Nil by (simp add: group_ok_def st' delete_conv')
    moreover have "group_ok key txs st' k'" if "k' \<noteq> []" "k' \<noteq> k" for k'
      using that by (intro other) (simp_all add: st' delete_conv')
    ultimately show ?thesis
      using inv by (auto simp: group_inv_def st' distinct_delete)
  next
    case (Cons u us)
    then have st': "st' = st\<lparr>sg_doneTxKeyC := q, sg_txsMap := AList.update k ts (sg_txsMap st), sg_running := sg_running st @ [u]\<rparr>"
      using assms(3) t(1) False by (simp add: send_done_def)
    have u: "key u = k" using mem Cons by simp
    have "group_ok key txs st' k" using t Cons u by (simp add: group_ok_def st' update_conv')
    moreover have "group_ok key txs st' k'" if "k' \<noteq> []" "k' \<noteq> k" for k'
      using that u by (intro other) (simp_all add: st' update_conv')
    ultimately show ?thesis
      using inv False u by (auto simp: group_inv_def st' distinct_update)
  qed
qed

lemma group_inv_step:
  assumes "group_step key st st'" and inv: "group_inv key txs st" and keys: "\<forall>t\<in>set txs. key t \<noteq> []"
  shows "group_inv key txs st'"
  using assms(1)
proof cases
  case (rejected R1 t R2)
  obtain ts where one: "of_key key (key t) (R1 @ R2) = []" using running_one [OF inv rejected(2)] by blast
  have "group_ok key txs st' k" if "k \<noteq> []" for k
  proof -
    have "of_key key k (R1 @ R2 @ [t]) = of_key key k (R1 @ t # R2)" using one by (cases "k = key t") auto
    moreover have "group_ok key txs st k" using inv that by (simp add: group_inv_def)
    ultimately show ?thesis using rejected by (simp add: group_ok_def del: of_key_simps)
  qed
  then show ?thesis using inv rejected by (auto simp: group_inv_def)
next
  case (applied R1 t R2)
  then show ?thesis using group_inv_applied [OF inv] by simp
next
  case finished
  then show ?thesis using inv by (auto simp: group_inv_def group_ok_def)
next
  case (send k q)
  then show ?thesis using group_inv_send [OF inv _ _ keys] by blast
qed

lemma group_inv_reach:
  assumes "group_reach key st0 st" and "group_inv key txs st0" and "\<forall>t\<in>set txs. key t \<noteq> []"
  shows "group_inv key txs st"
  using assms(1) by induction (auto intro: assms(2) group_inv_step [OF _ _ assms(3)])

text \<open>No key the sending goroutine can receive makes it panic.\<close>

lemma group_send_enabled:
  assumes "group_inv key txs st" and "sg_doneTxKeyC st = k # q"
  shows "send_done k (st\<lparr>sg_doneTxKeyC := q\<rparr>) \<noteq> None"
proof (cases "k = []")
  case False
  then have "group_ok key txs st k" using assms(1) by (simp add: group_inv_def)
  then show ?thesis using assms(2) False
    by (auto simp: group_ok_def send_done_def Let_def split: option.splits list.splits)
qed (simp add: send_done_def)

text \<open>Where nothing is left to do without having been ended, everything has been applied.\<close>

lemma group_all_applied:
  assumes "group_inv key txs st" and "sg_running st = []" and "sg_doneTxKeyC st = []" and "k \<noteq> []"
  shows "of_key key k (sg_applied st) = of_key key k txs"
proof -
  have "group_ok key txs st k" using assms by (simp add: group_inv_def)
  then show ?thesis using assms(2,3) by (auto simp: group_ok_def split: option.splits)
qed

section \<open>Progress\<close>

definition queued :: "(string \<times> 'a list) list \<Rightarrow> nat" where
  "queued m = sum_list (map (\<lambda>(_, l). length l) m)"

lemma queued_shrinks:
  assumes "map_of m k = Some (t # ts)" and "distinct (map fst m)"
  shows "queued (AList.update k ts m) < queued m" and "queued (AList.delete k m) < queued m"
proof -
  have "queued (AList.update k ts m) < queued m \<and> queued (AList.delete k m) < queued m"
    using assms
  proof (induction m)
    case (Cons x m)
    obtain a l where x: "x = (a, l)" by force
    show ?case
    proof (cases "a = k")
      case True
      then have "k \<notin> fst ` set m" using Cons.prems(2) x by simp
      then show ?thesis using Cons.prems(1) True x by (simp add: queued_def)
    next
      case False
      then show ?thesis using Cons x by (simp add: queued_def)
    qed
  qed simp
  then show "queued (AList.update k ts m) < queued m" "queued (AList.delete k m) < queued m" by simp_all
qed

definition group_work :: "'a group_state \<Rightarrow> nat" where
  "group_work st = 3 * queued (sg_txsMap st) + 2 * length (sg_running st) + length (sg_doneTxKeyC st)"

lemma send_work:
  assumes "send_done k (st\<lparr>sg_doneTxKeyC := q\<rparr>) = Some st'" and "k \<noteq> []" and "sg_doneTxKeyC st = k # q" and "distinct (map fst (sg_txsMap st))"
  shows "group_work st' < group_work st" and "sg_doneTxKeyC st' = q" and "sg_returned st' = sg_returned st"
  using assms queued_shrinks [OF _ assms(4), of k]
  by (fastforce simp: send_done_def group_work_def Let_def split: option.splits list.splits)+

lemma group_reach_trans: "group_reach key st0 st \<Longrightarrow> group_reach key st st' \<Longrightarrow> group_reach key st0 st'"
  by (rotate_tac 1, induction rule: group_reach.induct) (auto intro: group_reach.further)

lemma group_drains:
  assumes "group_inv key txs st" and "\<not> sg_returned st" and "[] \<notin> set (sg_doneTxKeyC st)" and keys: "\<forall>t\<in>set txs. key t \<noteq> []"
  shows "\<exists>st'. group_reach key st st' \<and> sg_running st' = [] \<and> sg_doneTxKeyC st' = [] \<and> \<not> sg_returned st'"
  using assms(1-3)
proof (induction "group_work st" arbitrary: st rule: less_induct)
  case less
  have on: "?case" if "group_step key st st1" "group_work st1 < group_work st" "\<not> sg_returned st1" "[] \<notin> set (sg_doneTxKeyC st1)" for st1
    using less.hyps [OF that(2) group_inv_step [OF that(1) less.prems(1) keys] that(3,4)]
      group_reach_trans [OF group_reach.further [OF group_reach.here that(1)]] by blast
  show ?case
  proof (cases "sg_running st")
    case (Cons t R)
    then have "key t \<noteq> []" using less.prems(1) by (simp add: group_inv_def)
    then show ?thesis
      using on [OF group_step.applied [of st "[]" t R]] Cons less.prems by (simp add: group_work_def)
  next
    case Nil
    show ?thesis
    proof (cases "sg_doneTxKeyC st")
      case Nil
      with \<open>sg_running st = []\<close> less.prems(2) show ?thesis using group_reach.here by blast
    next
      case (Cons k q)
      obtain st1 where st1: "send_done k (st\<lparr>sg_doneTxKeyC := q\<rparr>) = Some st1"
        using group_send_enabled [OF less.prems(1) Cons] by blast
      have "k \<noteq> []" "[] \<notin> set q" using less.prems(3) Cons by auto
      moreover have "distinct (map fst (sg_txsMap st))" using less.prems(1) by (simp add: group_inv_def)
      ultimately show ?thesis
        using on [OF group_step.send [OF less.prems(2) Cons st1]] send_work [OF st1 _ Cons] less.prems(2) by simp
    qed
  qed
qed

end
