(* ===== verification/Sync.thy ===== *)
theory Sync
  imports Prelude "HOL-Library.AList"
begin

text \<open>
  Block synchronisation (\<^verbatim>\<open>module/sync\<close>): the scheduler that decides which blocks to request from which peer,
  the processor that verifies and commits what was received, and the requests a node answers. Both are
  message handlers on a state of their own; they share the height of the ledger.

  Heights, sizes and times are natural numbers. A height stands for a \<open>uint64\<close> and the one subtraction that can wrap
  around is written out. The last committed block exists: it is set before the service starts. Go maps
  are association lists; where the code iterates over one and the order matters, the choice is a parameter.
  A block without header makes the handlers panic, which is the outcome \<open>None\<close>.
\<close>

section \<open>Messages\<close>

record 'b Block =
  blk_Header :: "nat option"
  blk_Body :: 'b

datatype 'b SyncBlockBatch = NoData | BlockBatch "'b Block list" | BlockinfoBatch "('b Block \<times> TxRWSet list) list"

datatype processedBlockStatus = status_ok | dbErr | addErr | hasProcessed | validateFailed

datatype 'b sched_msg =
    NodeStatusMsg string nat nat
  | LivenessMsg
  | SchedulerMsg
  | SyncedBlockMsg string "('b SyncBlockBatch \<times> bool) option"
  | ProcessedBlockResp nat processedBlockStatus string
  | SchedDataDetection
  | SchedStopSyncMsg
  | StartSyncMsg

datatype 'b proc_msg =
    ReceivedBlockInfos "'b SyncBlockBatch" bool string
  | ProcessBlockMsg
  | ProcDataDetection
  | ProcStopSyncMsg

text \<open>Priorities: of two tasks the one with the higher level is handled first.\<close>

primrec sched_Level :: "'b sched_msg \<Rightarrow> nat" where
  "sched_Level (NodeStatusMsg _ _ _) = 1"
| "sched_Level LivenessMsg = 1"
| "sched_Level SchedulerMsg = 1"
| "sched_Level (SyncedBlockMsg _ _) = 2"
| "sched_Level (ProcessedBlockResp _ _ _) = 3"
| "sched_Level SchedDataDetection = 1"
| "sched_Level SchedStopSyncMsg = 1"
| "sched_Level StartSyncMsg = 1"

primrec proc_Level :: "'b proc_msg \<Rightarrow> nat" where
  "proc_Level (ReceivedBlockInfos _ _ _) = 3"
| "proc_Level ProcessBlockMsg = 3"
| "proc_Level ProcDataDetection = 1"
| "proc_Level ProcStopSyncMsg = 1"

definition sync_Compare :: "nat \<Rightarrow> nat \<Rightarrow> int" where
  "sync_Compare p other = (if p < other then 1 else if p = other then 0 else -1)"

section \<open>The scheduler\<close>

datatype blockState = newBlock | pendingBlock | receivedBlock

record scheduler =
  sch_peers :: "(string \<times> nat) list"
  blockStates :: "(nat \<times> blockState) list"
  pendingTime :: "(nat \<times> nat) list"
  pendingBlocks :: "(nat \<times> string) list"
  receivedBlocks :: "(nat \<times> string) list"
  lastRequest :: nat
  pendingRecvHeight :: nat
  maxPendingBlocks :: nat
  BatchesizeInEachReq :: nat
  peerReqTimeout :: nat
  reqTimeThreshold :: nat
  startTime :: nat
  thresholdTime :: nat
  thresholdBlocks :: nat
  stopSyncBlock :: bool
  preferenceNodes :: "string list option"

definition newScheduler :: "nat \<Rightarrow> nat \<Rightarrow> nat \<Rightarrow> nat \<Rightarrow> nat \<Rightarrow> nat \<Rightarrow> nat \<Rightarrow> nat \<Rightarrow> string list \<Rightarrow> scheduler" where
  "newScheduler currHeight now maxNum timeOut reqThreshold batchesize minLagThreshold minLagThresholdTime nodes =
     \<lparr>sch_peers = [], blockStates = [], pendingTime = [], pendingBlocks = [], receivedBlocks = [], lastRequest = 0,
      pendingRecvHeight = currHeight + 1, maxPendingBlocks = maxNum, BatchesizeInEachReq = batchesize,
      peerReqTimeout = timeOut, reqTimeThreshold = reqThreshold, startTime = now, thresholdTime = minLagThresholdTime,
      thresholdBlocks = minLagThreshold, stopSyncBlock = False,
      preferenceNodes = (if length nodes > 0 then Some nodes else None)\<rparr>"

definition MaxUint64 :: nat where
  "MaxUint64 = 2 ^ 64 - 1"

definition isPreferenceNode :: "string \<Rightarrow> scheduler \<Rightarrow> bool" where
  "isPreferenceNode i sch = (case preferenceNodes sch of None \<Rightarrow> True | Some nodes \<Rightarrow> i \<in> set nodes)"

definition isPeerArchivedTooHeight :: "nat \<Rightarrow> nat \<Rightarrow> bool" where
  "isPeerArchivedTooHeight localHeight peerArchivedHeight \<longleftrightarrow> peerArchivedHeight \<noteq> 0 \<and> localHeight \<le> peerArchivedHeight"

definition maxHeight :: "scheduler \<Rightarrow> nat" where
  "maxHeight sch = fold (\<lambda>(_, height) max. if max < height then height else max) (sch_peers sch) 0"

text \<open>Whether the signal that most blocks are there is offered; the difference of the heights wraps around.\<close>

definition receiveMajorityBlocks :: "nat \<Rightarrow> nat \<Rightarrow> scheduler \<Rightarrow> bool" where
  "receiveMajorityBlocks now currBlockHeight sch =
     (if now - startTime sch < thresholdTime sch then False
      else if stopSyncBlock sch then False
      else \<not> (maxHeight sch + 2 ^ 64 - currBlockHeight) mod 2 ^ 64 > thresholdBlocks sch)"

fun mark_new :: "nat \<Rightarrow> nat list \<Rightarrow> (nat \<times> blockState) list \<Rightarrow> (nat \<times> blockState) list" where
  "mark_new maxNum [] m = m"
| "mark_new maxNum (i # is) m =
     (if map_of m i \<noteq> None then mark_new maxNum is m
      else if length m > maxNum then m
      else mark_new maxNum is (AList.update i newBlock m))"

definition addPendingBlocksAndUpdatePendingHeight :: "nat \<Rightarrow> nat \<Rightarrow> scheduler \<Rightarrow> scheduler" where
  "addPendingBlocksAndUpdatePendingHeight ledger peerHeight sch =
     (if length (blockStates sch) \<ge> maxPendingBlocks sch then sch
      else if ledger \<ge> peerHeight then sch
      else sch\<lparr>blockStates := mark_new (maxPendingBlocks sch)
             [pendingRecvHeight sch..<min (peerHeight + 1) (pendingRecvHeight sch + maxPendingBlocks sch)] (blockStates sch)\<rparr>)"

definition handleNodeStatus :: "nat \<Rightarrow> nat \<Rightarrow> string \<Rightarrow> nat \<Rightarrow> nat \<Rightarrow> scheduler \<Rightarrow> bool \<times> scheduler" where
  "handleNodeStatus now ledger sender height archived sch =
     (if \<not> isPreferenceNode sender sch then (False, sch)
      else if (case map_of (sch_peers sch) sender of None \<Rightarrow> False
                | Some old \<Rightarrow> old > height \<or> isPeerArchivedTooHeight ledger archived)
      then (False, sch\<lparr>sch_peers := AList.delete sender (sch_peers sch)\<rparr>)
      else
        (let reached = receiveMajorityBlocks now ledger sch
         in if isPeerArchivedTooHeight ledger archived then (reached, sch)
            else (reached, addPendingBlocksAndUpdatePendingHeight ledger height
                   (sch\<lparr>sch_peers := AList.update sender height (sch_peers sch)\<rparr>))))"

text \<open>The entries of the heights below the ledger's go; those of the maps are dropped where the state had one.\<close>

definition clearLaggingRequest :: "nat \<Rightarrow> scheduler \<Rightarrow> scheduler" where
  "clearLaggingRequest curHeight sch =
     (let lagging = (\<lambda>height. height < curHeight \<and> map_of (blockStates sch) height \<noteq> None);
          states = filter (\<lambda>(height, _). \<not> lagging height) (blockStates sch)
      in sch\<lparr>blockStates := (if map_of states (curHeight + 1) = None then AList.update (curHeight + 1) newBlock states else states),
             pendingBlocks := filter (\<lambda>(height, _). \<not> lagging height) (pendingBlocks sch),
             receivedBlocks := filter (\<lambda>(height, _). \<not> lagging height) (receivedBlocks sch),
             pendingTime := filter (\<lambda>(height, _). \<not> lagging height) (pendingTime sch),
             pendingRecvHeight := curHeight + 1\<rparr>)"

definition sch_handleDataDetection :: "nat \<Rightarrow> scheduler \<Rightarrow> scheduler" where
  "sch_handleDataDetection ledger sch = clearLaggingRequest ledger sch"

definition handleLivinessMsg :: "nat \<Rightarrow> nat \<Rightarrow> scheduler \<Rightarrow> scheduler" where
  "handleLivinessMsg now ledger sch =
     (let h = pendingRecvHeight sch in
      case map_of (pendingTime sch) h of
        None \<Rightarrow> sch
      | Some reqTime \<Rightarrow>
          if now - reqTime > peerReqTimeout sch
          then
            (let peer = (case map_of (pendingBlocks sch) h of None \<Rightarrow> [] | Some p \<Rightarrow> p)
             in sch\<lparr>blockStates := (if ledger < h then AList.update h newBlock (blockStates sch) else blockStates sch),
                    sch_peers := AList.delete peer (sch_peers sch),
                    pendingTime := AList.delete h (pendingTime sch),
                    pendingBlocks := AList.delete h (pendingBlocks sch)\<rparr>)
          else sch)"

text \<open>The least height whose block is new; one below the pending height is dropped, and nothing requested.\<close>

definition min_new :: "(nat \<times> blockState) list \<Rightarrow> nat" where
  "min_new m = fold (\<lambda>(height, status) min. if min > height \<and> status = newBlock then height else min) m MaxUint64"

definition nextHeightToReq :: "scheduler \<Rightarrow> nat \<times> scheduler" where
  "nextHeightToReq sch =
     (let m = min_new (blockStates sch)
      in if m = MaxUint64 \<or> m < pendingRecvHeight sch
         then (MaxUint64, sch\<lparr>blockStates := AList.delete m (blockStates sch)\<rparr>)
         else (m, sch))"

definition isNeedSync :: "nat \<Rightarrow> nat \<Rightarrow> scheduler \<Rightarrow> bool \<times> scheduler" where
  "isNeedSync now currHeight sch =
     (if stopSyncBlock sch then (False, sch)
      else
        (let sch' = (if currHeight \<ge> pendingRecvHeight sch then clearLaggingRequest currHeight sch else sch);
             m = maxHeight sch'
         in (currHeight + 1 < m \<or> currHeight + 1 = m \<and> now - lastRequest sch' > reqTimeThreshold sch', sch')))"

definition getHeight :: "nat \<Rightarrow> scheduler \<Rightarrow> string list" where
  "getHeight pendingHeight sch = map fst (filter (\<lambda>(_, height). height \<ge> pendingHeight) (sch_peers sch))"

definition getPendingReqInPeer :: "string \<Rightarrow> scheduler \<Rightarrow> nat" where
  "getPendingReqInPeer peer sch = length (filter (\<lambda>(_, p). p = peer) (pendingBlocks sch))"

text \<open>\<open>pick\<close> is the random index among the peers with the fewest requests.\<close>

definition selectPeer :: "(nat \<Rightarrow> nat) \<Rightarrow> nat \<Rightarrow> scheduler \<Rightarrow> string" where
  "selectPeer pick pendingHeight sch =
     (let peers = getHeight pendingHeight sch
      in if peers = [] then []
         else
           (let least = Min (set (map (\<lambda>p. getPendingReqInPeer p sch) peers));
                fewest = filter (\<lambda>p. getPendingReqInPeer p sch = least) peers
            in if length fewest = 1 then fewest ! 0 else fewest ! (pick (length fewest) mod length fewest)))"

record sync_req =
  req_BlockHeight :: nat
  req_BatchSize :: nat
  req_WithRwset :: bool

text \<open>The result of a handler: a message to the processor, a request to a peer, or an error.\<close>

datatype 'b sched_out = Nothing | ToProcessor "'b proc_msg" | Request string sync_req | SchedErr string

definition mark_requested :: "nat \<Rightarrow> string \<Rightarrow> nat list \<Rightarrow> scheduler \<Rightarrow> scheduler" where
  "mark_requested now peer hs sch =
     fold (\<lambda>i s. s\<lparr>blockStates := AList.update i pendingBlock (blockStates s),
                   pendingTime := AList.update i now (pendingTime s),
                   pendingBlocks := AList.update i peer (pendingBlocks s)\<rparr>) hs sch"

definition handleScheduleMsg :: "bool \<Rightarrow> (nat \<Rightarrow> nat) \<Rightarrow> nat \<Rightarrow> nat \<Rightarrow> scheduler \<Rightarrow> 'b sched_out \<times> scheduler" where
  "handleScheduleMsg fastSync pick now ledger sch =
     (let (need, sch1) = isNeedSync now ledger sch in
      if \<not> need then (Nothing, sch1)
      else
        (let (pendingHeight, sch2) = nextHeightToReq sch1 in
         if pendingHeight = MaxUint64 then (Nothing, sch2)
         else
           (let peer = selectPeer pick pendingHeight sch2 in
            if length peer = 0 then (Nothing, sch2)
            else
              (let top = (case map_of (sch_peers sch2) peer of None \<Rightarrow> 0 | Some h \<Rightarrow> h)
               in (Request peer \<lparr>req_BlockHeight = pendingHeight, req_BatchSize = BatchesizeInEachReq sch2, req_WithRwset = fastSync\<rparr>,
                   mark_requested now peer [pendingHeight..<min (top + 1) (BatchesizeInEachReq sch2 + pendingHeight)]
                     (sch2\<lparr>lastRequest := now\<rparr>))))))"

definition sch_handleStopSyncMsg :: "scheduler \<Rightarrow> scheduler" where
  "sch_handleStopSyncMsg sch =
     sch\<lparr>stopSyncBlock := True, blockStates := [], pendingTime := [], pendingBlocks := [], receivedBlocks := []\<rparr>"

definition handleStartSyncMsg :: "scheduler \<Rightarrow> scheduler" where
  "handleStartSyncMsg sch = sch\<lparr>stopSyncBlock := False\<rparr>"

definition receive_height :: "string \<Rightarrow> nat \<Rightarrow> bool \<times> scheduler \<Rightarrow> bool \<times> scheduler" where
  "receive_height sender height st =
     (let (needToProcess, sch) = st;
          sch1 = sch\<lparr>pendingBlocks := AList.delete height (pendingBlocks sch), pendingTime := AList.delete height (pendingTime sch)\<rparr>
      in case map_of (blockStates sch1) height of
           None \<Rightarrow> (needToProcess, sch1)
         | Some state \<Rightarrow>
             if state \<noteq> receivedBlock
             then (True, sch1\<lparr>blockStates := AList.update height receivedBlock (blockStates sch1),
                              receivedBlocks := AList.update height sender (receivedBlocks sch1)\<rparr>)
             else (needToProcess, sch1))"

primrec updateSchedulerBySyncBlockBatch :: "string \<Rightarrow> 'b Block list \<Rightarrow> bool \<times> scheduler \<Rightarrow> (bool \<times> scheduler) option" where
  "updateSchedulerBySyncBlockBatch sender [] st = Some st"
| "updateSchedulerBySyncBlockBatch sender (b # bs) st =
     (case blk_Header b of
        None \<Rightarrow> None
      | Some height \<Rightarrow> updateSchedulerBySyncBlockBatch sender bs (receive_height sender height st))"

text \<open>\<open>batch_blocks\<close> are the blocks of a batch; an empty list has the encoded size \<open>0\<close>, as no data has.\<close>

primrec batch_blocks :: "'b SyncBlockBatch \<Rightarrow> 'b Block list" where
  "batch_blocks NoData = []"
| "batch_blocks (BlockBatch bs) = bs"
| "batch_blocks (BlockinfoBatch infos) = map fst infos"

definition handleSyncedBlockMsg ::
    "string \<Rightarrow> ('b SyncBlockBatch \<times> bool) option \<Rightarrow> scheduler \<Rightarrow> ('b sched_out \<times> scheduler) option" where
  "handleSyncedBlockMsg sender msg sch =
     (if length (receivedBlocks sch) > maxPendingBlocks sch then Some (Nothing, sch)
      else if stopSyncBlock sch then Some (Nothing, sch)
      else
        case msg of
          None \<Rightarrow> Some (SchedErr ''unmarshal'', sch)
        | Some (batch, withRwset) \<Rightarrow>
            if batch_blocks batch = [] then Some (Nothing, sch)
            else
              (case updateSchedulerBySyncBlockBatch sender (batch_blocks batch) (False, sch) of
                 None \<Rightarrow> None
               | Some (needToProcess, sch') \<Rightarrow>
                   Some (if needToProcess then ToProcessor (ReceivedBlockInfos batch withRwset sender) else Nothing, sch')))"

definition handleProcessedBlockResp :: "nat \<Rightarrow> processedBlockStatus \<Rightarrow> string \<Rightarrow> scheduler \<Rightarrow> 'b sched_out \<times> scheduler" where
  "handleProcessedBlockResp height status sender sch =
     (let sch1 = sch\<lparr>receivedBlocks := AList.delete height (receivedBlocks sch)\<rparr>;
          sch2 = (if status = status_ok \<or> status = hasProcessed
                  then sch1\<lparr>blockStates := AList.delete height (blockStates sch1),
                            pendingRecvHeight := (if height \<ge> pendingRecvHeight sch1 then height + 1 else pendingRecvHeight sch1)\<rparr>
                  else sch1);
          renew = (\<lambda>s. s\<lparr>blockStates := AList.update height newBlock (blockStates s), sch_peers := AList.delete sender (sch_peers s)\<rparr>);
          sch3 = (if status = validateFailed then renew sch2 else sch2)
      in if status = dbErr then (SchedErr ''query db failed in processor'', sch3)
         else if status = addErr then (SchedErr ''failed add block to chain'', renew sch3)
         else (Nothing, sch3))"

text \<open>
  The handler of the scheduler at time \<open>now\<close> with the ledger at height \<open>ledger\<close>. What it offers on the channel
  for the end of the catching up is left to \<open>handleNodeStatus\<close>.
\<close>

definition sch_handler ::
    "bool \<Rightarrow> (nat \<Rightarrow> nat) \<Rightarrow> nat \<Rightarrow> nat \<Rightarrow> 'b sched_msg \<Rightarrow> scheduler \<Rightarrow> ('b sched_out \<times> scheduler) option" where
  "sch_handler fastSync pick now ledger event sch =
     (case event of
        NodeStatusMsg sender height archived \<Rightarrow> Some (Nothing, snd (handleNodeStatus now ledger sender height archived sch))
      | LivenessMsg \<Rightarrow> Some (Nothing, handleLivinessMsg now ledger sch)
      | SchedulerMsg \<Rightarrow> Some (handleScheduleMsg fastSync pick now ledger sch)
      | SyncedBlockMsg sender msg \<Rightarrow> handleSyncedBlockMsg sender msg sch
      | ProcessedBlockResp height status sender \<Rightarrow> Some (handleProcessedBlockResp height status sender sch)
      | SchedDataDetection \<Rightarrow> Some (Nothing, sch_handleDataDetection ledger sch)
      | SchedStopSyncMsg \<Rightarrow> Some (Nothing, sch_handleStopSyncMsg sch)
      | StartSyncMsg \<Rightarrow> Some (Nothing, handleStartSyncMsg sch))"

section \<open>The processor\<close>

record 'b blockWithPeerInfo =
  info_id :: string
  info_blk :: "'b Block"
  info_withRWSets :: bool
  info_rwsets :: "TxRWSet list"

record 'b processor =
  pro_queue :: "(nat \<times> 'b blockWithPeerInfo) list"
  hasCommitBlock :: nat
  maxHeightInQueue :: nat

definition newProcessor :: "'b processor" where
  "newProcessor = \<lparr>pro_queue = [], hasCommitBlock = 0, maxHeightInQueue = 0\<rparr>"

primrec enqueue_infos ::
    "nat \<Rightarrow> bool \<Rightarrow> string \<Rightarrow> ('b Block \<times> TxRWSet list) list \<Rightarrow> 'b processor \<Rightarrow> 'b processor option" where
  "enqueue_infos lastCommit withRwset sender [] pro = Some pro"
| "enqueue_infos lastCommit withRwset sender (info # infos) pro =
     (case blk_Header (fst info) of
        None \<Rightarrow> None
      | Some height \<Rightarrow>
          enqueue_infos lastCommit withRwset sender infos
            (if height \<le> lastCommit then pro
             else if map_of (pro_queue pro) height \<noteq> None then pro
             else pro\<lparr>pro_queue := AList.update height
                        \<lparr>info_id = sender, info_blk = fst info, info_withRWSets = withRwset, info_rwsets = snd info\<rparr> (pro_queue pro),
                      maxHeightInQueue := (if height > maxHeightInQueue pro then height else maxHeightInQueue pro)\<rparr>))"

definition handleReceivedBlockInfos ::
    "nat \<Rightarrow> 'b SyncBlockBatch \<Rightarrow> bool \<Rightarrow> string \<Rightarrow> 'b processor \<Rightarrow> 'b processor option" where
  "handleReceivedBlockInfos lastCommit batch withRwset sender pro =
     (case batch of
        BlockBatch bs \<Rightarrow> enqueue_infos lastCommit withRwset sender (map (\<lambda>b. (b, [])) bs) pro
      | BlockinfoBatch infos \<Rightarrow> enqueue_infos lastCommit withRwset sender infos pro
      | NoData \<Rightarrow> Some pro)"

definition pro_handleStopSyncMsg :: "'b processor \<Rightarrow> 'b processor" where
  "pro_handleStopSyncMsg pro = pro\<lparr>pro_queue := []\<rparr>"

definition pro_handleDataDetection :: "nat \<Rightarrow> 'b processor \<Rightarrow> 'b processor" where
  "pro_handleDataDetection lastCommit pro = pro\<lparr>pro_queue := filter (\<lambda>(height, _). \<not> height < lastCommit + 1) (pro_queue pro)\<rparr>"

text \<open>Verification and commitment are other parts of the node: a verdict for every ledger height and block.\<close>

datatype verdict = Accepts | HadBeenCommitted | Refuses

record 'b chain_env =
  VerifyBlock :: "nat \<Rightarrow> 'b Block \<Rightarrow> verdict"
  VerifyBlockWithRwSets :: "nat \<Rightarrow> 'b Block \<Rightarrow> TxRWSet list \<Rightarrow> verdict"
  AddBlock :: "nat \<Rightarrow> 'b Block \<Rightarrow> verdict"

text \<open>The status, and the height of the ledger afterwards.\<close>

definition validate_commit :: "nat \<Rightarrow> nat \<Rightarrow> verdict \<Rightarrow> verdict \<Rightarrow> processedBlockStatus \<times> nat" where
  "validate_commit ledger height verify add =
     (if ledger \<ge> height then (hasProcessed, ledger)
      else
        case verify of
          HadBeenCommitted \<Rightarrow> (hasProcessed, ledger)
        | Refuses \<Rightarrow> (validateFailed, ledger)
        | Accepts \<Rightarrow>
            (case add of
               HadBeenCommitted \<Rightarrow> (hasProcessed, ledger)
             | Refuses \<Rightarrow> (addErr, ledger)
             | Accepts \<Rightarrow> (status_ok, height)))"

definition validateAndCommitBlock :: "'b chain_env \<Rightarrow> nat \<Rightarrow> nat \<Rightarrow> 'b Block \<Rightarrow> processedBlockStatus \<times> nat" where
  "validateAndCommitBlock env ledger height block =
     validate_commit ledger height (VerifyBlock env ledger block) (AddBlock env ledger block)"

definition validateAndCommitBlockWithRwSets ::
    "'b chain_env \<Rightarrow> nat \<Rightarrow> nat \<Rightarrow> 'b Block \<Rightarrow> TxRWSet list \<Rightarrow> processedBlockStatus \<times> nat" where
  "validateAndCommitBlockWithRwSets env ledger height block rwsets =
     validate_commit ledger height (VerifyBlockWithRwSets env ledger block rwsets) (AddBlock env ledger block)"

text \<open>A block in the queue has a header: one without was refused with a panic.\<close>

definition handleProcessBlockMsg ::
    "bool \<Rightarrow> 'b chain_env \<Rightarrow> nat \<Rightarrow> 'b processor \<Rightarrow> (nat \<times> processedBlockStatus \<times> string) option \<times> nat \<times> 'b processor" where
  "handleProcessBlockMsg fastSync env ledger pro =
     (let pendingBlockHeight = ledger + 1 in
      case map_of (pro_queue pro) pendingBlockHeight of
        None \<Rightarrow> (None, ledger, pro)
      | Some info \<Rightarrow>
          (let height = (case blk_Header (info_blk info) of None \<Rightarrow> 0 | Some h \<Rightarrow> h);
               (status, ledger') =
                 (if info_withRWSets info \<and> fastSync
                  then validateAndCommitBlockWithRwSets env ledger height (info_blk info) (info_rwsets info)
                  else validateAndCommitBlock env ledger height (info_blk info));
               done = (if status = status_ok \<or> status = hasProcessed then hasCommitBlock pro + 1 else hasCommitBlock pro)
           in (Some (height, status, info_id info), ledger',
               pro\<lparr>pro_queue := AList.delete pendingBlockHeight (pro_queue pro), hasCommitBlock := done\<rparr>)))"

section \<open>Answering requests\<close>

text \<open>The blocks of a request that the store has, each in a message of its own; an error of the store ends it.\<close>

fun sendInfos :: "(nat \<Rightarrow> string + ('b Block \<times> TxRWSet list) option) \<Rightarrow> (nat \<Rightarrow> string + 'b Block option) \<Rightarrow> bool \<Rightarrow> nat list \<Rightarrow>
    ('b SyncBlockBatch \<times> bool) list \<times> string option" where
  "sendInfos GetBlockWithRWSets GetBlock withRwset [] = ([], None)"
| "sendInfos GetBlockWithRWSets GetBlock withRwset (h # hs) =
     (let found = (if withRwset then GetBlockWithRWSets h
                   else (case GetBlock h of Inl e \<Rightarrow> Inl e | Inr b \<Rightarrow> Inr (map_option (\<lambda>b. (b, [])) b)))
      in case found of
           Inl e \<Rightarrow> ([], Some e)
         | Inr None \<Rightarrow> sendInfos GetBlockWithRWSets GetBlock withRwset hs
         | Inr (Some info) \<Rightarrow>
             (let (rest, err) = sendInfos GetBlockWithRWSets GetBlock withRwset hs
              in ((BlockinfoBatch [info], withRwset) # rest, err)))"

text \<open>A request from the same node for the same height is answered once until its entry has expired.\<close>

definition handleBlockReq ::
    "(nat \<Rightarrow> string + ('b Block \<times> TxRWSet list) option) \<Rightarrow> (nat \<Rightarrow> string + 'b Block option) \<Rightarrow> nat \<Rightarrow> string \<Rightarrow> sync_req \<Rightarrow>
     ((string \<times> nat) \<times> nat) list \<Rightarrow> (('b SyncBlockBatch \<times> bool) list \<times> string option) \<times> ((string \<times> nat) \<times> nat) list" where
  "handleBlockReq GetBlockWithRWSets GetBlock now sender req requestCache =
     (if map_of requestCache (sender, req_BlockHeight req) \<noteq> None then (([], None), requestCache)
      else (sendInfos GetBlockWithRWSets GetBlock (req_WithRwset req) [req_BlockHeight req..<req_BlockHeight req + req_BatchSize req],
            AList.update (sender, req_BlockHeight req) now requestCache))"

definition blockRequestEntrance :: "nat \<Rightarrow> nat \<Rightarrow> ((string \<times> nat) \<times> nat) list \<Rightarrow> ((string \<times> nat) \<times> nat) list" where
  "blockRequestEntrance blockRequestTime now requestCache = filter (\<lambda>(_, t). \<not> now - t > blockRequestTime) requestCache"

end
