(* ===== verification/SyncSystem.thy ===== *)
theory SyncSystem
  imports Sync
begin

text \<open>
  The scheduler and the processor of the synchronisation together (\<^verbatim>\<open>loop\<close> in
  \<^verbatim>\<open>blockchain_sync_server.go\<close>): what one returns becomes a task of the other. The tasks are handled in any order, which
  includes the one by priority; messages of peers, timers, and blocks committed by the consensus come at any time.
\<close>

section \<open>Steps\<close>

record 'b sync_sys =
  sys_sched :: scheduler
  sys_proc :: "'b processor"
  sys_ledger :: nat
  sys_toProc :: "'b proc_msg list"
  sys_toSched :: "(nat \<times> processedBlockStatus \<times> string) list"

record 'b sync_cfg =
  cfg_fastSync :: bool
  cfg_env :: "'b chain_env"

text \<open>What happens: a message from outside to the scheduler, a task of one of the two, a timer, or a block of the consensus.\<close>

datatype 'b sync_event =
    Outside "'b sched_msg" | Answer | Task | Tick "'b proc_msg" | StopSync | Consensus

fun external :: "'b sched_msg \<Rightarrow> bool" where
  "external (ProcessedBlockResp _ _ _) = False"
| "external SchedStopSyncMsg = False"
| "external _ = True"

primrec out_tasks :: "'b sched_out \<Rightarrow> 'b proc_msg list" where
  "out_tasks Nothing = []"
| "out_tasks (ToProcessor m) = [m]"
| "out_tasks (Request _ _) = []"
| "out_tasks (SchedErr _) = []"

definition pro_handler ::
    "bool \<Rightarrow> 'b chain_env \<Rightarrow> nat \<Rightarrow> 'b proc_msg \<Rightarrow> 'b processor \<Rightarrow>
     ((nat \<times> processedBlockStatus \<times> string) option \<times> nat \<times> 'b processor) option" where
  "pro_handler fastSync env ledger event pro =
     (case event of
        ReceivedBlockInfos batch withRwset sender \<Rightarrow>
          map_option (\<lambda>pro'. (None, ledger, pro')) (handleReceivedBlockInfos ledger batch withRwset sender pro)
      | ProcessBlockMsg \<Rightarrow> Some (handleProcessBlockMsg fastSync env ledger pro)
      | ProcDataDetection \<Rightarrow> Some (None, ledger, pro_handleDataDetection ledger pro)
      | ProcStopSyncMsg \<Rightarrow> Some (None, ledger, pro_handleStopSyncMsg pro))"

inductive sync_step :: "'b sync_cfg \<Rightarrow> 'b sync_sys \<Rightarrow> 'b sync_event \<Rightarrow> 'b sync_sys \<Rightarrow> bool" for cfg where
  outside: "external m \<Longrightarrow> sch_handler (cfg_fastSync cfg) pick now (sys_ledger st) m (sys_sched st) = Some (out, sch') \<Longrightarrow>
     sync_step cfg st (Outside m) (st\<lparr>sys_sched := sch', sys_toProc := sys_toProc st @ out_tasks out\<rparr>)"
| answer: "sys_toSched st = A @ (h, status, sender) # B \<Longrightarrow>
     handleProcessedBlockResp h status sender (sys_sched st) = (out :: 'b sched_out, sch') \<Longrightarrow>
     sync_step cfg st Answer (st\<lparr>sys_sched := sch', sys_toSched := A @ B\<rparr>)"
| task: "sys_toProc st = A @ m # B \<Longrightarrow>
     pro_handler (cfg_fastSync cfg) (cfg_env cfg) (sys_ledger st) m (sys_proc st) = Some (resp, ledger', pro') \<Longrightarrow>
     sync_step cfg st Task (st\<lparr>sys_proc := pro', sys_ledger := ledger', sys_toProc := A @ B,
       sys_toSched := sys_toSched st @ (case resp of None \<Rightarrow> [] | Some r \<Rightarrow> [r])\<rparr>)"
| tick: "m = ProcessBlockMsg \<or> m = ProcDataDetection \<Longrightarrow>
     pro_handler (cfg_fastSync cfg) (cfg_env cfg) (sys_ledger st) m (sys_proc st) = Some (resp, ledger', pro') \<Longrightarrow>
     sync_step cfg st (Tick m) (st\<lparr>sys_proc := pro', sys_ledger := ledger',
       sys_toSched := sys_toSched st @ (case resp of None \<Rightarrow> [] | Some r \<Rightarrow> [r])\<rparr>)"
| stop: "sync_step cfg st StopSync (st\<lparr>sys_sched := sch_handleStopSyncMsg (sys_sched st), sys_toProc := sys_toProc st @ [ProcStopSyncMsg]\<rparr>)"
| consensus: "sync_step cfg st Consensus (st\<lparr>sys_ledger := sys_ledger st + 1\<rparr>)"

inductive sync_reach :: "'b sync_cfg \<Rightarrow> ('b sync_event \<Rightarrow> bool) \<Rightarrow> 'b sync_sys \<Rightarrow> 'b sync_sys \<Rightarrow> bool" for cfg allowed st0 where
  here: "sync_reach cfg allowed st0 st0"
| further: "sync_reach cfg allowed st0 st \<Longrightarrow> sync_step cfg st ev st' \<Longrightarrow> allowed ev \<Longrightarrow> sync_reach cfg allowed st0 st'"

lemma sync_reach_trans:
  assumes "sync_reach cfg allowed st st'" and "sync_reach cfg allowed st0 st"
  shows "sync_reach cfg allowed st0 st'"
  using assms by (induction rule: sync_reach.induct) (auto intro: sync_reach.further)

definition sync_start :: "scheduler \<Rightarrow> nat \<Rightarrow> 'b sync_sys" where
  "sync_start sch ledger = \<lparr>sys_sched = sch, sys_proc = newProcessor, sys_ledger = ledger, sys_toProc = [], sys_toSched = []\<rparr>"

section \<open>What the queue holds\<close>

definition queue_keys :: "'b processor \<Rightarrow> bool" where
  "queue_keys pro \<longleftrightarrow> distinct (map fst (pro_queue pro)) \<and> (\<forall>h info. map_of (pro_queue pro) h = Some info \<longrightarrow> blk_Header (info_blk info) = Some h)"

text \<open>The heights a task brings to the processor.\<close>

primrec task_heights :: "'b proc_msg \<Rightarrow> nat set" where
  "task_heights (ReceivedBlockInfos batch _ _) = {h. \<exists>b\<in>set (batch_blocks batch). blk_Header b = Some h}"
| "task_heights ProcessBlockMsg = {}"
| "task_heights ProcDataDetection = {}"
| "task_heights ProcStopSyncMsg = {}"

lemma enqueue_infos_ok:
  assumes "enqueue_infos l w s infos pro = Some pro'" and "queue_keys pro"
  shows "queue_keys pro' \<and> dom (map_of (pro_queue pro')) = dom (map_of (pro_queue pro)) \<union> {h. h > l \<and> (\<exists>b\<in>set infos. blk_Header (fst b) = Some h)} \<and>
    (\<forall>h info. map_of (pro_queue pro) h = Some info \<longrightarrow> map_of (pro_queue pro') h = Some info)"
  using assms
proof (induction infos arbitrary: pro)
  case (Cons i infos)
  then obtain h where h: "blk_Header (fst i) = Some h" by (auto split: option.splits)
  define pro1 where "pro1 = (if h \<le> l then pro else if map_of (pro_queue pro) h \<noteq> None then pro
     else pro\<lparr>pro_queue := AList.update h \<lparr>info_id = s, info_blk = fst i, info_withRWSets = w, info_rwsets = snd i\<rparr> (pro_queue pro),
              maxHeightInQueue := (if h > maxHeightInQueue pro then h else maxHeightInQueue pro)\<rparr>)"
  have "queue_keys pro1" "dom (map_of (pro_queue pro1)) = dom (map_of (pro_queue pro)) \<union> (if h > l then {h} else {})"
    "\<forall>h info. map_of (pro_queue pro) h = Some info \<longrightarrow> map_of (pro_queue pro1) h = Some info"
    using Cons.prems(2) h by (auto simp: pro1_def queue_keys_def update_conv' distinct_update simp del: map_of_eq_Some_iff)
  moreover have "enqueue_infos l w s infos pro1 = Some pro'"
    using Cons.prems(1) h by (simp add: pro1_def)
  ultimately show ?case using Cons.IH [of pro1] h by auto
qed simp

lemma received_infos_ok:
  assumes "handleReceivedBlockInfos l batch w s pro = Some pro'" and "queue_keys pro"
  shows "queue_keys pro' \<and> dom (map_of (pro_queue pro')) = dom (map_of (pro_queue pro)) \<union> {h. h > l \<and> h \<in> task_heights (ReceivedBlockInfos batch w s)}"
  using assms enqueue_infos_ok [of l w s _ pro pro']
  by (cases batch) (auto simp: handleReceivedBlockInfos_def)

lemma enqueue_total: "(\<forall>i\<in>set infos. blk_Header (fst i) \<noteq> None) \<Longrightarrow> enqueue_infos l w s infos pro \<noteq> None"
  by (induction infos arbitrary: pro) auto

lemma received_total:
  "(\<forall>b\<in>set (batch_blocks batch). blk_Header b \<noteq> None) \<Longrightarrow> handleReceivedBlockInfos l batch w s pro \<noteq> None"
  using enqueue_total [of "map (\<lambda>b. (b, [])) (batch_blocks batch)" l w s pro] enqueue_total [of _ l w s pro]
  by (cases batch) (auto simp: handleReceivedBlockInfos_def simp del: not_None_eq)

lemma process_block_ok:
  assumes "handleProcessBlockMsg fs env l pro = (resp, l', pro')" and "queue_keys pro"
  shows "queue_keys pro'" and "dom (map_of (pro_queue pro')) = dom (map_of (pro_queue pro)) - {l + 1}"
    and "case resp of None \<Rightarrow> l' = l \<and> map_of (pro_queue pro) (l + 1) = None
         | Some (h, status, _) \<Rightarrow> h = l + 1 \<and> map_of (pro_queue pro) h \<noteq> None \<and>
             (status = status_ok \<and> l' = h \<or> l' = l \<and> status \<in> {hasProcessed, validateFailed, addErr})"
  using assms
  by (auto simp: handleProcessBlockMsg_def validateAndCommitBlock_def validateAndCommitBlockWithRwSets_def validate_commit_def
      queue_keys_def Let_def delete_conv' distinct_delete dom_def restrict_map_def split: option.splits if_splits verdict.splits)

section \<open>Nothing is lost\<close>

lemma map_of_filter_key: "map_of (filter (\<lambda>(k, _). P k) xs) k = (if P k then map_of xs k else None)"
  by (induction xs) auto

lemma distinct_filter_key: "distinct (map fst xs) \<Longrightarrow> distinct (map fst (filter P xs))"
  by (induction xs) auto

lemma mark_new_distinct: "distinct (map fst m) \<Longrightarrow> distinct (map fst (mark_new maxNum hs m))"
  by (induction maxNum hs m rule: mark_new.induct) (simp_all add: distinct_update)

lemma mark_new_states:
  "map_of (mark_new maxNum hs m) h = map_of m h \<or>
   map_of (mark_new maxNum hs m) h = Some newBlock \<and> map_of m h = None \<and> h \<in> set hs"
proof (induction maxNum hs m rule: mark_new.induct)
  case (2 maxNum i hs m)
  show ?case
  proof (cases "map_of m i = None \<and> \<not> length m > maxNum")
    case True
    then show ?thesis using 2(2) by (auto simp: update_conv' split: if_splits)
  next
    case False
    then show ?thesis using 2(1) by auto
  qed
qed simp

lemma mark_requested_fields [simp]:
  "sch_peers (mark_requested now p hs sch) = sch_peers sch" "receivedBlocks (mark_requested now p hs sch) = receivedBlocks sch"
  "pendingRecvHeight (mark_requested now p hs sch) = pendingRecvHeight sch" "maxPendingBlocks (mark_requested now p hs sch) = maxPendingBlocks sch"
  "BatchesizeInEachReq (mark_requested now p hs sch) = BatchesizeInEachReq sch" "stopSyncBlock (mark_requested now p hs sch) = stopSyncBlock sch"
  by (induction hs arbitrary: sch) (simp_all add: mark_requested_def)

lemma mark_requested_states:
  "map_of (blockStates (mark_requested now p hs sch)) h = (if h \<in> set hs then Some pendingBlock else map_of (blockStates sch) h)"
  "map_of (pendingTime (mark_requested now p hs sch)) h = (if h \<in> set hs then Some now else map_of (pendingTime sch) h)"
  "distinct (map fst (blockStates sch)) \<Longrightarrow> distinct (map fst (blockStates (mark_requested now p hs sch)))"
  by (induction hs arbitrary: sch) (simp_all add: mark_requested_def update_conv' distinct_update)

lemma clearLagging_states:
  "map_of (blockStates (clearLaggingRequest l sch)) h =
     (if h < l then None else if h = l + 1 \<and> map_of (blockStates sch) h = None then Some newBlock else map_of (blockStates sch) h)"
  by (auto simp: clearLaggingRequest_def Let_def map_of_filter_key update_conv')

lemma receive_height_states:
  "map_of (blockStates (snd (receive_height sender h st))) k =
     (if k = h \<and> map_of (blockStates (snd st)) h \<noteq> None then Some receivedBlock else map_of (blockStates (snd st)) k)"
  "fst (receive_height sender h st) \<longleftrightarrow> fst st \<or> map_of (blockStates (snd st)) h \<notin> {None, Some receivedBlock}"
  by (cases "map_of (blockStates (snd st)) h"; simp add: receive_height_def split_beta Let_def update_conv')+

lemma update_states:
  assumes "updateSchedulerBySyncBlockBatch sender bs st = Some st'"
  shows "map_of (blockStates (snd st')) h = Some receivedBlock \<longrightarrow>
      map_of (blockStates (snd st)) h = Some receivedBlock \<or> fst st' \<and> (\<exists>b\<in>set bs. blk_Header b = Some h)"
    and "fst st \<longrightarrow> fst st'"
proof -
  have "(fst st \<longrightarrow> fst st') \<and> (map_of (blockStates (snd st')) h = Some receivedBlock \<longrightarrow>
      map_of (blockStates (snd st)) h = Some receivedBlock \<or> fst st' \<and> (\<exists>b\<in>set bs. blk_Header b = Some h))"
    using assms
  proof (induction bs arbitrary: st)
    case (Cons b bs)
    then obtain k where k: "blk_Header b = Some k" by (auto split: option.splits)
    have "updateSchedulerBySyncBlockBatch sender bs (receive_height sender k st) = Some st'"
      using Cons.prems k by simp
    from Cons.IH [OF this] show ?case
      using k unfolding receive_height_states by (auto split: if_splits)
  qed simp
  then show "map_of (blockStates (snd st')) h = Some receivedBlock \<longrightarrow>
      map_of (blockStates (snd st)) h = Some receivedBlock \<or> fst st' \<and> (\<exists>b\<in>set bs. blk_Header b = Some h)" "fst st \<longrightarrow> fst st'"
    by blast+
qed

definition held :: "'b sync_sys \<Rightarrow> nat \<Rightarrow> bool" where
  "held st h \<longleftrightarrow> map_of (pro_queue (sys_proc st)) h \<noteq> None \<or> (\<exists>m\<in>set (sys_toProc st). h \<in> task_heights m) \<or>
     (\<exists>status\<in>{validateFailed, addErr}. \<exists>sender. (h, status, sender) \<in> set (sys_toSched st))"

text \<open>A handler other than that of received blocks marks no height as received.\<close>

definition no_receipt :: "scheduler \<Rightarrow> scheduler \<Rightarrow> bool" where
  "no_receipt sch sch' \<longleftrightarrow>
     (\<forall>h. map_of (blockStates sch') h = Some receivedBlock \<longrightarrow> map_of (blockStates sch) h = Some receivedBlock)"

lemma no_receipt_refl [simp]: "no_receipt sch sch"
  by (simp add: no_receipt_def)

lemma no_receipt_peers [simp]: "no_receipt sch (sch\<lparr>sch_peers := p\<rparr>)"
  by (simp add: no_receipt_def)

lemma no_receipt_trans: "no_receipt a b \<Longrightarrow> no_receipt b c \<Longrightarrow> no_receipt a c"
  by (simp add: no_receipt_def)

lemma no_receipt_clear: "no_receipt sch (clearLaggingRequest l sch)"
  by (simp add: no_receipt_def clearLagging_states)

lemma no_receipt_node_status: "no_receipt sch (snd (handleNodeStatus now l sender height archived sch))"
proof -
  have new: "map_of (mark_new n hs m) h = Some receivedBlock \<Longrightarrow> map_of m h = Some receivedBlock" for n hs m h
    using mark_new_states [of n hs m h] by auto
  have "no_receipt sch (addPendingBlocksAndUpdatePendingHeight l height (sch\<lparr>sch_peers := p\<rparr>))" for p
    unfolding no_receipt_def addPendingBlocksAndUpdatePendingHeight_def by (auto dest: new)
  then show ?thesis by (simp add: handleNodeStatus_def Let_def)
qed

lemma no_receipt_need: "isNeedSync now l sch = (need, sch') \<Longrightarrow> no_receipt sch sch'"
  using no_receipt_clear by (auto simp: isNeedSync_def Let_def split: if_splits)

lemma no_receipt_next: "nextHeightToReq sch = (ph, sch') \<Longrightarrow> no_receipt sch sch'"
  by (auto simp: nextHeightToReq_def Let_def no_receipt_def delete_conv' split: if_splits)

lemma no_receipt_requested: "no_receipt sch (mark_requested now p hs sch)"
  by (simp add: no_receipt_def mark_requested_states)

lemma no_receipt_schedule:
  assumes "handleScheduleMsg fs pick now l sch = (out, sch')"
  shows "no_receipt sch sch'"
proof -
  obtain need sch1 where n: "isNeedSync now l sch = (need, sch1)" by force
  obtain ph sch2 where p: "nextHeightToReq sch1 = (ph, sch2)" by force
  have "no_receipt sch sch1" "no_receipt sch1 sch2"
    using n p no_receipt_need no_receipt_next by blast+
  moreover have "no_receipt sch2 (mark_requested now q hs (sch2\<lparr>lastRequest := now\<rparr>))" for q hs
    using no_receipt_requested [of "sch2\<lparr>lastRequest := now\<rparr>"] by (simp add: no_receipt_def)
  ultimately show ?thesis
    using assms n p by (auto simp: handleScheduleMsg_def Let_def intro: no_receipt_trans split: if_splits)
qed

lemma sch_handler_received:
  assumes "sch_handler fs pick now l m sch = Some (out, sch')" and "external m"
    and "map_of (blockStates sch') h = Some receivedBlock"
  shows "map_of (blockStates sch) h = Some receivedBlock \<or> (\<exists>t\<in>set (out_tasks out). h \<in> task_heights t)"
proof (cases m)
  case (SyncedBlockMsg sender msg)
  then have syn: "handleSyncedBlockMsg sender msg sch = Some (out, sch')" using assms(1) by (simp add: sch_handler_def)
  show ?thesis
  proof (cases "sch' = sch")
    case False
    then obtain batch w f' where b: "msg = Some (batch, w)"
        "updateSchedulerBySyncBlockBatch sender (batch_blocks batch) (False, sch) = Some (f', sch')"
        "out = (if f' then ToProcessor (ReceivedBlockInfos batch w sender) else Nothing)"
      using syn by (auto simp: handleSyncedBlockMsg_def split: if_splits option.splits)
    show ?thesis using update_states(1) [OF b(2), of h] assms(3) b(3) by auto
  qed (use assms(3) in simp)
next
  case (NodeStatusMsg a b c)
  then show ?thesis using assms no_receipt_node_status [of sch now l a b c] by (simp add: sch_handler_def no_receipt_def)
next
  case LivenessMsg
  then show ?thesis using assms
    by (auto simp: sch_handler_def handleLivinessMsg_def Let_def update_conv' split: option.splits if_splits)
next
  case SchedulerMsg
  then show ?thesis using assms no_receipt_schedule [of fs pick now l sch out sch'] by (simp add: sch_handler_def no_receipt_def)
next
  case SchedDataDetection
  then show ?thesis using assms no_receipt_clear [of sch l] by (auto simp: sch_handler_def sch_handleDataDetection_def no_receipt_def)
next
  case StartSyncMsg
  then show ?thesis using assms by (auto simp: sch_handler_def handleStartSyncMsg_def)
qed (use assms in simp_all)

lemma update_headers: "updateSchedulerBySyncBlockBatch sender bs st = Some st' \<Longrightarrow> \<forall>b\<in>set bs. blk_Header b \<noteq> None"
  by (induction bs arbitrary: st) (auto split: option.splits)

text \<open>The tasks of the processor are blocks with headers.\<close>

definition task_ok :: "'b proc_msg \<Rightarrow> bool" where
  "task_ok t \<longleftrightarrow> (\<exists>batch w sender. t = ReceivedBlockInfos batch w sender \<and> (\<forall>b\<in>set (batch_blocks batch). blk_Header b \<noteq> None))"

lemma sch_handler_tasks:
  assumes "sch_handler fs pick now l m sch = Some (out, sch')" and "external m"
  shows "\<forall>t\<in>set (out_tasks out). task_ok t"
  using assms update_headers
  by (cases m) (fastforce simp: sch_handler_def handleScheduleMsg_def handleSyncedBlockMsg_def task_ok_def Let_def
      split: if_splits option.splits prod.splits)+

section \<open>The invariant\<close>

definition kept_inv :: "'b sync_sys \<Rightarrow> bool" where
  "kept_inv st \<longleftrightarrow> queue_keys (sys_proc st) \<and> (\<forall>t\<in>set (sys_toProc st). task_ok t) \<and>
     (\<forall>(h, status, _)\<in>set (sys_toSched st). h \<le> sys_ledger st + 1 \<and> (h \<le> sys_ledger st \<or> status \<in> {validateFailed, addErr})) \<and>
     (\<forall>h>sys_ledger st. map_of (blockStates (sys_sched st)) h = Some receivedBlock \<longrightarrow> held st h)"

text \<open>A verdict that a block has been committed is only given for one the ledger has.\<close>

definition verdicts_ok :: "'b chain_env \<Rightarrow> bool" where
  "verdicts_ok env \<longleftrightarrow> (\<forall>l b rws h. blk_Header b = Some h \<longrightarrow> h > l \<longrightarrow>
     VerifyBlock env l b \<noteq> HadBeenCommitted \<and> VerifyBlockWithRwSets env l b rws \<noteq> HadBeenCommitted \<and> AddBlock env l b \<noteq> HadBeenCommitted)"

lemma process_block_resp:
  assumes "handleProcessBlockMsg fs env l pro = (resp, l', pro')" and "queue_keys pro" and "verdicts_ok env"
  shows "case resp of None \<Rightarrow> l' = l \<and> map_of (pro_queue pro) (l + 1) = None
         | Some (h, status, _) \<Rightarrow> h = l + 1 \<and> (status = status_ok \<and> l' = h \<or> l' = l \<and> status \<in> {validateFailed, addErr})"
proof (cases resp)
  case None
  then show ?thesis using process_block_ok(3) [OF assms(1,2)] by simp
next
  case (Some r)
  obtain h status sender where r: "r = (h, status, sender)" by (metis surj_pair)
  have "status \<noteq> hasProcessed"
    using assms Some r
    by (auto simp: handleProcessBlockMsg_def validateAndCommitBlock_def validateAndCommitBlockWithRwSets_def validate_commit_def
        queue_keys_def verdicts_ok_def Let_def simp del: map_of_eq_Some_iff split: option.splits if_splits verdict.splits prod.splits)
  then show ?thesis using process_block_ok(3) [OF assms(1,2)] Some r by auto
qed

lemma pro_handler_kept:
  assumes "pro_handler fs env l m pro = Some (resp, l', pro')" and "queue_keys pro" and "verdicts_ok env" and "m \<noteq> ProcStopSyncMsg"
  shows "queue_keys pro'" and "l \<le> l'"
    and "case resp of None \<Rightarrow> l' = l | Some (h, status, _) \<Rightarrow> h = l + 1 \<and> (status = status_ok \<and> l' = h \<or> l' = l \<and> status \<in> {validateFailed, addErr})"
    and "h > l' \<Longrightarrow> map_of (pro_queue pro) h \<noteq> None \<or> h \<in> task_heights m \<Longrightarrow>
      map_of (pro_queue pro') h \<noteq> None \<or> (\<exists>status\<in>{validateFailed, addErr}. \<exists>sender. resp = Some (h, status, sender))"
proof -
  have "queue_keys pro' \<and> l \<le> l' \<and>
    (case resp of None \<Rightarrow> l' = l | Some (h, status, _) \<Rightarrow> h = l + 1 \<and> (status = status_ok \<and> l' = h \<or> l' = l \<and> status \<in> {validateFailed, addErr})) \<and>
    (\<forall>h>l'. map_of (pro_queue pro) h \<noteq> None \<or> h \<in> task_heights m \<longrightarrow>
      map_of (pro_queue pro') h \<noteq> None \<or> (\<exists>status\<in>{validateFailed, addErr}. \<exists>sender. resp = Some (h, status, sender)))"
  proof (cases m)
    case (ReceivedBlockInfos batch w sender)
    then have r: "handleReceivedBlockInfos l batch w sender pro = Some pro'" "resp = None" "l' = l"
      using assms(1) by (auto simp: pro_handler_def)
    note rec = received_infos_ok [OF r(1) assms(2)]
    then have "map_of (pro_queue pro') h \<noteq> None \<longleftrightarrow> map_of (pro_queue pro) h \<noteq> None \<or> h > l \<and> h \<in> task_heights m" for h
      using ReceivedBlockInfos by (auto simp: dom_def set_eq_iff)
    then show ?thesis using rec r by simp
  next
    case ProcessBlockMsg
    then have p: "handleProcessBlockMsg fs env l pro = (resp, l', pro')" using assms(1) by (simp add: pro_handler_def)
    note ok = process_block_ok(1,2) [OF p assms(2)] process_block_resp [OF p assms(2,3)]
    have "map_of (pro_queue pro') h \<noteq> None \<longleftrightarrow> map_of (pro_queue pro) h \<noteq> None \<and> h \<noteq> l + 1" for h
      using ok(2) by (auto simp: dom_def set_eq_iff)
    then show ?thesis using ok(1,3) ProcessBlockMsg by (cases resp) auto
  next
    case ProcDataDetection
    then have p: "pro' = pro_handleDataDetection l pro" "resp = None" "l' = l" using assms(1) by (auto simp: pro_handler_def)
    then show ?thesis using assms(2) ProcDataDetection
      by (auto simp: pro_handleDataDetection_def queue_keys_def map_of_filter_key distinct_filter_key
          simp del: map_of_eq_Some_iff split: if_splits)
  qed (use assms(4) in simp)
  then show "queue_keys pro'" "l \<le> l'"
    "case resp of None \<Rightarrow> l' = l | Some (h, status, _) \<Rightarrow> h = l + 1 \<and> (status = status_ok \<and> l' = h \<or> l' = l \<and> status \<in> {validateFailed, addErr})"
    "h > l' \<Longrightarrow> map_of (pro_queue pro) h \<noteq> None \<or> h \<in> task_heights m \<Longrightarrow>
      map_of (pro_queue pro') h \<noteq> None \<or> (\<exists>status\<in>{validateFailed, addErr}. \<exists>sender. resp = Some (h, status, sender))"
    by blast+
qed

lemma answer_states:
  assumes "handleProcessedBlockResp h status sender sch = (out, sch')"
  shows "map_of (blockStates sch') k =
    (if k \<noteq> h then map_of (blockStates sch) k
     else if status \<in> {status_ok, hasProcessed} then None
     else if status \<in> {validateFailed, addErr} then Some newBlock else map_of (blockStates sch) k)"
  using assms by (auto simp: handleProcessedBlockResp_def Let_def delete_conv' update_conv' split: if_splits)

lemma kept_inv_proc:
  assumes inv: "kept_inv st" and "verdicts_ok (cfg_env cfg)"
    and h: "pro_handler (cfg_fastSync cfg) (cfg_env cfg) (sys_ledger st) m (sys_proc st) = Some (resp, l', pro')"
    and "m \<noteq> ProcStopSyncMsg" and sub: "set T \<subseteq> set (sys_toProc st)" and cover: "set (sys_toProc st) \<subseteq> insert m (set T)"
  shows "kept_inv (st\<lparr>sys_proc := pro', sys_ledger := l', sys_toProc := T,
       sys_toSched := sys_toSched st @ (case resp of None \<Rightarrow> [] | Some r \<Rightarrow> [r])\<rparr>)" (is "kept_inv ?st")
proof -
  have keys: "queue_keys (sys_proc st)" using inv by (simp add: kept_inv_def)
  note pro = pro_handler_kept [OF h keys assms(2,4)]
  have "held ?st k" if k: "k > l'" "map_of (blockStates (sys_sched st)) k = Some receivedBlock" for k
  proof -
    have "held st k" using inv k pro(2) by (auto simp: kept_inv_def)
    then consider "map_of (pro_queue (sys_proc st)) k \<noteq> None \<or> k \<in> task_heights m" | "\<exists>m\<in>set T. k \<in> task_heights m"
      | "\<exists>status\<in>{validateFailed, addErr}. \<exists>sender. (k, status, sender) \<in> set (sys_toSched st)"
      using cover unfolding held_def by blast
    then show ?thesis
    proof cases
      case 1
      then show ?thesis using pro(4) [OF k(1)] by (fastforce simp: held_def)
    qed (auto simp: held_def)
  qed
  moreover have "\<forall>(h, status, _)\<in>set (sys_toSched ?st). h \<le> l' + 1 \<and> (h \<le> l' \<or> status \<in> {validateFailed, addErr})"
    using inv pro(2,3) by (fastforce simp: kept_inv_def split: option.splits)
  ultimately show ?thesis
    using inv pro(1) sub by (auto simp: kept_inv_def)
qed

lemma kept_inv_step:
  assumes "sync_step cfg st ev st'" and inv: "kept_inv st" and env: "verdicts_ok (cfg_env cfg)" and "ev \<noteq> StopSync"
  shows "kept_inv st'"
  using assms(1)
proof cases
  case (outside m pick now out sch')
  have "held st' h" if "h > sys_ledger st" "map_of (blockStates sch') h = Some receivedBlock" for h
    using sch_handler_received [OF outside(4,3) that(2)] inv that(1) outside(2) by (fastforce simp: kept_inv_def held_def)
  moreover have "\<forall>t\<in>set (out_tasks out). task_ok t"
    using sch_handler_tasks [OF outside(4,3)] by blast
  ultimately show ?thesis using inv outside(2) by (auto simp: kept_inv_def)
next
  case (answer A h status sender B out sch')
  have mem: "set (sys_toSched st) = insert (h, status, sender) (set (A @ B))" using answer(3) by auto
  have bound: "h \<le> sys_ledger st \<or> status \<in> {validateFailed, addErr}" using inv mem by (auto simp: kept_inv_def)
  have "held st' k" if k: "k > sys_ledger st" "map_of (blockStates sch') k = Some receivedBlock" for k
  proof -
    have "k \<noteq> h" using k bound answer_states [OF answer(4), of k] by auto
    then have "map_of (blockStates (sys_sched st)) k = Some receivedBlock" using k answer_states [OF answer(4), of k] by simp
    then have "held st k" using inv k by (simp add: kept_inv_def)
    then show ?thesis using mem \<open>k \<noteq> h\<close> answer(2) by (auto simp: held_def)
  qed
  moreover have "set (A @ B) \<subseteq> set (sys_toSched st)" using mem by blast
  ultimately show ?thesis using inv answer(2) by (fastforce simp: kept_inv_def)
next
  case (task A m B resp l' pro')
  have "m \<noteq> ProcStopSyncMsg" using inv task(3) by (auto simp: kept_inv_def task_ok_def)
  then show ?thesis using kept_inv_proc [OF inv env task(4), of "A @ B"] task(2,3) by auto
next
  case (tick m resp l' pro')
  then show ?thesis using kept_inv_proc [OF inv env tick(4), of "sys_toProc st"] by auto
next
  case stop
  then show ?thesis using assms(4) by simp
next
  case consensus
  then show ?thesis using inv by (fastforce simp: kept_inv_def held_def)
qed

lemma kept_inv_reach:
  assumes "sync_reach cfg allowed st0 st" and "kept_inv st0" and "verdicts_ok (cfg_env cfg)" and "\<And>ev. allowed ev \<Longrightarrow> ev \<noteq> StopSync"
  shows "kept_inv st"
  using assms(1) by induction (auto intro: assms(2) kept_inv_step [OF _ _ assms(3)] dest: assms(4))

lemma kept_inv_start: "kept_inv (sync_start (newScheduler a b c d e f g i j) l)"
  by (simp add: kept_inv_def sync_start_def newProcessor_def newScheduler_def queue_keys_def)

end
