(* ===== verification/SyncProgress.thy ===== *)
theory SyncProgress
  imports SyncSystem
begin

text \<open>
  Why the synchronisation does not get stuck with the default of one block per request, and how it does
  with larger batches: a node that has received more blocks than it may hold drops every further answer.
\<close>

section \<open>The scheduler's tables\<close>

definition sched_inv :: "nat \<Rightarrow> scheduler \<Rightarrow> bool" where
  "sched_inv l sch \<longleftrightarrow>
     distinct (map fst (blockStates sch)) \<and> distinct (map fst (receivedBlocks sch)) \<and>
     pendingRecvHeight sch \<le> l + 1 \<and> maxPendingBlocks sch \<ge> 1 \<and> BatchesizeInEachReq sch = 1 \<and>
     (\<forall>h. map_of (blockStates sch) h \<noteq> None \<longrightarrow> h \<le> l + maxPendingBlocks sch) \<and>
     (\<forall>h. map_of (receivedBlocks sch) h \<noteq> None \<longrightarrow> map_of (blockStates sch) h = Some receivedBlock) \<and>
     (\<forall>h. map_of (pendingTime sch) h \<noteq> None \<longrightarrow> map_of (blockStates sch) h \<noteq> Some receivedBlock)"

lemma sched_inv_mono: "sched_inv l sch \<Longrightarrow> l \<le> l' \<Longrightarrow> sched_inv l' sch"
  by (fastforce simp: sched_inv_def)

lemma clearLagging_fields:
  "map_of (receivedBlocks (clearLaggingRequest l sch)) h =
     (if h < l \<and> map_of (blockStates sch) h \<noteq> None then None else map_of (receivedBlocks sch) h)"
  "map_of (pendingTime (clearLaggingRequest l sch)) h =
     (if h < l \<and> map_of (blockStates sch) h \<noteq> None then None else map_of (pendingTime sch) h)"
  "pendingRecvHeight (clearLaggingRequest l sch) = l + 1" "maxPendingBlocks (clearLaggingRequest l sch) = maxPendingBlocks sch"
  "BatchesizeInEachReq (clearLaggingRequest l sch) = BatchesizeInEachReq sch" "stopSyncBlock (clearLaggingRequest l sch) = stopSyncBlock sch"
  "distinct (map fst (blockStates sch)) \<Longrightarrow> distinct (map fst (blockStates (clearLaggingRequest l sch)))"
  "distinct (map fst (receivedBlocks sch)) \<Longrightarrow> distinct (map fst (receivedBlocks (clearLaggingRequest l sch)))"
  by (simp_all add: clearLaggingRequest_def Let_def map_of_filter_key distinct_filter_key distinct_update)

lemma sched_inv_clear: "sched_inv l sch \<Longrightarrow> sched_inv l (clearLaggingRequest l sch)"
  unfolding sched_inv_def clearLagging_fields clearLagging_states
  by (auto simp: clearLagging_fields simp del: map_of_eq_Some_iff)

lemma sched_inv_peers: "sched_inv l (sch\<lparr>sch_peers := p\<rparr>) = sched_inv l sch" "sched_inv l (sch\<lparr>lastRequest := t\<rparr>) = sched_inv l sch"
  "sched_inv l (sch\<lparr>stopSyncBlock := b\<rparr>) = sched_inv l sch"
  by (simp_all add: sched_inv_def)

lemma sched_inv_more:
  assumes inv: "sched_inv l sch" and "distinct (map fst m)"
    and more: "\<And>h. map_of m h = map_of (blockStates sch) h \<or>
      map_of m h = Some newBlock \<and> map_of (blockStates sch) h = None \<and> h \<le> l + maxPendingBlocks sch"
  shows "sched_inv l (sch\<lparr>blockStates := m\<rparr>)"
proof -
  have "map_of m h \<noteq> None \<longrightarrow> h \<le> l + maxPendingBlocks sch" "map_of (receivedBlocks sch) h \<noteq> None \<longrightarrow> map_of m h = Some receivedBlock"
    "map_of (pendingTime sch) h \<noteq> None \<longrightarrow> map_of m h \<noteq> Some receivedBlock" for h
    using more [of h] inv by (auto simp: sched_inv_def simp del: map_of_eq_Some_iff)
  then show ?thesis using assms(1,2) by (simp add: sched_inv_def del: map_of_eq_Some_iff)
qed

lemma sched_inv_pending:
  assumes "sched_inv l sch"
  shows "sched_inv l (addPendingBlocksAndUpdatePendingHeight l height sch)"
proof -
  let ?hs = "[pendingRecvHeight sch..<min (height + 1) (pendingRecvHeight sch + maxPendingBlocks sch)]"
  let ?m = "mark_new (maxPendingBlocks sch) ?hs (blockStates sch)"
  have "map_of ?m h = map_of (blockStates sch) h \<or> map_of ?m h = Some newBlock \<and> map_of (blockStates sch) h = None \<and> h \<le> l + maxPendingBlocks sch" for h
    using mark_new_states [of "maxPendingBlocks sch" ?hs "blockStates sch" h] assms by (auto simp: sched_inv_def)
  moreover have "distinct (map fst ?m)" using assms by (simp add: sched_inv_def mark_new_distinct)
  ultimately have "sched_inv l (sch\<lparr>blockStates := ?m\<rparr>)"
    using assms by (intro sched_inv_more)
  then show ?thesis using assms by (simp add: addPendingBlocksAndUpdatePendingHeight_def)
qed

lemma sched_inv_node_status: "sched_inv l sch \<Longrightarrow> sched_inv l (snd (handleNodeStatus now l sender height archived sch))"
  using sched_inv_pending [of l "sch\<lparr>sch_peers := _\<rparr>"]
  by (simp add: handleNodeStatus_def Let_def sched_inv_peers)

lemma sched_inv_liveness: "sched_inv l sch \<Longrightarrow> sched_inv l (handleLivinessMsg now l sch)"
  unfolding handleLivinessMsg_def Let_def sched_inv_def
  by (auto simp: update_conv' delete_conv' distinct_update restrict_map_def simp del: map_of_eq_Some_iff split: option.splits if_splits)

lemma min_new_state:
  assumes "distinct (map fst m)"
  shows "min_new m = MaxUint64 \<or> map_of m (min_new m) = Some newBlock"
proof -
  have "fold (\<lambda>(height, status) min. if min > height \<and> status = newBlock then height else min) xs a = a \<or>
      (fold (\<lambda>(height, status) min. if min > height \<and> status = newBlock then height else min) xs a, newBlock) \<in> set xs" for xs a
    by (induction xs rule: rev_induct) (auto split: if_splits)
  from this [of m MaxUint64] show ?thesis using assms by (auto simp: min_new_def)
qed

lemma sched_inv_next:
  assumes "nextHeightToReq sch = (ph, sch')" and "sched_inv l sch" and "l + maxPendingBlocks sch < MaxUint64"
  shows "sched_inv l sch'" and "maxPendingBlocks sch' = maxPendingBlocks sch"
    and "ph \<noteq> MaxUint64 \<Longrightarrow> map_of (blockStates sch') ph = Some newBlock"
proof -
  have m: "map_of (blockStates sch) (min_new (blockStates sch)) \<noteq> Some receivedBlock"
    using min_new_state [of "blockStates sch"] assms(2,3) by (auto simp: sched_inv_def simp del: map_of_eq_Some_iff)
  then show "sched_inv l sch'"
    using assms(1,2) unfolding nextHeightToReq_def Let_def sched_inv_def
    by (auto simp: delete_conv' distinct_delete simp del: map_of_eq_Some_iff split: if_splits)
  show "maxPendingBlocks sch' = maxPendingBlocks sch" "ph \<noteq> MaxUint64 \<Longrightarrow> map_of (blockStates sch') ph = Some newBlock"
    using assms(1,2) min_new_state [of "blockStates sch"]
    by (auto simp: nextHeightToReq_def Let_def sched_inv_def simp del: map_of_eq_Some_iff split: if_splits)
qed

lemma sched_inv_requested:
  assumes "sched_inv l sch" and "set hs \<subseteq> {ph}" and "map_of (blockStates sch) ph = Some newBlock"
  shows "sched_inv l (mark_requested now p hs sch)"
proof -
  have "map_of (receivedBlocks sch) ph = None" using assms(1,3) by (auto simp: sched_inv_def simp del: map_of_eq_Some_iff)
  moreover have "h \<in> set hs \<Longrightarrow> h = ph" for h using assms(2) by blast
  ultimately show ?thesis
    using assms(1,3) unfolding sched_inv_def mark_requested_fields mark_requested_states
    by (auto simp: mark_requested_states simp del: map_of_eq_Some_iff)
qed

lemma sched_inv_need:
  assumes "isNeedSync now l sch = (need, sch')" and "sched_inv l sch"
  shows "sched_inv l sch'" and "maxPendingBlocks sch' = maxPendingBlocks sch"
  using assms sched_inv_clear by (auto simp: isNeedSync_def Let_def clearLagging_fields split: if_splits)

lemma sched_inv_schedule:
  assumes "handleScheduleMsg fs pick now l sch = (out, sch')" and "sched_inv l sch" and "l + maxPendingBlocks sch < MaxUint64"
  shows "sched_inv l sch'"
proof -
  obtain need sch1 where n: "isNeedSync now l sch = (need, sch1)" by force
  obtain ph sch2 where p: "nextHeightToReq sch1 = (ph, sch2)" by force
  note inv1 = sched_inv_need [OF n assms(2)]
  have "l + maxPendingBlocks sch1 < MaxUint64" using assms(3) inv1(2) by simp
  note inv2 = sched_inv_next [OF p inv1(1) this]
  have one: "BatchesizeInEachReq sch2 = 1" using inv2(1) by (simp add: sched_inv_def)
  have "sched_inv l (mark_requested now q [ph..<min t (BatchesizeInEachReq sch2 + ph)] (sch2\<lparr>lastRequest := now\<rparr>))" if "ph \<noteq> MaxUint64" for q t
    using inv2 that one by (intro sched_inv_requested [of _ _ _ ph]) (auto simp: sched_inv_peers)
  then show ?thesis
    using assms(1) n p inv1 inv2 by (auto simp: handleScheduleMsg_def Let_def split: if_splits)
qed

lemma receive_height_inv:
  assumes "sched_inv l (snd st)"
  shows "sched_inv l (snd (receive_height sender h st))"
  using assms unfolding sched_inv_def receive_height_def
  by (cases st; cases "map_of (blockStates (snd st)) h")
    (auto simp: Let_def update_conv' delete_conv' distinct_update restrict_map_def simp del: map_of_eq_Some_iff split: if_splits)

lemma sched_inv_update:
  assumes "updateSchedulerBySyncBlockBatch sender bs st = Some st'" and "sched_inv l (snd st)"
  shows "sched_inv l (snd st')"
  using assms
proof (induction bs arbitrary: st)
  case (Cons b bs)
  then show ?case using receive_height_inv [OF Cons.prems(2)] by (auto split: option.splits)
qed simp

lemma sched_inv_handler:
  assumes "sch_handler fs pick now l m sch = Some (out, sch')" and "external m" and "sched_inv l sch" and "l + maxPendingBlocks sch < MaxUint64"
  shows "sched_inv l sch'"
proof (cases m)
  case (SyncedBlockMsg sender msg)
  then show ?thesis
    using assms(1,3) sched_inv_update [of sender _ "(False, sch)"]
    by (fastforce simp: sch_handler_def handleSyncedBlockMsg_def split: if_splits option.splits prod.splits)
next
  case (NodeStatusMsg a b c)
  then show ?thesis using assms(1,3) sched_inv_node_status [of l sch now a b c] by (simp add: sch_handler_def)
next
  case LivenessMsg
  then show ?thesis using assms(1,3) sched_inv_liveness [of l sch now] by (simp add: sch_handler_def)
next
  case SchedulerMsg
  then show ?thesis using assms sched_inv_schedule [of fs pick now l sch out sch'] by (simp add: sch_handler_def)
next
  case SchedDataDetection
  then show ?thesis using assms(1,3) sched_inv_clear [of l sch] by (auto simp: sch_handler_def sch_handleDataDetection_def)
next
  case StartSyncMsg
  then show ?thesis using assms(1,3) by (auto simp: sch_handler_def handleStartSyncMsg_def sched_inv_peers)
qed (use assms in simp_all)

lemma sched_inv_answer:
  assumes "handleProcessedBlockResp h status sender sch = (out, sch')" and "sched_inv l sch"
    and "h \<le> l + 1" and "h \<le> l \<or> status \<in> {validateFailed, addErr}"
  shows "sched_inv l sch'"
  using assms unfolding sched_inv_def
  by (cases status) (auto simp: handleProcessedBlockResp_def Let_def delete_conv' update_conv' distinct_update distinct_delete restrict_map_def
      simp del: map_of_eq_Some_iff split: if_splits)

lemma update_constant: "updateSchedulerBySyncBlockBatch sender bs st = Some st' \<Longrightarrow> maxPendingBlocks (snd st') = maxPendingBlocks (snd st)"
proof (induction bs arbitrary: st)
  case (Cons b bs)
  have "maxPendingBlocks (snd (receive_height sender h st)) = maxPendingBlocks (snd st)" for h
    by (simp add: receive_height_def split_beta Let_def split: option.split)
  then show ?case using Cons by (auto split: option.splits)
qed simp

lemma schedule_constant:
  assumes "handleScheduleMsg fs pick now l sch = (out, sch')"
  shows "maxPendingBlocks sch' = maxPendingBlocks sch"
proof -
  obtain need sch1 where n: "isNeedSync now l sch = (need, sch1)" by force
  obtain ph sch2 where p: "nextHeightToReq sch1 = (ph, sch2)" by force
  have "maxPendingBlocks sch1 = maxPendingBlocks sch" "maxPendingBlocks sch2 = maxPendingBlocks sch1"
    using n p by (auto simp: isNeedSync_def nextHeightToReq_def Let_def clearLagging_fields split: if_splits)
  then show ?thesis using assms n p by (auto simp: handleScheduleMsg_def Let_def split: if_splits)
qed

lemma handler_constant:
  assumes "sch_handler fs pick now l m sch = Some (out, sch')" and "external m"
  shows "maxPendingBlocks sch' = maxPendingBlocks sch"
proof (cases m)
  case (SyncedBlockMsg sender msg)
  then show ?thesis
    using assms(1) update_constant [of sender _ "(False, sch)"]
    by (fastforce simp: sch_handler_def handleSyncedBlockMsg_def split: if_splits option.splits prod.splits)
next
  case (NodeStatusMsg a b c)
  then show ?thesis using assms(1)
    by (auto simp: sch_handler_def handleNodeStatus_def addPendingBlocksAndUpdatePendingHeight_def Let_def)
next
  case LivenessMsg
  then show ?thesis using assms(1)
    by (auto simp: sch_handler_def handleLivinessMsg_def Let_def split: option.splits)
next
  case SchedulerMsg
  then show ?thesis using assms schedule_constant [of fs pick now l sch out sch'] by (simp add: sch_handler_def)
next
  case SchedDataDetection
  then show ?thesis using assms(1) by (auto simp: sch_handler_def sch_handleDataDetection_def clearLagging_fields)
next
  case StartSyncMsg
  then show ?thesis using assms(1) by (auto simp: sch_handler_def handleStartSyncMsg_def)
qed (use assms in simp_all)

section \<open>Along a run\<close>

definition run_inv :: "nat \<Rightarrow> 'b sync_sys \<Rightarrow> bool" where
  "run_inv c st \<longleftrightarrow> kept_inv st \<and> maxPendingBlocks (sys_sched st) = c \<and>
     (sys_ledger st + c < MaxUint64 \<longrightarrow> sched_inv (sys_ledger st) (sys_sched st))"

lemma run_inv_step:
  assumes "sync_step cfg st ev st'" and inv: "run_inv c st" and env: "verdicts_ok (cfg_env cfg)" and "ev \<noteq> StopSync"
  shows "run_inv c st'"
proof -
  have kept: "kept_inv st" "kept_inv st'" using inv kept_inv_step [OF assms(1) _ env assms(4)] by (simp_all add: run_inv_def)
  have c: "maxPendingBlocks (sys_sched st) = c" using inv by (simp add: run_inv_def)
  from assms(1) show ?thesis
  proof cases
    case (outside m pick now out sch')
    then show ?thesis
      using handler_constant [OF outside(4,3)] sched_inv_handler [OF outside(4,3)] kept(2) inv by (auto simp: run_inv_def)
  next
    case (answer A h status sender B out sch')
    have "h \<le> sys_ledger st + 1 \<and> (h \<le> sys_ledger st \<or> status \<in> {validateFailed, addErr})"
      using kept(1) answer(3) by (auto simp: kept_inv_def)
    moreover have "maxPendingBlocks sch' = c"
      using answer(4) c by (auto simp: handleProcessedBlockResp_def Let_def split: if_splits)
    ultimately show ?thesis
      using sched_inv_answer [OF answer(4)] kept(2) inv answer(2) by (auto simp: run_inv_def)
  next
    case (task A m B resp l' pro')
    have "m \<noteq> ProcStopSyncMsg" "queue_keys (sys_proc st)" using kept(1) task(3) by (auto simp: kept_inv_def task_ok_def)
    then have "sys_ledger st \<le> l'" using pro_handler_kept(2) [OF task(4) _ env] by blast
    then show ?thesis using sched_inv_mono kept(2) inv task(2) by (auto simp: run_inv_def)
  next
    case (tick m resp l' pro')
    have "m \<noteq> ProcStopSyncMsg" "queue_keys (sys_proc st)" using kept(1) tick(3) by (auto simp: kept_inv_def)
    then have "sys_ledger st \<le> l'" using pro_handler_kept(2) [OF tick(4) _ env] by blast
    then show ?thesis using sched_inv_mono kept(2) inv tick(2) by (auto simp: run_inv_def)
  next
    case consensus
    then show ?thesis using sched_inv_mono [of "sys_ledger st" "sys_sched st" "sys_ledger st + 1"] kept(2) inv by (auto simp: run_inv_def)
  qed (use assms(4) in simp)
qed

lemma run_inv_reach:
  assumes "sync_reach cfg allowed st0 st" and "run_inv c st0" and "verdicts_ok (cfg_env cfg)" and "\<And>ev. allowed ev \<Longrightarrow> ev \<noteq> StopSync"
  shows "run_inv c st"
  using assms(1) by induction (auto intro: assms(2) run_inv_step [OF _ _ assms(3)] dest: assms(4))

lemma run_inv_start:
  "c \<ge> 1 \<Longrightarrow> run_inv c (sync_start (newScheduler l now c timeOut threshold 1 lag lagTime nodes) l)"
  by (simp add: run_inv_def kept_inv_start) (simp add: sched_inv_def sync_start_def newScheduler_def)

section \<open>Progress\<close>

text \<open>The events the node brings about by itself, and the answer of one peer with the next block.\<close>

definition own_event :: "'b sync_event \<Rightarrow> bool" where
  "own_event ev \<longleftrightarrow> ev \<in> {Answer, Task, Tick ProcessBlockMsg, Outside SchedDataDetection}"

lemma own_no_stop: "own_event ev \<Longrightarrow> ev \<noteq> StopSync"
  by (auto simp: own_event_def)

definition drained :: "'b sync_sys \<Rightarrow> 'b sync_sys \<Rightarrow> bool" where
  "drained st st' \<longleftrightarrow> sys_toProc st' = [] \<and> sys_toSched st' = [] \<and> sys_ledger st' = sys_ledger st \<and>
     stopSyncBlock (sys_sched st') = stopSyncBlock (sys_sched st)"

lemma drain_answers:
  "sys_toProc st = [] \<Longrightarrow> \<exists>st'. sync_reach cfg own_event st st' \<and> drained st st' \<and> sys_proc st' = sys_proc st"
proof (induction "length (sys_toSched st)" arbitrary: st)
  case 0
  then show ?case by (auto simp: drained_def intro: sync_reach.here)
next
  case (Suc n)
  then obtain h status sender B where r: "sys_toSched st = (h, status, sender) # B" by (cases "sys_toSched st") auto
  obtain out :: "'a sched_out" and sch' where h: "handleProcessedBlockResp h status sender (sys_sched st) = (out, sch')" by force
  let ?st1 = "st\<lparr>sys_sched := sch', sys_toSched := B\<rparr>"
  have step: "sync_step cfg st Answer ?st1"
    using sync_step.answer [of st "[]" h status sender B out sch' cfg] r h by simp
  have "stopSyncBlock sch' = stopSyncBlock (sys_sched st)"
    using h by (auto simp: handleProcessedBlockResp_def Let_def split: if_splits)
  moreover obtain st' where "sync_reach cfg own_event ?st1 st'" "drained ?st1 st'" "sys_proc st' = sys_proc st"
    using Suc.hyps(1) [of ?st1] Suc.hyps(2) Suc.prems r by auto
  moreover have "sync_reach cfg own_event st ?st1"
    using sync_reach.further [OF sync_reach.here step] by (simp add: own_event_def)
  ultimately show ?case by (auto simp: drained_def intro: sync_reach_trans)
qed

lemma drain_tasks:
  "\<forall>t\<in>set (sys_toProc st). task_ok t \<Longrightarrow> \<exists>st'. sync_reach cfg own_event st st' \<and> drained st st'"
proof (induction "length (sys_toProc st)" arbitrary: st)
  case 0
  then show ?case using drain_answers [of st cfg] by auto
next
  case (Suc n)
  then obtain m B where r: "sys_toProc st = m # B" by (cases "sys_toProc st") auto
  obtain batch w sender where m: "m = ReceivedBlockInfos batch w sender" "\<forall>b\<in>set (batch_blocks batch). blk_Header b \<noteq> None"
    using Suc.prems r by (auto simp: task_ok_def)
  obtain pro' where "handleReceivedBlockInfos (sys_ledger st) batch w sender (sys_proc st) = Some pro'"
    using received_total [OF m(2)] by blast
  then have h: "pro_handler (cfg_fastSync cfg) (cfg_env cfg) (sys_ledger st) m (sys_proc st) = Some (None, sys_ledger st, pro')"
    by (simp add: pro_handler_def m(1))
  let ?st1 = "st\<lparr>sys_proc := pro', sys_toProc := B\<rparr>"
  have step: "sync_step cfg st Task ?st1"
    using sync_step.task [of st "[]" m B cfg None "sys_ledger st" pro'] r h by simp
  obtain st' where "sync_reach cfg own_event ?st1 st'" "drained ?st1 st'"
    using Suc.hyps(1) [of ?st1] Suc.hyps(2) Suc.prems r by auto
  moreover have "sync_reach cfg own_event st ?st1"
    using sync_reach.further [OF sync_reach.here step] by (simp add: own_event_def)
  ultimately show ?case by (auto simp: drained_def intro: sync_reach_trans)
qed

lemma process_next:
  assumes inv: "run_inv c st" and env: "verdicts_ok (cfg_env cfg)" and "drained st0 st"
  shows "\<exists>st'. sync_reach cfg own_event st st' \<and>
    (sys_ledger st' > sys_ledger st \<or> drained st st' \<and> map_of (pro_queue (sys_proc st')) (sys_ledger st + 1) = None)"
proof (cases "map_of (pro_queue (sys_proc st)) (sys_ledger st + 1)")
  case None
  then show ?thesis using assms(3) by (intro exI [of _ st]) (auto simp: drained_def intro: sync_reach.here)
next
  case (Some info)
  obtain resp l' pro' where p: "handleProcessBlockMsg (cfg_fastSync cfg) (cfg_env cfg) (sys_ledger st) (sys_proc st) = (resp, l', pro')"
    by (metis surj_pair)
  have keys: "queue_keys (sys_proc st)" using inv by (simp add: run_inv_def kept_inv_def)
  let ?st1 = "st\<lparr>sys_proc := pro', sys_ledger := l', sys_toSched := sys_toSched st @ (case resp of None \<Rightarrow> [] | Some r \<Rightarrow> [r])\<rparr>"
  have step: "sync_step cfg st (Tick ProcessBlockMsg) ?st1"
    by (rule sync_step.tick) (simp_all add: pro_handler_def p)
  have one: "sync_reach cfg own_event st ?st1"
    using sync_reach.further [OF sync_reach.here step] by (simp add: own_event_def)
  have l': "l' = sys_ledger st \<or> l' = sys_ledger st + 1"
    using process_block_resp [OF p keys env] by (auto split: option.splits)
  show ?thesis
  proof (cases "l' = sys_ledger st")
    case True
    obtain st' where st': "sync_reach cfg own_event ?st1 st'" "drained ?st1 st'" "sys_proc st' = pro'"
      using drain_answers [of ?st1 cfg] assms(3) by (auto simp: drained_def)
    have "map_of (pro_queue pro') (sys_ledger st + 1) = None" using process_block_ok(2) [OF p keys] by (auto simp: dom_def set_eq_iff)
    then show ?thesis
      using st' sync_reach_trans [OF st'(1) one] True by (auto simp: drained_def)
  next
    case False
    then show ?thesis using one l' by (intro exI [of _ ?st1]) auto
  qed
qed

text \<open>After the tables have been cleared there is room for the next block.\<close>

lemma room_after_clearing:
  assumes inv: "sched_inv l sch" and "map_of (blockStates sch) (l + 1) \<noteq> Some receivedBlock"
  shows "length (receivedBlocks (clearLaggingRequest l sch)) \<le> maxPendingBlocks sch"
proof -
  let ?r = "receivedBlocks (clearLaggingRequest l sch)"
  have "h \<in> insert l {l + 2..l + maxPendingBlocks sch}" if h: "h \<in> set (map fst ?r)" for h
  proof -
    have "map_of ?r h \<noteq> None" using h by (simp add: map_of_eq_None_iff)
    then have "\<not> (h < l \<and> map_of (blockStates sch) h \<noteq> None)" "map_of (receivedBlocks sch) h \<noteq> None"
      unfolding clearLagging_fields by (auto split: if_splits)
    moreover from this(2) have "map_of (blockStates sch) h = Some receivedBlock" using inv by (auto simp: sched_inv_def simp del: map_of_eq_Some_iff)
    moreover from this have "h \<le> l + maxPendingBlocks sch" using inv by (auto simp: sched_inv_def simp del: map_of_eq_Some_iff)
    ultimately have "h \<noteq> l + 1" "\<not> h < l" "h \<le> l + maxPendingBlocks sch" using assms(2) by auto
    then show ?thesis by auto
  qed
  then have "set (map fst ?r) \<subseteq> insert l {l + 2..l + maxPendingBlocks sch}" by blast
  then have "card (set (map fst ?r)) \<le> card (insert l {l + 2..l + maxPendingBlocks sch})" by (intro card_mono) auto
  also have "\<dots> \<le> maxPendingBlocks sch" using inv by (simp add: sched_inv_def card_insert_if)
  finally show ?thesis
    using inv distinct_card [of "map fst ?r"] clearLagging_fields(8) by (simp add: sched_inv_def)
qed

lemma block_commits:
  assumes "drained st0 st" and inv: "run_inv c st" and "sys_ledger st + c < MaxUint64"
    and "map_of (pro_queue (sys_proc st)) (sys_ledger st + 1) = None" and "\<not> stopSyncBlock (sys_sched st)"
    and b: "blk_Header b = Some (sys_ledger st + 1)"
    and acc: "VerifyBlock (cfg_env cfg) (sys_ledger st) b = Accepts" "VerifyBlockWithRwSets (cfg_env cfg) (sys_ledger st) b rws = Accepts"
      "AddBlock (cfg_env cfg) (sys_ledger st) b = Accepts"
  shows "\<exists>st'. sync_reach cfg (\<lambda>ev. own_event ev \<or> ev = Outside (SyncedBlockMsg peer (Some (BlockinfoBatch [(b, rws)], w)))) st st' \<and>
    sys_ledger st' = sys_ledger st + 1"
proof -
  let ?ok = "\<lambda>ev. own_event ev \<or> ev = Outside (SyncedBlockMsg peer (Some (BlockinfoBatch [(b, rws)], w)))"
  let ?l = "sys_ledger st" and ?sch = "sys_sched st" and ?batch = "BlockinfoBatch [(b, rws)]"
  have empty: "sys_toProc st = []" "sys_toSched st = []" using assms(1) by (simp_all add: drained_def)
  have si: "sched_inv ?l ?sch" and kept: "kept_inv st" using inv assms(3) by (simp_all add: run_inv_def)
  have nr: "map_of (blockStates ?sch) (?l + 1) \<noteq> Some receivedBlock"
    using kept assms(4) empty by (auto simp: kept_inv_def held_def)
  define sch1 where "sch1 = clearLaggingRequest ?l ?sch"
  let ?st = "\<lambda>sch pro l P A. \<lparr>sys_sched = sch, sys_proc = pro, sys_ledger = l, sys_toProc = P, sys_toSched = A\<rparr>"
  have s0: "st = ?st ?sch (sys_proc st) ?l [] []" using empty by (cases st) simp
  have s1: "sync_step cfg (?st ?sch (sys_proc st) ?l [] []) (Outside SchedDataDetection) (?st sch1 (sys_proc st) ?l [] [])"
    using sync_step.outside [of SchedDataDetection cfg id 0 "?st ?sch (sys_proc st) ?l [] []" Nothing sch1]
    by (simp add: sch_handler_def sch_handleDataDetection_def sch1_def)
  have one: "map_of (blockStates sch1) (?l + 1) \<notin> {None, Some receivedBlock}" using nr by (simp add: sch1_def clearLagging_states)
  define sch2 where "sch2 = snd (receive_height peer (?l + 1) (False, sch1))"
  have "receive_height peer (?l + 1) (False, sch1) = (True, sch2)"
    using receive_height_states(2) [of peer "?l + 1" "(False, sch1)"] one by (simp add: sch2_def prod_eq_iff)
  moreover have "length (receivedBlocks sch1) \<le> maxPendingBlocks sch1" "\<not> stopSyncBlock sch1"
    using room_after_clearing [OF si nr] assms(5) by (simp_all add: sch1_def clearLagging_fields)
  ultimately have "handleSyncedBlockMsg peer (Some (?batch, w)) sch1 = Some (ToProcessor (ReceivedBlockInfos ?batch w peer), sch2)"
    using b by (simp add: handleSyncedBlockMsg_def)
  then have s2: "sync_step cfg (?st sch1 (sys_proc st) ?l [] []) (Outside (SyncedBlockMsg peer (Some (?batch, w))))
      (?st sch2 (sys_proc st) ?l [ReceivedBlockInfos ?batch w peer] [])"
    using sync_step.outside [of "SyncedBlockMsg peer (Some (?batch, w))" cfg id 0 "?st sch1 (sys_proc st) ?l [] []"
        "ToProcessor (ReceivedBlockInfos ?batch w peer)" sch2] by (simp add: sch_handler_def)
  define info where "info = \<lparr>info_id = peer, info_blk = b, info_withRWSets = w, info_rwsets = rws\<rparr>"
  obtain pro2 where pro2: "handleReceivedBlockInfos ?l ?batch w peer (sys_proc st) = Some pro2" "map_of (pro_queue pro2) (?l + 1) = Some info"
    using assms(4) b by (simp add: handleReceivedBlockInfos_def info_def update_conv')
  then have s3: "sync_step cfg (?st sch2 (sys_proc st) ?l [ReceivedBlockInfos ?batch w peer] []) Task (?st sch2 pro2 ?l [] [])"
    using sync_step.task [of "?st sch2 (sys_proc st) ?l [ReceivedBlockInfos ?batch w peer] []" "[]" _ "[]" cfg None ?l pro2]
    by (simp add: pro_handler_def)
  have "fst (snd (handleProcessBlockMsg (cfg_fastSync cfg) (cfg_env cfg) ?l pro2)) = ?l + 1"
    using pro2(2) acc b
    by (cases "w \<and> cfg_fastSync cfg") (simp_all add: handleProcessBlockMsg_def info_def validateAndCommitBlock_def
        validateAndCommitBlockWithRwSets_def validate_commit_def Let_def)
  then obtain resp pro3 where p3: "handleProcessBlockMsg (cfg_fastSync cfg) (cfg_env cfg) ?l pro2 = (resp, ?l + 1, pro3)"
    by (metis prod.collapse)
  let ?A = "case resp of None \<Rightarrow> [] | Some r \<Rightarrow> [r]"
  have s4: "sync_step cfg (?st sch2 pro2 ?l [] []) (Tick ProcessBlockMsg) (?st sch2 pro3 (?l + 1) [] ?A)"
    using sync_step.tick [of ProcessBlockMsg cfg "?st sch2 pro2 ?l [] []" resp "?l + 1" pro3] by (simp add: pro_handler_def p3)
  have r1: "sync_reach cfg ?ok (?st ?sch (sys_proc st) ?l [] []) (?st sch1 (sys_proc st) ?l [] [])"
    by (rule sync_reach.further [OF sync_reach.here s1]) (simp add: own_event_def)
  have r2: "sync_reach cfg ?ok (?st ?sch (sys_proc st) ?l [] []) (?st sch2 (sys_proc st) ?l [ReceivedBlockInfos ?batch w peer] [])"
    by (rule sync_reach.further [OF r1 s2]) simp
  have r3: "sync_reach cfg ?ok (?st ?sch (sys_proc st) ?l [] []) (?st sch2 pro2 ?l [] [])"
    by (rule sync_reach.further [OF r2 s3]) (simp add: own_event_def)
  have "sync_reach cfg ?ok (?st ?sch (sys_proc st) ?l [] []) (?st sch2 pro3 (?l + 1) [] ?A)"
    by (rule sync_reach.further [OF r3 s4]) (simp add: own_event_def)
  then show ?thesis using s0 by (intro exI [of _ "?st sch2 pro3 (?l + 1) [] ?A"]) simp
qed

lemma sync_reach_mono: "sync_reach cfg allowed st st' \<Longrightarrow> (\<And>ev. allowed ev \<Longrightarrow> allowed' ev) \<Longrightarrow> sync_reach cfg allowed' st st'"
  by (induction rule: sync_reach.induct) (auto intro: sync_reach.intros)

section \<open>Locking up\<close>

text \<open>
  More received blocks than the limit, none of them the next one: further answers are dropped, so the next block
  never reaches the processor, and no other block can be processed before it.
\<close>

definition locked :: "'b sync_sys \<Rightarrow> bool" where
  "locked st \<longleftrightarrow> sys_toProc st = [] \<and> sys_toSched st = [] \<and> map_of (pro_queue (sys_proc st)) (sys_ledger st + 1) = None \<and>
     length (receivedBlocks (sys_sched st)) > maxPendingBlocks (sys_sched st) \<and>
     (\<forall>(h, _)\<in>set (receivedBlocks (sys_sched st)). h > sys_ledger st)"

lemma clear_locked:
  "\<forall>(h, _)\<in>set (receivedBlocks sch). h > l \<Longrightarrow> receivedBlocks (clearLaggingRequest l sch) = receivedBlocks sch"
  by (auto simp: clearLaggingRequest_def Let_def intro!: filter_True)

lemma schedule_locked:
  assumes "handleScheduleMsg fs pick now l sch = (out, sch')" and "\<forall>(h, _)\<in>set (receivedBlocks sch). h > l"
  shows "receivedBlocks sch' = receivedBlocks sch" and "out_tasks out = []"
proof -
  obtain need sch1 where n: "isNeedSync now l sch = (need, sch1)" by force
  obtain ph sch2 where p: "nextHeightToReq sch1 = (ph, sch2)" by force
  have "receivedBlocks sch1 = receivedBlocks sch" "receivedBlocks sch2 = receivedBlocks sch1"
    using n p clear_locked [OF assms(2)] by (auto simp: isNeedSync_def nextHeightToReq_def Let_def split: if_splits)
  then show "receivedBlocks sch' = receivedBlocks sch" "out_tasks out = []"
    using assms(1) n p by (auto simp: handleScheduleMsg_def Let_def split: if_splits)
qed

lemma handler_locked:
  assumes "sch_handler fs pick now l m sch = Some (out, sch')" and "external m"
    and "\<forall>(h, _)\<in>set (receivedBlocks sch). h > l" and "length (receivedBlocks sch) > maxPendingBlocks sch"
  shows "receivedBlocks sch' = receivedBlocks sch \<and> out_tasks out = []"
proof (cases m)
  case SchedulerMsg
  then have "handleScheduleMsg fs pick now l sch = (out, sch')" using assms(1) by (simp add: sch_handler_def)
  from schedule_locked [OF this assms(3)] show ?thesis by simp
next
  case SchedDataDetection
  then show ?thesis using assms(1) clear_locked [OF assms(3)] by (auto simp: sch_handler_def sch_handleDataDetection_def)
qed (use assms in \<open>auto simp: sch_handler_def handleNodeStatus_def addPendingBlocksAndUpdatePendingHeight_def
    handleLivinessMsg_def handleSyncedBlockMsg_def handleStartSyncMsg_def Let_def split: option.splits\<close>)

lemma locked_step:
  assumes "sync_step cfg st ev st'" and inv: "locked st" and "ev \<noteq> StopSync" and "ev \<noteq> Consensus"
  shows "locked st' \<and> sys_ledger st' = sys_ledger st"
  using assms(1)
proof cases
  case (outside m pick now out sch')
  then show ?thesis
    using handler_locked [OF outside(4,3)] handler_constant [OF outside(4,3)] inv by (auto simp: locked_def)
next
  case (tick m resp l' pro')
  then show ?thesis
    using inv by (auto simp: locked_def pro_handler_def handleProcessBlockMsg_def pro_handleDataDetection_def map_of_filter_key)
qed (use assms in \<open>auto simp: locked_def\<close>)

lemma locked_reach:
  assumes "sync_reach cfg (\<lambda>ev. ev \<noteq> StopSync \<and> ev \<noteq> Consensus) st st'" and "locked st"
  shows "locked st' \<and> sys_ledger st' = sys_ledger st"
  using assms(1) by induction (use assms(2) locked_step in fastforce)+

text \<open>A schedule of steps, for running the system on concrete messages.\<close>

datatype 'b sync_do = DoOutside "'b sched_msg" nat nat | DoTask

definition sync_do_one :: "'b sync_cfg \<Rightarrow> 'b sync_do \<Rightarrow> 'b sync_sys \<Rightarrow> 'b sync_sys option" where
  "sync_do_one cfg d st =
     (case d of
        DoOutside m k now \<Rightarrow>
          if external m
          then map_option (\<lambda>(out, sch'). st\<lparr>sys_sched := sch', sys_toProc := sys_toProc st @ out_tasks out\<rparr>)
                 (sch_handler (cfg_fastSync cfg) (\<lambda>_. k) now (sys_ledger st) m (sys_sched st))
          else None
      | DoTask \<Rightarrow>
          (case sys_toProc st of
             [] \<Rightarrow> None
           | m # B \<Rightarrow>
               map_option (\<lambda>(resp, ledger', pro'). st\<lparr>sys_proc := pro', sys_ledger := ledger', sys_toProc := B,
                   sys_toSched := sys_toSched st @ (case resp of None \<Rightarrow> [] | Some r \<Rightarrow> [r])\<rparr>)
                 (pro_handler (cfg_fastSync cfg) (cfg_env cfg) (sys_ledger st) m (sys_proc st))))"

fun sync_do_all :: "'b sync_cfg \<Rightarrow> 'b sync_do list \<Rightarrow> 'b sync_sys \<Rightarrow> 'b sync_sys option" where
  "sync_do_all cfg [] st = Some st"
| "sync_do_all cfg (d # ds) st = (case sync_do_one cfg d st of None \<Rightarrow> None | Some st' \<Rightarrow> sync_do_all cfg ds st')"

lemma sync_do_one_step:
  assumes "sync_do_one cfg d st = Some st'"
  shows "\<exists>ev. sync_step cfg st ev st' \<and> ev \<noteq> StopSync \<and> ev \<noteq> Consensus"
proof (cases d)
  case (DoOutside m k now)
  then show ?thesis using assms sync_step.outside [of m cfg "\<lambda>_. k" now st]
    by (auto simp: sync_do_one_def split: if_splits)
next
  case DoTask
  then obtain m B resp l' pro' where t: "sys_toProc st = m # B"
      "pro_handler (cfg_fastSync cfg) (cfg_env cfg) (sys_ledger st) m (sys_proc st) = Some (resp, l', pro')"
      "st' = st\<lparr>sys_proc := pro', sys_ledger := l', sys_toProc := B, sys_toSched := sys_toSched st @ (case resp of None \<Rightarrow> [] | Some r \<Rightarrow> [r])\<rparr>"
    using assms by (auto simp: sync_do_one_def split: list.splits)
  have "sync_step cfg st Task st'" using sync_step.task [of st "[]" m B cfg resp l' pro'] t by simp
  then show ?thesis by blast
qed

lemma sync_do_all_reach:
  assumes "sync_do_all cfg ds st = Some st'" and "sync_reach cfg (\<lambda>ev. ev \<noteq> StopSync \<and> ev \<noteq> Consensus) st0 st"
  shows "sync_reach cfg (\<lambda>ev. ev \<noteq> StopSync \<and> ev \<noteq> Consensus) st0 st'"
  using assms
proof (induction ds arbitrary: st)
  case (Cons d ds)
  then obtain st1 where d: "sync_do_one cfg d st = Some st1" "sync_do_all cfg ds st1 = Some st'" by (auto split: option.splits)
  obtain ev where ev: "sync_step cfg st ev st1" "ev \<noteq> StopSync \<and> ev \<noteq> Consensus" using sync_do_one_step [OF d(1)] by blast
  show ?case by (rule Cons.IH [OF d(2) sync_reach.further [OF Cons.prems(2) ev]])
qed simp

end
