(* ===== verification/DemoSync.thy ===== *)
theory DemoSync
  imports SyncProgress
begin

text \<open>
  Two runs of the synchronisation on concrete messages: a node that accepts every block, the peer \<open>q\<close> with nine blocks and
  the peer \<open>p\<close> with one.
\<close>

definition sync_demo_cfg :: "unit sync_cfg" where
  "sync_demo_cfg = \<lparr>cfg_fastSync = False, cfg_env = \<lparr>VerifyBlock = (\<lambda>_ _. Accepts), VerifyBlockWithRwSets = (\<lambda>_ _ _. Accepts),
     AddBlock = (\<lambda>_ _. Accepts)\<rparr>\<rparr>"

definition sync_demo_block :: "nat \<Rightarrow> unit Block" where
  "sync_demo_block h = \<lparr>blk_Header = Some h, blk_Body = ()\<rparr>"

definition sync_demo_answer :: "nat \<Rightarrow> unit sync_do" where
  "sync_demo_answer h = DoOutside (SyncedBlockMsg ''q'' (Some (BlockinfoBatch [(sync_demo_block h, [])], False))) 0 2"

text \<open>Up to eight blocks, one per request; and up to two, with three per request.\<close>

definition sync_demo_one :: "unit sync_sys" where
  "sync_demo_one = sync_start (newScheduler 0 0 8 30 1 1 5 3 []) 0"

definition sync_demo_three :: "unit sync_sys" where
  "sync_demo_three = sync_start (newScheduler 0 0 2 30 1 3 5 3 []) 0"

lemma sync_demo_verdicts: "verdicts_ok (cfg_env sync_demo_cfg)"
  by (simp add: verdicts_ok_def sync_demo_cfg_def)

lemmas sync_eval = sync_do_one_def sync_start_def newScheduler_def newProcessor_def sch_handler_def handleNodeStatus_def
  isPreferenceNode_def isPeerArchivedTooHeight_def addPendingBlocksAndUpdatePendingHeight_def handleScheduleMsg_def isNeedSync_def
  nextHeightToReq_def min_new_def maxHeight_def selectPeer_def getHeight_def getPendingReqInPeer_def mark_requested_def
  handleSyncedBlockMsg_def receive_height_def pro_handler_def handleReceivedBlockInfos_def upt_rec MaxUint64_def
  sync_demo_cfg_def sync_demo_block_def sync_demo_answer_def Let_def

text \<open>The first block, requested and received.\<close>

lemma sync_demo_received:
  "\<exists>st. sync_do_all sync_demo_cfg [DoOutside (NodeStatusMsg ''q'' 9 0) 0 1, DoOutside SchedulerMsg 0 2, sync_demo_answer 1] sync_demo_one = Some st \<and>
     map_of (blockStates (sys_sched st)) 1 = Some receivedBlock \<and> sys_ledger st = 0 \<and> \<not> stopSyncBlock (sys_sched st)"
  by (simp add: sync_eval sync_demo_one_def)

text \<open>Peer \<open>p\<close> is asked for the first block and says nothing; peer \<open>q\<close> answers with the next three.\<close>

lemma sync_demo_locked:
  "\<exists>st. sync_do_all sync_demo_cfg [DoOutside (NodeStatusMsg ''q'' 9 0) 0 1, DoOutside (NodeStatusMsg ''p'' 1 0) 0 1,
       DoOutside SchedulerMsg 1 2, DoOutside SchedulerMsg 0 2, sync_demo_answer 2, sync_demo_answer 3, sync_demo_answer 4,
       DoTask, DoTask, DoTask] sync_demo_three = Some st \<and> locked st \<and> sys_ledger st = 0"
  by (simp add: sync_eval sync_demo_three_def locked_def)

end
