(* ===== verification/QuickSchedule.thy ===== *)
theory QuickSchedule
  imports ChargeGas
begin

text \<open>
  The quick path of the default scheduler (\<^verbatim>\<open>canUseQuickSchedule\<close>, \<^verbatim>\<open>runContract\<close> and \<^verbatim>\<open>update\<close> in \<^verbatim>\<open>scheduler.go\<close>): a block
  whose transactions all call one of six native contracts is executed in a loop without workers, conflict checks
  and virtual machine, each transaction in a context of its own on the snapshot as it was at the start.
\<close>

section \<open>Results and parameters\<close>

definition canUseQuickSchedule :: "Transaction list \<Rightarrow> bool" where
  "canUseQuickSchedule txs = list_all (\<lambda>tx. p_ContractName (tx_Payload tx) \<in> set SZContractList) txs"

text \<open>The hash of the read-write set, which the results keep, is not part of the model's results.\<close>

definition genDefaultTxResult :: Result where
  "genDefaultTxResult =
     \<lparr>res_Code = SUCCESS,
      res_ContractResult = \<lparr>cr_Code = 0, cr_Result = None, cr_Message = ''OK'', cr_GasUsed = 0, cr_ContractEvent = []\<rparr>,
      res_Message = []\<rparr>"

definition genDefaultFiledTxResult :: "Transaction \<Rightarrow> Result" where
  "genDefaultFiledTxResult tx =
     \<lparr>res_Code = CONTRACT_INVOKE_METHOD_FAILED,
      res_ContractResult = \<lparr>cr_Code = 1, cr_Result = None, cr_Message = ''Invalid sz contract method: '' @ p_Method (tx_Payload tx),
        cr_GasUsed = 0, cr_ContractEvent = []\<rparr>,
      res_Message = []\<rparr>"

definition genDefaultTxRWSet :: "string \<Rightarrow> TxRWSet" where
  "genDefaultTxRWSet txId = \<lparr>rw_TxId = txId, TxReads = [], TxWrites = []\<rparr>"

definition getSimContextKey :: "string \<Rightarrow> string \<Rightarrow> string" where
  "getSimContextKey bizId businessType = bizId @ businessType"

definition getErrResult :: "string \<Rightarrow> Result \<Rightarrow> Result" where
  "getErrResult errMsg r =
     r\<lparr>res_Code := CONTRACT_FAIL, res_ContractResult := (res_ContractResult r)\<lparr>cr_Message := errMsg, cr_Code := 1\<rparr>\<rparr>"

text \<open>The parameters are collected in a map that all transactions of the block share.\<close>

definition getUpdateParam :: "Transaction \<Rightarrow> (string \<times> bytes) list \<Rightarrow> (string \<times> string \<times> string) \<times> (string \<times> bytes) list" where
  "getUpdateParam tx paramMap =
     (let m = fold (\<lambda>(k, v). AList.update k v) (p_Parameters (tx_Payload tx)) paramMap;
          param = (\<lambda>k. case map_of m k of Some (Some v) \<Rightarrow> v | _ \<Rightarrow> [])
      in ((param ''bizId'', param ''businessType'', param ''nonce''), m))"

section \<open>Updating\<close>

text \<open>The next nonce from the stored value and the requested one; \<open>Inl\<close> is the message of a failure. Sums wrap around.\<close>

definition next_nonce :: "bytes \<Rightarrow> string \<Rightarrow> string + 64 word" where
  "next_nonce valueByte nonce =
     (case (if bytes_len valueByte = 0 then Some 0 else case valueByte of None \<Rightarrow> Some 0 | Some v \<Rightarrow> ParseInt v) of
        None \<Rightarrow> Inl ''sz update fail strconv Atoi''
      | Some lastNonce \<Rightarrow>
          if nonce = [] then Inr (word_of_int (lastNonce + 1))
          else
            (case ParseInt nonce of
               None \<Rightarrow> Inl ''sz update fail strconv Atoi''
             | Some nonceInt \<Rightarrow>
                 if lastNonce \<ge> nonceInt then Inl ''sz update fail nonce invalid request nonce should be more than the last''
                 else Inr (word_of_int nonceInt)))"

definition quick_update ::
    "view \<Rightarrow> nat \<Rightarrow> Transaction \<Rightarrow> (string \<times> bytes) list \<Rightarrow> (Result \<times> TxRWSet) \<times> (string \<times> bytes) list" where
  "quick_update v version tx paramMap =
     (let ((bizId, businessType, nonce), m) = getUpdateParam tx paramMap;
          result = genDefaultTxResult;
          contract = p_ContractName (tx_Payload tx);
          key = getSimContextKey bizId businessType;
          (got, ctx) = sim_Get v contract key (NewTxSimContext tx version);
          valueByte = (case got of Inl _ \<Rightarrow> None | Inr b \<Rightarrow> b);
          rw = \<lparr>rw_TxId = TxId tx, TxReads = [\<lparr>r_ContractName = contract, r_Key = key, r_Value = valueByte\<rparr>], TxWrites = []\<rparr>;
          failed = (\<lambda>errMsg. ((getErrResult errMsg result, rw), m))
      in case got of
           Inl e \<Rightarrow> failed (''sz update fail txSimContext get err:'' @ e)
         | Inr _ \<Rightarrow>
             (case next_nonce valueByte nonce of
                Inl errMsg \<Rightarrow> failed errMsg
              | Inr noncePair \<Rightarrow>
                  (let val = Some (FormatInt noncePair) in
                   case fst (sim_Put contract key val ctx) of
                     Some e \<Rightarrow> failed (''sz update fail,err: '' @ e)
                   | None \<Rightarrow>
                       ((result\<lparr>res_ContractResult := (res_ContractResult result)\<lparr>cr_Result := val\<rparr>\<rparr>,
                         rw\<lparr>TxWrites := [\<lparr>w_ContractName = contract, w_Key = key, w_Value = val\<rparr>]\<rparr>), m))))"

section \<open>The loop\<close>

definition runContract ::
    "view \<Rightarrow> nat \<Rightarrow> Transaction \<Rightarrow> (string \<times> bytes) list \<Rightarrow> (Result \<times> TxRWSet) \<times> (string \<times> bytes) list" where
  "runContract v version tx paramMap =
     (if p_Method (tx_Payload tx) \<in> {''Save'', ''Endorse''} then ((genDefaultTxResult, genDefaultTxRWSet (TxId tx)), paramMap)
      else if p_Method (tx_Payload tx) = ''Update'' then quick_update v version tx paramMap
      else ((genDefaultFiledTxResult tx, genDefaultTxRWSet (TxId tx)), paramMap))"

fun quick_loop :: "view \<Rightarrow> nat \<Rightarrow> Transaction list \<Rightarrow> (string \<times> bytes) list \<Rightarrow> (Result \<times> TxRWSet) list" where
  "quick_loop v version [] paramMap = []"
| "quick_loop v version (tx # txs) paramMap =
     (let (out, paramMap') = runContract v version tx paramMap in out # quick_loop v version txs paramMap')"

definition rwSet_map :: "(Result \<times> TxRWSet) list \<Rightarrow> (string \<times> TxRWSet) list" where
  "rwSet_map outs = fold (\<lambda>(_, rw). AList.update (rw_TxId rw) rw) outs []"

text \<open>A block is its transactions with their results, and its graph.\<close>

definition quick_Schedule :: "nat \<Rightarrow> Transaction list \<Rightarrow> SnapshotImpl \<Rightarrow> Transaction list \<times> DAG \<times> (string \<times> TxRWSet) list" where
  "quick_Schedule version txBatch snapshot =
     (let outs = quick_loop (GetKey snapshot) version txBatch []
      in (map2 (\<lambda>tx (r, _). tx\<lparr>tx_Result := Some r\<rparr>) txBatch outs, genDefaultDag (length txBatch), rwSet_map outs))"

definition quick_SimulateWithDag :: "nat \<Rightarrow> Transaction list \<Rightarrow> SnapshotImpl \<Rightarrow> (string \<times> TxRWSet) list \<times> (string \<times> Result) list" where
  "quick_SimulateWithDag version txs snapshot =
     (let outs = quick_loop (GetKey snapshot) version txs []
      in (rwSet_map outs, fold (\<lambda>(tx, r, _). AList.update (TxId tx) r) (zip txs outs) []))"

section \<open>Blocks\<close>

lemma sim_Get_fresh: "fst (sim_Get v c k (NewTxSimContext tx version)) = v c k"
  by (simp add: sim_Get_def NewTxSimContext_def getFromWriteSet_def getFromReadSet_def getFromRelyCache_def split: sum.splits)

lemma sim_Put_error: "fst (sim_Put c k val s) = (if length k > maxKeyLength then Some ''key length is too long'' else None)"
  by (simp add: sim_Put_def putIntoWriteSet_def)

text \<open>What an update reads and writes, as a function of the value of its key.\<close>

lemma quick_update_eq:
  assumes "getUpdateParam tx paramMap = ((bizId, businessType, nonce), m)"
  defines "contract \<equiv> p_ContractName (tx_Payload tx)" and "key \<equiv> bizId @ businessType"
  defines "rw \<equiv> \<lambda>b ws. \<lparr>rw_TxId = TxId tx, TxReads = [\<lparr>r_ContractName = contract, r_Key = key, r_Value = b\<rparr>], TxWrites = ws\<rparr>"
  shows "quick_update v version tx paramMap =
    (case v contract key of
       Inl e \<Rightarrow> ((getErrResult (''sz update fail txSimContext get err:'' @ e) genDefaultTxResult, rw None []), m)
     | Inr b \<Rightarrow>
         (case next_nonce b nonce of
            Inl msg \<Rightarrow> ((getErrResult msg genDefaultTxResult, rw b []), m)
          | Inr n \<Rightarrow>
              if length key > maxKeyLength
              then ((getErrResult (''sz update fail,err: '' @ ''key length is too long'') genDefaultTxResult, rw b []), m)
              else ((genDefaultTxResult\<lparr>res_ContractResult := (res_ContractResult genDefaultTxResult)\<lparr>cr_Result := Some (FormatInt n)\<rparr>\<rparr>,
                     rw b [\<lparr>w_ContractName = contract, w_Key = key, w_Value = Some (FormatInt n)\<rparr>]), m)))"
proof -
  obtain got ctx where g: "sim_Get v contract key (NewTxSimContext tx version) = (got, ctx)" by force
  then have "got = v contract key" using sim_Get_fresh [of v contract key tx version] by simp
  then show ?thesis
    using g unfolding quick_update_def assms(1) contract_def [symmetric] rw_def
    by (simp add: getSimContextKey_def key_def [symmetric] sim_Put_error Let_def split: sum.split)
qed

lemma runContract_payload:
  assumes "tx_Payload t = tx_Payload t'"
  shows "runContract v version t paramMap = runContract v version t' paramMap"
proof -
  obtain b y n m where a: "getUpdateParam t paramMap = ((b, y, n), m)" by (metis surj_pair)
  then have a': "getUpdateParam t' paramMap = ((b, y, n), m)" using assms by (simp add: getUpdateParam_def)
  show ?thesis
    unfolding runContract_def genDefaultFiledTxResult_def quick_update_eq [OF a] quick_update_eq [OF a'] assms ..
qed

lemma quick_loop_payload:
  "map tx_Payload ts = map tx_Payload ts' \<Longrightarrow> quick_loop v version ts paramMap = quick_loop v version ts' paramMap"
proof (induction ts arbitrary: ts' paramMap)
  case (Cons t ts)
  then obtain t' us where ts': "ts' = t' # us" "tx_Payload t = tx_Payload t'" "map tx_Payload ts = map tx_Payload us" by auto
  have "runContract v version t paramMap = runContract v version t' paramMap" by (rule runContract_payload [OF ts'(2)])
  moreover have "quick_loop v version ts p = quick_loop v version us p" for p by (rule Cons.IH [OF ts'(3)])
  ultimately show ?case by (simp add: ts'(1) split: prod.split)
qed simp

lemma quick_loop_length [simp]: "length (quick_loop v version ts paramMap) = length ts"
  by (induction ts arbitrary: paramMap) (simp_all split: prod.split)

lemma fold_update_map:
  "map_of (fold (\<lambda>(k, v). AList.update k v) ps m) k = (case map_of (rev ps) k of Some v \<Rightarrow> Some v | None \<Rightarrow> map_of m k)"
  by (induction ps arbitrary: m) (auto simp: map_add_def update_conv' split: option.splits)

lemma own_param:
  assumes "k \<in> fst ` set ps"
  shows "map_of (fold (\<lambda>(k, v). AList.update k v) ps m) k = map_of (fold (\<lambda>(k, v). AList.update k v) ps m') k"
proof -
  have "map_of (rev ps) k \<noteq> None" using assms by (simp add: map_of_eq_None_iff)
  then show ?thesis by (auto simp: fold_update_map)
qed

text \<open>A transaction that brings its own parameters is executed on the state before the block, whatever precedes it.\<close>

lemma runContract_own_params:
  assumes "{''bizId'', ''businessType'', ''nonce''} \<subseteq> fst ` set (p_Parameters (tx_Payload tx))"
  shows "fst (runContract v version tx m) = fst (runContract v version tx m')"
proof -
  have "fst (getUpdateParam tx m) = fst (getUpdateParam tx m')"
    using assms own_param [of _ "p_Parameters (tx_Payload tx)" m m'] by (simp add: getUpdateParam_def Let_def)
  moreover obtain b y n r where a: "getUpdateParam tx m = ((b, y, n), r)" by (metis surj_pair)
  ultimately obtain r' where a': "getUpdateParam tx m' = ((b, y, n), r')" by (metis fst_conv surj_pair)
  show ?thesis
    unfolding runContract_def quick_update_eq [OF a] quick_update_eq [OF a'] by (simp split: sum.split)
qed

lemma quick_loop_nth:
  "i < length txs \<Longrightarrow> \<exists>m'. quick_loop v version txs m ! i = fst (runContract v version (txs ! i) m')"
proof (induction txs arbitrary: i m)
  case (Cons t ts)
  obtain out m' where o: "runContract v version t m = (out, m')" by (cases "runContract v version t m") auto
  show ?case
  proof (cases i)
    case 0
    then show ?thesis using o by (auto intro: exI [of _ m])
  next
    case (Suc j)
    then show ?thesis using Cons.IH [of j m'] Cons.prems o by simp
  qed
qed simp

text \<open>A verifier on the same state gets the read-write sets and the results of the block.\<close>

lemma quick_block_verifies:
  assumes "quick_Schedule version txs s = (blockTxs, dag, rwSets)" and "GetKey s' = GetKey s"
  shows "fst (quick_SimulateWithDag version blockTxs s') = rwSets" and "length dag = length blockTxs"
    and "snd (quick_SimulateWithDag version blockTxs s') = fold (\<lambda>tx. AList.update (TxId tx) (the (tx_Result tx))) blockTxs []"
proof -
  let ?outs = "quick_loop (GetKey s) version txs []"
  have b: "blockTxs = map2 (\<lambda>tx (r, _). tx\<lparr>tx_Result := Some r\<rparr>) txs ?outs" "dag = genDefaultDag (length txs)" "rwSets = rwSet_map ?outs"
    using assms(1) by (simp_all add: quick_Schedule_def Let_def)
  have "map tx_Payload blockTxs = map tx_Payload txs"
    unfolding b(1) by (rule nth_equalityI) (simp_all add: split_beta)
  then have o: "quick_loop (GetKey s') version blockTxs [] = ?outs"
    unfolding assms(2) by (rule quick_loop_payload)
  show "fst (quick_SimulateWithDag version blockTxs s') = rwSets" using o b(3) by (simp add: quick_SimulateWithDag_def Let_def)
  show "length dag = length blockTxs" using b by (simp add: genDefaultDag_def)
  have "map (\<lambda>(tx, r, _). (TxId tx, r)) (zip blockTxs ?outs) = map (\<lambda>tx. (TxId tx, the (tx_Result tx))) blockTxs"
    unfolding b(1) by (rule nth_equalityI) (simp_all add: split_beta)
  moreover have "fold (\<lambda>(tx, r, _). AList.update (TxId tx) r) xs acc = fold (\<lambda>(k, r). AList.update k r) (map (\<lambda>(tx, r, _). (TxId tx, r)) xs) acc"
    for xs :: "(Transaction \<times> Result \<times> TxRWSet) list" and acc by (induction xs arbitrary: acc) auto
  moreover have "fold (\<lambda>tx. AList.update (TxId tx) (the (tx_Result tx))) xs acc =
      fold (\<lambda>(k, r). AList.update k r) (map (\<lambda>tx. (TxId tx, the (tx_Result tx))) xs) acc" for xs acc
    by (induction xs arbitrary: acc) auto
  ultimately show "snd (quick_SimulateWithDag version blockTxs s') = fold (\<lambda>tx. AList.update (TxId tx) (the (tx_Result tx))) blockTxs []"
    by (simp add: quick_SimulateWithDag_def o Let_def)
qed

lemma default_dag_accepted: "\<exists>r. initSimulateDag (genDefaultDag n) = Inr r"
proof -
  have "\<exists>r. initSimulateDag_loop k (replicate n (Some [])) batch remain reverse = Inr r" for k batch remain reverse
    by (induction n arbitrary: k batch) simp_all
  then show ?thesis by (simp add: initSimulateDag_def genDefaultDag_def)
qed

section \<open>Nonces\<close>

text \<open>A requested nonce is accepted exactly when it is above the stored one.\<close>

lemma requested_nonce:
  assumes "ParseInt nonce = Some k" and "bytes_len b = 0 \<and> old = 0 \<or> (\<exists>x. b = Some x \<and> x \<noteq> [] \<and> ParseInt x = Some old)"
  shows "next_nonce b nonce = (if k > old then Inr (word_of_int k) else Inl ''sz update fail nonce invalid request nonce should be more than the last'')"
proof -
  have "nonce \<noteq> []" using assms(1) by (auto simp: ParseInt_def)
  then show ?thesis using assms by (auto simp: next_nonce_def bytes_len_def split: option.splits)
qed

text \<open>
  Two updates of one object with the same nonce succeed in one
  block, although the second would be refused after the first; and a transaction without nonce takes over the
  one of an earlier transaction, because the parameters are collected in one map.
\<close>

lemmas quick_eval = runContract_def quick_update_def getUpdateParam_def getSimContextKey_def genDefaultTxResult_def getErrResult_def
  next_nonce_def ParseInt_def bytes_len_def FormatInt_def sim_Put_error sim_Get_def NewTxSimContext_def getFromWriteSet_def getFromReadSet_def
  getFromRelyCache_def maxKeyLength_def char_of_def bit_0 Let_def

definition quick_demo_tx :: "string \<Rightarrow> (string \<times> bytes) list \<Rightarrow> Transaction" where
  "quick_demo_tx txId ps =
     \<lparr>tx_Payload = \<lparr>p_TxId = txId, p_TxType = INVOKE_CONTRACT, p_ContractName = ''RECEPIT'', p_Method = ''Update'', p_Parameters = ps,
        p_Limit = None\<rparr>, tx_Result = None\<rparr>"

lemma quick_updates_same_nonce:
  "let t = (\<lambda>i. quick_demo_tx i [(''bizId'', Some ''a''), (''businessType'', Some ''b''), (''nonce'', Some ''5'')]);
       outs = quick_loop (\<lambda>_ _. Inr None) v235 [t ''t1'', t ''t2''] [];
       after = (\<lambda>c k. if c = ''RECEPIT'' \<and> k = ''ab'' then Inr (Some ''5'') else Inr None)
   in map (\<lambda>(r, rw). (res_Code r, map w_Value (TxWrites rw))) outs = [(SUCCESS, [Some ''5'']), (SUCCESS, [Some ''5''])] \<and>
      map (\<lambda>(r, _). res_Code r) (quick_loop after v235 [t ''t2''] []) = [CONTRACT_FAIL]"
  by (simp add: quick_eval quick_demo_tx_def)

lemma quick_nonce_carried_over:
  "let t1 = quick_demo_tx ''t1'' [(''bizId'', Some ''a''), (''businessType'', Some ''b''), (''nonce'', Some ''5'')];
       t2 = quick_demo_tx ''t2'' [(''bizId'', Some ''c''), (''businessType'', Some ''b'')];
       v = (\<lambda>c k. if k = ''cb'' then Inr (Some ''7'') else Inr None)
   in map (\<lambda>(r, _). res_Code r) (quick_loop v v235 [t2] []) = [SUCCESS] \<and>
      map (\<lambda>(r, _). res_Code r) (quick_loop v v235 [t1, t2] []) = [SUCCESS, CONTRACT_FAIL]"
  by (simp add: quick_eval quick_demo_tx_def)

end
