(* ===== verification/Spec2Isabelle.thy ===== *)
theory Spec2Isabelle
  imports DemoTx SenderGroup DemoSync QuickSchedule
begin

text \<open>
  A verification of the transaction schedulers of the PDCC blockchain node (a fork of ChainMaker): from the
  simulation of a transaction and the block snapshot through three deterministic schedulers and the optimistic
  default scheduler with its gas accounting to the replay of a block, and block synchronisation.

  \<^bold>\<open>The program.\<close> A proposer takes a batch of transactions from the pool and schedules them on a snapshot of the
  state, which yields the block: its transactions, their results and read-write sets, and for the default scheduler a dependency
  graph. A verifier executes the block again and compares. Execution of a transaction
  (\<^verbatim>\<open>executeTx\<close>, \<^verbatim>\<open>CommonVMHelper.ExecuteTx\<close>) runs a contract in a simulation context that records what is read and
  written; the scheduler decides when executions happen, which ones are applied to the snapshot and which are repeated.
  Blocks a node has missed are fetched by the synchronisation from its peers.

  \<^bold>\<open>The theories and the code they model.\<close> Paths are below \<^verbatim>\<open>src/\<close>; definitions have the names of the functions, records
  the fields of the structs, prefixed where two share a name.

  \<^item> Prelude: messages (\<^verbatim>\<open>pb-go\<close>), views of the state, and \<open>go_runtime\<close>, the choices of map order, interleaving and clock.
  \<^item> ShardMap, Snapshot: \<^verbatim>\<open>module/snapshot/shard_map.go\<close> and \<^verbatim>\<open>snapshot_impl.go\<close>. A snapshot is
    the record \<open>SnapshotImpl\<close>; \<open>GetKey\<close>, \<open>ApplyTxSimContext\<close> and the others take it and return it updated.
  \<^item> SimContext: \<^verbatim>\<open>vm/v2/tx_sim_context.go\<close>. A contract is a tree of requests (\<open>prog\<close>), run against the frames of the context.
  \<^item> Executor: the interface between schedulers and execution, two locales whose laws say that an execution depends on the state
    only through what it records as read.
  \<^item> VMCore, CommonVM: \<^verbatim>\<open>deterministic/common_vm.go\<close>, execution for the deterministic schedulers.
  \<^item> TxVM, SenderCollection, TxExec: \<^verbatim>\<open>run_vm.go\<close>, \<^verbatim>\<open>gas.go\<close>, \<^verbatim>\<open>sender_collection.go\<close> and \<^verbatim>\<open>executeTx\<close> of
    \<^verbatim>\<open>scheduler.go\<close>, execution for the default scheduler with optimised charging of gas.
  \<^item> PDCC, Aria, Serial: the schedulers of \<^verbatim>\<open>deterministic/pdcc\<close>, \<^verbatim>\<open>deterministic/Aria\<close> and \<^verbatim>\<open>deterministic/serial\<close>.
    Rounds is the loop PDCC and Aria share.
  \<^item> OCC: the workers of the default scheduler (\<^verbatim>\<open>handleTx\<close>), an inductive step relation over executions in flight.
  \<^item> ConflictsWindow, SenderGroup: the size of its worker pool and the dispatching by sender.
  \<^item> Bitmap, DAG: the dependency graph (\<^verbatim>\<open>BuildDAG\<close>) on the bitmaps of \<^verbatim>\<open>common/v2/bitmap\<close>.
  \<^item> Special, ChargeGas: the end of \<^verbatim>\<open>Schedule\<close>, special transactions and the transaction that charges the gas of the block.
  \<^item> DagReplay: \<^verbatim>\<open>SimulateWithDag\<close>, with the channels of its loop and its goroutines as a step relation.
  \<^item> Sync, SyncSystem: \<^verbatim>\<open>module/sync\<close>; handlers as functions, the two routines and their environment as a step relation.
  \<^item> QuickSchedule: the quick path of the default scheduler (\<^verbatim>\<open>canUseQuickSchedule\<close>, \<^verbatim>\<open>runContract\<close>), a loop over native contract calls.

  \<^bold>\<open>What is shown.\<close>

  \<^item> Serializability. PDCC_Serial and Aria_Serial: a block of PDCC has the outcomes of the serial execution in
    block order (C1), independent of map orders and interleavings (C4), and every block ends (C2); a block of Aria those of a serial
    order (C6); which transactions a round commits (C3, C7). OCC: what the default scheduler has applied is
    serializable in table order, in every reachable state (C5). Serial: the serial scheduler is the reference (C29, C30).
  \<^item> Proposer and verifier. DAG, DagCover: every conflict of a block has a path in its graph (C12). DagReplay_Serial,
    DagReplay_Live: replay by such a graph respects it (C10), reproduces the read-write sets and can always
    end (C9). Transparency, Special, Blocks: the block of the default scheduler is accepted by a verifier with the same
    store (C8), and caches and carried results do not matter (C23). C11 is the check of malformed graphs.
  \<^item> Execution. An outcome depends only on the recorded reads (C21), which carry the values of the state (C22).
  \<^item> Gas. Balance, ChargeGas: accounts are never overdrawn (C15), what is reported is charged (C16), grouping and dispatching
    stay within balances (C17, C18), the charging transaction passes its verification and charges what is owed (C13, C14).
  \<^item> Snapshot. Tables fit together (C25), a sealed snapshot stays (C26), concurrent writing refines sequential writing (C24).
  \<^item> Tuning and dispatching. C32 to C35.
  \<^item> Synchronisation. Blocks are committed in order and none is lost (C36); SyncProgress: it does not get stuck (C37).
  \<^item> Quick path. Its blocks pass verification (C39), and their transactions do not see each other (C40).
  \<^item> Where the code does not do what it means to. PDCC loses one of two writes to the same key string in two
    contracts (C27), joined keys alias (C28), the greatest gas limit passes an empty account (C19), checked subtraction refuses true
    differences (C20), proposer and verifier treat a missing gas limit differently (C31), the pool shrinks at moderate conflict
    rates (C33), an unknown payer ends the dispatching (C35), and larger request batches can lock up the synchronisation (C38).
    On the quick path two updates with one nonce succeed in a block (C40).

  Interfaces are the locales \<open>kv_table\<close> (ShardMap), \<open>bitset\<close> (Bitmap), \<open>executor\<close> and \<open>read_executor\<close> (Executor) and
  \<open>round_loop\<close> (Rounds), interpreted on the definitions of the components. The properties have
  witnesses on the small chains of the theories Demo, DemoTx and DemoSync.

  \<^bold>\<open>Modelling decisions.\<close> Byte strings and keys are character lists. Gas, balances and hashes are words of their width,
  so sums wrap around as in Go; heights, sizes and times of the synchronisation are natural numbers, with the one subtraction that can wrap
  around written out. Errors are values of sum or option types, panics \<open>None\<close>. Goroutines are interleavings of
  atomic steps, each what the code does under one lock or in one channel operation. The nesting of contract calls is
  bounded by the depth limit of the code, which is the fuel of \<open>run_prog\<close>, so the bound is the program's own; the loops of PDCC and Aria
  return after at most one round per transaction, which is proved. All other recursion is structural. Virtual machines, contract code,
  signatures, certificate-based payers and the store are arguments of the definitions. Executions before
  version 2.3.5 can record reads of their own writes; the property on recorded values (C22), the replay and the optimistic
  scheduler are stated from that version on.

  \<^bold>\<open>Not modelled.\<close> Networking, storage, cryptography and the consensus engines are outside the repository. Of the
  modelled components: iterators, SQL and history queries of the simulation context; the evidence scheduler and
  snapshot; the manager of snapshots; access control and the proposal cache; block assembly and verification around the schedulers (\<^verbatim>\<open>block_helper.go\<close>, \<^verbatim>\<open>tx_helper.go\<close>,
  proposer and verifier loops), which compose hashing, signatures, pool and message bus; RPC, subscriptions,
  life cycle, monitoring and tools.
\<close>

section \<open>PDCC\<close>





text \<open>
  C3. What a round commits: a transaction is aborted exactly when it has read a key string that a
  committed transaction before it writes. The tagging, merging, detection and re-validation phases
  together compute this greedy choice.
\<close>

theorem pdcc_round_commits:
  assumes "i < length ts"
  shows "round_flags (round_infos ex s ts) ! i \<longleftrightarrow>
    (\<exists>j<i. \<not> round_flags (round_infos ex s ts) ! j \<and>
       (\<exists>w\<in>set (writes_of (ex (GetKey s) (ts ! j))). \<exists>r\<in>set (reads_of (ex (GetKey s) (ts ! i))). w_Key w = r_Key r))"
proof -
  have "raw_on (round_infos ex s ts) j i \<longleftrightarrow> (\<exists>w\<in>set (writes_of (ex (GetKey s) (ts ! j))).
      \<exists>r\<in>set (reads_of (ex (GetKey s) (ts ! i))). w_Key w = r_Key r)" if "j < i" for j
    using that assms by (simp add: raw_on_def round_infos_nth)
  then show ?thesis
    using round_flags_iff(2) [OF tagged_round_infos, of i ex s ts] assms by (simp cong: conj_cong)
qed

theorem pdcc_round_commits_witness:
  "round_flags (round_infos demo_exec demo_snapshot demo_txs) ! 1 \<longleftrightarrow>
    (\<exists>j<1. \<not> round_flags (round_infos demo_exec demo_snapshot demo_txs) ! j \<and>
       (\<exists>w\<in>set (writes_of (demo_exec (GetKey demo_snapshot) (demo_txs ! j))).
        \<exists>r\<in>set (reads_of (demo_exec (GetKey demo_snapshot) (demo_txs ! 1))). w_Key w = r_Key r))"
  by (rule pdcc_round_commits) (simp add: demo_txs_def)


definition reversed_runtime :: go_runtime where
  "reversed_runtime = \<lparr>map_order = rev, interleave = (\<lambda>wss. rev (concat wss)), timed_out = (\<lambda>_. False)\<rparr>"


section \<open>Optimistic scheduling\<close>



section \<open>Aria\<close>

text \<open>
  C6. A block scheduled by Aria is serializable. For every interleaving of the goroutines that reserve
  keys and apply writes, the scheduler returns after at most one round per transaction; there is an order
  of the committed transactions in which their serial execution from the initial state has the results
  stored in the block and the read-write sets stored under their ids, and leads to the state the
  snapshot shows. The order need not be the order of the block.
\<close>

theorem aria_block_serializable:
  assumes "wf_aria_runtime rt" and "as_batchSize sch > 0" and "wf_snap s" and "\<not> IsSealed s"
    and "total_view (GetKey s)" and "distinct_writes (vm_exec h version cache) (set txs)"
    and "\<forall>t\<in>set txs. vm_covered h t" and "distinct (map TxId txs)"
  shows "\<exists>n st ord outs.
    aria_Schedule rt (vm_exec h version cache) sch txs s = Some (sch\<lparr>as_txRWSetMap := as_rwSets st\<rparr>, n, st) \<and>
    n \<le> length txs \<and> (as_txBatch st = [] \<or> timed_out (ar_go rt) n) \<and>
    mset ord + mset (as_txBatch st) = mset txs \<and>
    serial_run (vm_exec h version cache) (GetKey s) ord = (outs, GetKey (as_snapshot st)) \<and>
    mset (as_blockTxs st) = mset (map2 (\<lambda>t out. t\<lparr>tx_Result := snd out\<rparr>) ord outs) \<and>
    (\<forall>(t, out)\<in>set (zip ord outs). map_of (as_rwSets st) (TxId t) = Some (fst out))"
proof -
  obtain n st ord where "aria_Schedule rt (vm_exec h version cache) sch txs s =
        Some (sch\<lparr>as_txRWSetMap := as_rwSets st\<rparr>, n, st)"
      and "aria_inv (vm_exec h version cache) txs (GetKey s) st ord" and "n \<le> length txs"
      and "as_txBatch st = [] \<or> timed_out (ar_go rt) n"
    using vm.aria_block [OF assms] by blast
  moreover obtain outs v where "serial_run (vm_exec h version cache) (GetKey s) ord = (outs, v)" by force
  ultimately show ?thesis
    by (intro exI [of _ n] exI [of _ st] exI [of _ ord] exI [of _ outs]) (simp add: aria_inv_def)
qed

theorem aria_block_serializable_witness:
  "\<exists>n st ord outs.
    aria_Schedule sequential_runtime demo_exec NewAriaScheduler demo_txs demo_snapshot =
      Some (NewAriaScheduler\<lparr>as_txRWSetMap := as_rwSets st\<rparr>, n, st) \<and>
    n \<le> length demo_txs \<and> (as_txBatch st = [] \<or> timed_out (ar_go sequential_runtime) n) \<and>
    mset ord + mset (as_txBatch st) = mset demo_txs \<and>
    serial_run demo_exec (GetKey demo_snapshot) ord = (outs, GetKey (as_snapshot st)) \<and>
    mset (as_blockTxs st) = mset (map2 (\<lambda>t out. t\<lparr>tx_Result := snd out\<rparr>) ord outs) \<and>
    (\<forall>(t, out)\<in>set (zip ord outs). map_of (as_rwSets st) (TxId t) = Some (fst out))"
proof (rule aria_block_serializable)
  show "as_batchSize NewAriaScheduler > 0" by (simp add: NewAriaScheduler_def)
  show "distinct (map TxId demo_txs)" by (simp add: demo_txs_def demo_tx_def)
qed (simp_all add: demo_txs_covered demo_distinct_writes)

text \<open>
  C7. What a round of Aria decides, whatever the interleaving of the reservations: a transaction is
  aborted exactly when an earlier one writes a key it writes, or when an earlier one has read a key it writes and an
  earlier one writes a key it has read.
\<close>

theorem aria_round_decides:
  assumes "wf_aria_runtime rt" and "i < length ts"
  shows "aria_flags rt (aria_execute ex s ts) ! i \<longleftrightarrow>
    (\<exists>j<i. \<exists>w\<in>set (writes_of (ex (GetKey s) (ts ! j))). \<exists>w'\<in>set (writes_of (ex (GetKey s) (ts ! i))). wkey w = wkey w') \<or>
    (\<exists>j<i. feeds (ex (GetKey s) (ts ! i)) (ex (GetKey s) (ts ! j))) \<and>
    (\<exists>j<i. feeds (ex (GetKey s) (ts ! j)) (ex (GetKey s) (ts ! i)))"
proof -
  let ?I = "aria_execute ex s ts"
  have "waw_with ?I j i \<longleftrightarrow> (\<exists>w\<in>set (writes_of (ex (GetKey s) (ts ! j))).
      \<exists>w'\<in>set (writes_of (ex (GetKey s) (ts ! i))). wkey w = wkey w')"
    "raw_with ?I j i \<longleftrightarrow> feeds (ex (GetKey s) (ts ! j)) (ex (GetKey s) (ts ! i))"
    "raw_with ?I i j \<longleftrightarrow> feeds (ex (GetKey s) (ts ! i)) (ex (GetKey s) (ts ! j))" if "j < i" for j
    using that assms(2) by (simp_all add: waw_with_def raw_with_def feeds_iff aria_execute_nth)
  then show ?thesis
    using aria_flags_iff [OF assms(1), of i ?I] assms(2) by (simp add: aria_aborts_def cong: conj_cong)
qed

theorem aria_round_decides_witness:
  "aria_flags sequential_runtime (aria_execute demo_exec demo_snapshot demo_txs) ! 1 \<longleftrightarrow>
    (\<exists>j<1. \<exists>w\<in>set (writes_of (demo_exec (GetKey demo_snapshot) (demo_txs ! j))).
       \<exists>w'\<in>set (writes_of (demo_exec (GetKey demo_snapshot) (demo_txs ! 1))). wkey w = wkey w') \<or>
    (\<exists>j<1. feeds (demo_exec (GetKey demo_snapshot) (demo_txs ! 1)) (demo_exec (GetKey demo_snapshot) (demo_txs ! j))) \<and>
    (\<exists>j<1. feeds (demo_exec (GetKey demo_snapshot) (demo_txs ! j)) (demo_exec (GetKey demo_snapshot) (demo_txs ! 1)))"
  by (rule aria_round_decides) (simp_all add: demo_txs_def)

section \<open>Proposed blocks and their replay\<close>



text \<open>
  C9. The verifier's loop is never stuck. Take a block whose graph covers the conflicts between its
  transactions, as their serial execution from the store determines them. From every state the replay can
  reach without having ended, whatever the interleaving so far, it can reach its regular end with all
  transactions applied: no channel blocks for good and no transaction waits for ever.
\<close>

theorem replay_can_end:
  assumes "serial_run (tx_exec h (v235 + d) cache col) (ReadObject store) txs = (outs, v)"
    and "dag_covers dag (map fst outs)" and "unambiguous (rw_pairs (map fst outs))"
    and "total_view (ReadObject store)" and "\<forall>t\<in>set txs. tx_covered h (v235 + d) t" and "txs \<noteq> []"
    and "\<And>l. mset (order l) = mset l"
    and "SimulateWithDag_start (v235 + d) txs dag (makeSnapshotImpl store ver) = Inr (Some st0)"
    and "sim_reach order (length txs) (tx_exec h (v235 + d) cache col) txs st0 st" and "\<not> sm_finished st"
  shows "\<exists>st'. sim_reach order (length txs) (tx_exec h (v235 + d) cache col) txs st st' \<and> sm_finished st' \<and>
    length (sm_applied st') = length txs"
proof -
  have len: "length dag = length txs"
    using assms(1,2) length_serial_run [of "tx_exec h (v235 + d) cache col" "ReadObject store" txs] by (simp add: dag_covers_def)
  obtain init where init: "initSimulateDag dag = Inr init" "st0 = sim_start (makeSnapshotImpl store ver) init"
    using assms(6,8) by (auto simp: SimulateWithDag_start_def split: if_splits sum.splits)
  have "dag \<noteq> []" using len assms(6) by auto
  note start = replay_inv_start [OF init(1) this, of txs store outs ver, folded init(2)]
  have "replay_inv dag txs (ReadObject store) outs st"
    using executor.replay_inv_reach [OF txvm.executor_axioms _ start assms(7,2,3,4,1,5)] assms(9) len by simp
  from read_executor.replay_ends_values [OF txvm235.read_executor_axioms this assms(2,7,3,4,1,5,1,4,5,10)]
  show ?thesis using assms(6) by (simp add: len)
qed

theorem replay_can_end_witness:
  "\<exists>st0 st'. SimulateWithDag_start (v235 + 300) [demo_tx ''t1'' ''a''] [Some []] demo_snapshot = Inr (Some st0) \<and>
    sim_reach rev 1 demo_tx_exec [demo_tx ''t1'' ''a''] st0 st' \<and> sm_finished st' \<and> length (sm_applied st') = 1"
proof -
  let ?txs = "[demo_tx ''t1'' ''a'']"
  obtain v where run: "serial_run demo_tx_exec (ReadObject demo_store) ?txs = ([demo_out], v)"
    by (simp add: demo_tx_exec_out Let_def)
  obtain st0 where st0: "SimulateWithDag_start (v235 + 300) ?txs [Some []] (makeSnapshotImpl demo_store 2030800) = Inr (Some st0)"
      "\<not> sm_finished st0"
    by (simp add: SimulateWithDag_start_def initSimulateDag_def sim_start_def)
  have "dag_covers [Some []] (map fst [demo_out])" "\<forall>t\<in>set ?txs. tx_covered demo_helper (v235 + 300) t"
      "unambiguous (rw_pairs (map fst [demo_out]))"
    using demo_covers demo_batch_covered unambiguous_mono [OF demo_unambiguous]
    by (auto simp: rw_pairs_def demo_out_def demo_txs_def)
  from replay_can_end [OF run this(1,3) demo_store_total this(2) _ _ st0(1) sim_reach.here st0(2), of rev] st0(1)
  show ?thesis unfolding demo_snapshot_def by fastforce
qed

text \<open>
  C10. The replay respects the graph: in every state it can reach, a transaction that is executing, or has
  been handed to the pool, has all its neighbours finished and their messages handled; every transaction is in
  one place at most, so none is executed twice; and a transaction not yet released still waits for exactly
  its unfinished neighbours.
\<close>

theorem replay_respects_dag:
  assumes "SimulateWithDag_start version txs dag snapshot = Inr (Some st0)" and "\<And>l. mset (order l) = mset l"
    and "sim_reach order n ex txs st0 st"
  shows "distinct (released st) \<and>
    (\<forall>i\<in>set (sm_submitted st) \<union> fst ` set (sm_executing st). i < length dag \<and> deps dag i \<subseteq> set (sm_handled st)) \<and>
    (\<forall>i<length dag. i \<notin> set (released st) \<longrightarrow>
       deps dag i - set (sm_handled st) \<noteq> {} \<and> set (waits (sm_dagRemain st) i) = deps dag i - set (sm_handled st))"
proof -
  obtain init where "initSimulateDag dag = Inr init" "st0 = sim_start snapshot init"
    using assms(1) by (auto simp: SimulateWithDag_start_def split: if_splits sum.splits)
  then have ctrl: "sim_ctrl dag st"
    using sim_ctrl_reach [OF assms(3) _ assms(2)] sim_ctrl_start by simp
  then have rel: "i \<in> set (released st) \<longleftrightarrow> i < length dag \<and> deps dag i \<subseteq> set (sm_handled st)" for i
    by (simp add: sim_ctrl_def)
  have "i \<in> set (released st)" if "i \<in> set (sm_submitted st) \<union> fst ` set (sm_executing st)" for i
    using that by (auto simp: released_def)
  then show ?thesis
    using ctrl rel by (auto simp: sim_ctrl_def)
qed

theorem replay_respects_dag_witness:
  "\<exists>st0. SimulateWithDag_start (v235 + 300) demo_txs [Some [], Some [0]] demo_snapshot = Inr (Some st0) \<and>
    released st0 = [0] \<and> set (waits (sm_dagRemain st0) 1) = {0}"
proof -
  obtain st0 where st0: "SimulateWithDag_start (v235 + 300) demo_txs [Some [], Some [0]] demo_snapshot = Inr (Some st0)"
      "released st0 = [0]" "sm_handled st0 = []"
    by (simp add: SimulateWithDag_start_def initSimulateDag_def sim_start_def released_def demo_txs_def)
  from replay_respects_dag [OF st0(1) _ sim_reach.here, of rev] have "set (waits (sm_dagRemain st0) 1) = {0}"
    using st0(2,3) by (auto simp: deps_def)
  with st0 show ?thesis by blast
qed

text \<open>
  C11. Which graphs a verifier accepts: \<^verbatim>\<open>initSimulateDag\<close> returns an error exactly where a vertex is
  missing, its neighbours are not strictly increasing, or one of them is not before it; otherwise it
  starts with the transactions that have no neighbours, in the order of the block.
\<close>

theorem accepted_graphs:
  "(case initSimulateDag dag of
      Inl e \<Rightarrow> \<not> (\<forall>i<length dag. \<exists>ns. dag ! i = Some ns \<and> sorted_wrt (<) ns \<and> (\<forall>j\<in>set ns. j < i))
    | Inr (batch, remain, reverse) \<Rightarrow>
        (\<forall>i<length dag. \<exists>ns. dag ! i = Some ns \<and> sorted_wrt (<) ns \<and> (\<forall>j\<in>set ns. j < i)) \<and>
        batch = filter (\<lambda>i. dag ! i = Some []) [0..<length dag])"
proof -
  have "filter (\<lambda>i. deps dag i = {}) [0..<length dag] = filter (\<lambda>i. dag ! i = Some []) [0..<length dag]" if "dag_ok dag"
    using that by (intro filter_cong refl) (auto simp: dag_ok_def deps_def)
  then show ?thesis
    using initSimulateDag_cases [of dag] unfolding dag_ok_def [symmetric]
    by (auto simp: built_def split: sum.splits prod.splits)
qed

theorem accepted_graphs_witness:
  "\<exists>e. initSimulateDag [Some [], Some [1]] = Inl e"
  using accepted_graphs [of "[Some [], Some [1]]"] by (cases "initSimulateDag [Some [], Some [1]]") (auto simp: All_less_Suc)



section \<open>Gas\<close>

text \<open>
  C13. A proposer's charge verifies: where every transaction of the block has a result and a payer, the
  same for both nodes, the transaction a proposer of version 2.3.4 or later creates to charge the accounts
  passes the verifier's recomputation, in whatever order the maps are visited and whatever result the charging
  itself gets. The amounts survive printing and parsing.
\<close>

theorem charge_round_trip:
  assumes "version \<ge> blockVersion2340"
    and "\<forall>tx\<in>set (GetTxTable snapshot). charged_table h (GetKey snapshot) v' s (GetTxResultMap snapshot) tx"
    and "\<And>p. ce_sign ce p" and "\<And>l. mset (ce_orderGas ce l) = mset l" and "\<And>l. mset (order l) = mset l"
  shows "\<exists>tx. createChargeGasTx ce h version s snapshot = Inr tx \<and> is_charge_tx tx \<and>
    VerifyOptimizeChargeGasTx order h v' (GetTxTable snapshot @ [set_result r tx]) = None"
proof -
  obtain tx where "createChargeGasTx ce h version s snapshot = Inr tx"
      "VerifyOptimizeChargeGasTx order h v' (GetTxTable snapshot @ [set_result r tx]) = None"
    using charge_tx_verifies [OF assms, of r] by blast
  moreover from this(1) have "is_charge_tx tx"
    by (auto simp: createChargeGasTx_def is_charge_tx_def charge_payload_def Let_def split: option.splits if_splits)
  ultimately show ?thesis by blast
qed

theorem charge_round_trip_witness:
  "\<exists>tx. createChargeGasTx demo_charge_env demo_gas_helper (v235 + 300) demo_collection demo_charged_snapshot = Inr tx \<and>
    is_charge_tx tx \<and>
    VerifyOptimizeChargeGasTx rev demo_gas_helper (ReadObject demo_store) (GetTxTable demo_charged_snapshot @ [set_result None tx]) = None"
  by (rule charge_round_trip [OF _ demo_charged_table]) (simp_all add: v235_def blockVersion2340_def demo_charge_env_ok)

text \<open>
  C14. What a verified block charges: where the recomputation accepts a block that ends with its only charging
  transaction, the parameters of that transaction give every account exactly the 64-bit sum of the gas of the
  transactions it pays for, and name no other account.
\<close>

theorem verified_block_charges:
  assumes "VerifyOptimizeChargeGasTx order h v (txs @ [tx]) = None" and "is_charge_tx tx"
    and "\<forall>t\<in>set txs. \<not> is_charge_tx t" and "\<And>l. mset (order l) = mset l"
  shows "\<exists>charged. read_charges (p_Parameters (tx_Payload tx)) [] = Inr charged \<and> map_of charged = total_paid h v txs"
  using verified_charges [OF assms] .

theorem verified_block_charges_witness:
  "\<exists>tx charged. createChargeGasTx demo_charge_env demo_gas_helper (v235 + 300) demo_collection demo_charged_snapshot = Inr tx \<and>
    read_charges (p_Parameters (tx_Payload tx)) [] = Inr charged \<and> map_of charged ''addr'' = Some 7"
proof -
  let ?v = "ReadObject demo_store"
  have "v235 + 300 \<ge> blockVersion2340" by (simp add: v235_def blockVersion2340_def)
  from charge_tx_verifies [OF this demo_charged_table demo_charge_env_ok, of rev ?v None]
  obtain tx where tx: "createChargeGasTx demo_charge_env demo_gas_helper (v235 + 300) demo_collection demo_charged_snapshot = Inr tx"
      "VerifyOptimizeChargeGasTx rev demo_gas_helper ?v (GetTxTable demo_charged_snapshot @ [set_result None tx]) = None"
    by auto
  have "is_charge_tx (set_result None tx)"
    using tx(1) by (auto simp: createChargeGasTx_def is_charge_tx_def charge_payload_def Let_def split: option.splits if_splits)
  moreover have "\<forall>t\<in>set (GetTxTable demo_charged_snapshot). \<not> is_charge_tx t"
    using demo_charged_table by (simp add: charged_table_def)
  ultimately obtain charged where "read_charges (p_Parameters (tx_Payload tx)) [] = Inr charged"
      "map_of charged = total_paid demo_gas_helper ?v (GetTxTable demo_charged_snapshot)"
    using verified_block_charges [OF tx(2)] by auto
  then show ?thesis
    using tx(1) by (simp add: total_paid_def paid_by_def gas_of_def GetTxTable_def demo_charged_snapshot_def demo_used_def)
qed


text \<open>
  C16. The gas a transaction reports is the gas its payer's account is charged, without wrapping around:
  for a charged invocation whose payer is in order, however the run ended (refused for lack of
  balance, failed, out of gas or successful), the total of that account grows by exactly the gas in the result, and no
  other account changes.
\<close>

theorem reported_gas_is_charged:
  assumes "version \<ge> blockVersion2340" and "IsOptimizeChargeGasEnabled h"
    and "checkNativeFilter h version (p_ContractName (tx_Payload tx)) (p_Method (tx_Payload tx)) tx v"
    and "p_TxType (tx_Payload tx) = INVOKE_CONTRACT" and "find_collection s tx = Some (a, c)"
    and "tc_accountStatus c = SUCCESS" and "executeTx h version cache s v tx = (er, s')"
  shows "\<exists>res c'. sc_txResult (er_ctx er) = Some res \<and> map_of (sn_txsMap s') = (map_of (sn_txsMap s))(a \<mapsto> c') \<and>
    unat (tc_totalGasUsed c') = unat (tc_totalGasUsed c) + unat (cr_GasUsed (res_ContractResult res)) \<and>
    tc_accountBalance c' = tc_accountBalance c"
  using executeTx_accounts [OF assms] .

theorem reported_gas_is_charged_witness:
  "\<exists>er s' res c'. executeTx demo_gas_helper (v235 + 300) [] demo_collection (ReadObject demo_store) (demo_gas_tx ''t1'' 60) = (er, s') \<and>
    sc_txResult (er_ctx er) = Some res \<and> map_of (sn_txsMap s') ''addr'' = Some c' \<and>
    unat (tc_totalGasUsed c') = unat (cr_GasUsed (res_ContractResult res))"
proof -
  obtain er s' where ex: "executeTx demo_gas_helper (v235 + 300) [] demo_collection (ReadObject demo_store) (demo_gas_tx ''t1'' 60) = (er, s')"
    by force
  have "find_collection demo_collection (demo_gas_tx ''t1'' 60) = Some (''addr'', demo_account)"
    by (simp add: find_collection_def demo_collection_def)
  from reported_gas_is_charged [OF _ _ _ _ this _ ex] ex show ?thesis
    by (auto simp: v235_def blockVersion2340_def demo_account_def)
qed

text \<open>
  C17. Grouping from version 2.3.4 on: the gas limits of the transactions an account in order pays
  for in parallel sum up to at most its balance; no transaction is scheduled twice; and where every transaction has
  a payer and the limits of the batch sum up to less than \<open>2 ^ 64\<close>, each one is in a parallel
  queue or among the special ones.
\<close>

theorem grouped_within_balance:
  assumes "version \<ge> blockVersion2340"
  shows "(\<forall>a c. map_of (sn_txsMap (NewSenderCollection h version cfg v txs)) a = Some c \<longrightarrow> tc_accountStatus c = SUCCESS \<longrightarrow>
      sum_list (map (charged_limit h version v) (tc_txs c)) \<le> unat (tc_accountBalance c)) \<and>
    queued_txs (sn_txsMap (NewSenderCollection h version cfg v txs)) + mset (sn_specialTxTable (NewSenderCollection h version cfg v txs))
      \<subseteq># mset txs \<and>
    (sum_list (map (charged_limit h version v) txs) < 2 ^ 64 \<and> (\<forall>tx\<in>set txs. \<exists>a. h_payerAddr h v tx = Inr a) \<longrightarrow>
      queued_txs (sn_txsMap (NewSenderCollection h version cfg v txs)) + mset (sn_specialTxTable (NewSenderCollection h version cfg v txs))
        = mset txs)"
  using assms getSenderTxCollection234_groups [of h version v no_collection txs]
  by (simp add: NewSenderCollection_def queues_ok_def queue_ok_def parallel_gas_def sums_fit_def queued_txs_def)

theorem grouped_within_balance_witness:
  "queued_txs (sn_txsMap (NewSenderCollection demo_gas_helper 2030800 2030800 (ReadObject demo_store)
      [demo_gas_tx ''t1'' 60, demo_gas_tx ''t2'' 60])) +
   mset (sn_specialTxTable (NewSenderCollection demo_gas_helper 2030800 2030800 (ReadObject demo_store)
      [demo_gas_tx ''t1'' 60, demo_gas_tx ''t2'' 60])) = {#demo_gas_tx ''t1'' 60, demo_gas_tx ''t2'' 60#}"
proof -
  have "sum_list (map (charged_limit demo_gas_helper 2030800 (ReadObject demo_store)) [demo_gas_tx ''t1'' 60, demo_gas_tx ''t2'' 60]) < 2 ^ 64"
    by (simp add: charged_limit_def)
  then show ?thesis
    using grouped_within_balance [of 2030800 demo_gas_helper 2030800 "ReadObject demo_store" "[demo_gas_tx ''t1'' 60, demo_gas_tx ''t2'' 60]"]
    by (simp add: blockVersion2340_def)
qed

text \<open>
  C18. Dispatching before version 2.3.4: with gas limits and balance below \<open>2 ^ 63\<close>, the limits of the
  transactions of one account that are dispatched without a failure sum up to at most its balance.
\<close>

theorem dispatched_within_balance:
  assumes "\<forall>tx\<in>set txs. tx_Result tx = None \<and> charged_limit h version v tx < 2 ^ 63" and "unat balance < 2 ^ 63"
  shows "sum_list (map (charged_limit h version v) (filter (\<lambda>tx. tx_Result tx = None) (dispatch_collection h version v addr txs balance)))
    \<le> unat balance"
  using dispatch_collection_covered [OF assms] .

theorem dispatched_within_balance_witness:
  "sum_list (map (charged_limit demo_gas_helper 2030300 (ReadObject demo_store)) (filter (\<lambda>tx. tx_Result tx = None)
     (dispatch_collection demo_gas_helper 2030300 (ReadObject demo_store) ''addr'' [demo_gas_tx ''t1'' 60, demo_gas_tx ''t2'' 60] 100))) \<le> 100"
  using dispatched_within_balance [of "[demo_gas_tx ''t1'' 60, demo_gas_tx ''t2'' 60]" demo_gas_helper 2030300 "ReadObject demo_store" 100 "''addr''"]
  by (simp add: charged_limit_def)

text \<open>
  C19. The bound is needed: before version 2.3.4 a transaction with the greatest gas limit passes the dispatcher
  with an empty account, whose counted balance then becomes \<open>1\<close>, because limit and balance are compared as
  signed numbers.
\<close>

theorem greatest_limit_dispatched:
  assumes "checkNativeFilter h version (p_ContractName (tx_Payload tx)) (p_Method (tx_Payload tx)) tx v"
    and "p_Limit (tx_Payload tx) = Some (2 ^ 64 - 1)" and "tx_Result tx = None"
  shows "dispatch_collection h version v addr [tx] 0 = [tx]"
  using dispatch_step_huge_limit [OF assms] by simp

theorem greatest_limit_dispatched_witness:
  "dispatch_collection demo_gas_helper 2030300 (ReadObject demo_store) ''addr'' [demo_gas_tx ''t1'' (2 ^ 64 - 1)] 0 =
     [demo_gas_tx ''t1'' (2 ^ 64 - 1)]"
  by (rule greatest_limit_dispatched) simp_all

text \<open>
  C20. Checked 64-bit arithmetic. The checked sum reports overflow exactly where the sum of the two numbers
  does not fit into 64 bits. The checked difference, which looks at the sign of the wrapped result, is
  given for a true difference below \<open>2 ^ 63\<close>, is refused above although it fits, and is also given, wrongly, for
  a subtrahend more than \<open>2 ^ 63\<close> above the minuend.
\<close>

theorem checked_arithmetic:
  "(uint64SafeAdd a b = (a + b, False) \<longleftrightarrow> unat a + unat b < 2 ^ 64) \<and>
   (uint64SafeSub a b = (a - b, False) \<longleftrightarrow>
      (if b \<le> a then unat a - unat b < 2 ^ 63 else 2 ^ 63 < unat b - unat a))"
proof -
  have "uint64SafeAdd a b = (a + b, False) \<longleftrightarrow> unat a + unat b < 2 ^ 64"
    using uint64SafeAdd_iff [of a b "a + b" False] by auto
  moreover have "uint64SafeSub a b = (a - b, False) \<longleftrightarrow> unat (a - b) < 2 ^ 63"
    by (simp add: uint64SafeSub_def Let_def sint_nonneg_iff)
  moreover have "unat (a - b) < 2 ^ 63 \<longleftrightarrow> (if b \<le> a then unat a - unat b < 2 ^ 63 else 2 ^ 63 < unat b - unat a)"
    by (rule unat_diff64)
  ultimately show ?thesis by simp
qed

section \<open>Executions\<close>



text \<open>
  C22. From block version 2.3.5 on the recorded reads are what the state holds: every entry of the read set
  of an execution carries the value of its key in the state the transaction ran on, also for keys the
  transaction itself has written before and for calls that were rolled back.
\<close>

theorem recorded_values_are_read:
  assumes "tx_covered h (v235 + d) t" and "total_view v" and "r \<in> set (reads_of (tx_exec h (v235 + d) cache col v t))"
  shows "v (r_ContractName r) (r_Key r) = Inr (r_Value r)"
  by (rule txvm235.exec_values [OF assms])

theorem recorded_values_are_read_witness:
  "ReadObject demo_store ''c'' ''a'' = Inr None"
proof -
  let ?r = "\<lparr>r_ContractName = ''c'', r_Key = ''a'', r_Value = None\<rparr>"
  have "tx_covered demo_helper (v235 + 300) (demo_tx ''t1'' ''a'')"
    by (rule demo_batch_covered) (simp add: demo_txs_def)
  from recorded_values_are_read [OF this demo_store_total, of ?r "[]" no_collection] show ?thesis
    by (simp add: demo_tx_exec_out demo_out_def)
qed

text \<open>
  C23. The contract cache is transparent: an execution that starts with a cache filled by earlier ones has the same
  read-write set and result as one that looks every contract up, and leaves a cache that agrees with the store again.
\<close>

theorem cache_transparent:
  assumes "coherent h cache"
  shows "tx_exec h version cache col v tx = tx_exec h version [] col v tx \<and>
    coherent h (er_cache (fst (executeTx h version cache col v tx)))"
  using tx_exec_cache [OF assms] executeTx_cache(3) [OF assms] by simp

theorem cache_transparent_witness:
  "tx_exec demo_helper (v235 + 300) [(''c'', \<lparr>c_Name = ''c'', c_RuntimeType = GO\<rparr>)] no_collection (ReadObject demo_store) (demo_tx ''t1'' ''a'')
     = demo_out"
proof -
  have "coherent demo_helper [(''c'', \<lparr>c_Name = ''c'', c_RuntimeType = GO\<rparr>)]"
    by (simp add: coherent_def demo_helper_def)
  from cache_transparent [OF this] show ?thesis by (simp add: demo_tx_exec_out)
qed

section \<open>The snapshot\<close>

text \<open>
  C24. Applying many writes with eight workers is applying them one after the other: for writes with
  distinct keys, however the batches of the workers interleave on the sharded table, the snapshot afterwards shows
  the state before with the writes applied.
\<close>

theorem parallel_writes_refine:
  assumes "wf_runtime rt" and "wf_snap s" and "\<not> IsSealed s" and "distinct (map wkey ws)"
  shows "GetKey (ApplyWritesToWriteTable rt ws s) = apply_writes (GetKey s) ws"
  using ApplyWrites_refines [OF assms(1) _ assms(3,4)] assms(2) by (simp add: wf_snap_def)

theorem parallel_writes_refine_witness:
  "GetKey (ApplyWritesToWriteTable reversed_runtime
      (map (\<lambda>i. \<lparr>w_ContractName = ''c'', w_Key = replicate i CHR ''k'', w_Value = Some ''1''\<rparr>) [0..<60]) demo_snapshot) ''c'' ''kk'' =
    Inr (Some ''1'')"
proof -
  let ?ws = "map (\<lambda>i. \<lparr>w_ContractName = ''c'', w_Key = replicate i CHR ''k'', w_Value = Some ''1''\<rparr>) [0..<60]"
  have d: "distinct (map wkey ?ws)"
    by (auto simp: distinct_map inj_on_def constructKey_def dest: arg_cong [of _ _ length])
  have "wf_runtime reversed_runtime"
    by (simp add: wf_runtime_def reversed_runtime_def)
  note parallel_writes_refine [OF this demo_wf d]
  moreover have "map_of (rev (map wkv ?ws)) (constructKey ''c'' ''kk'') = Some (Some ''1'')"
  proof (rule map_of_is_SomeI)
    show "distinct (map fst (rev (map wkv ?ws)))" using d by (simp add: comp_def rev_map [symmetric])
    show "(constructKey ''c'' ''kk'', Some ''1'') \<in> set (rev (map wkv ?ws))"
      by (auto simp: image_iff constructKey_def numeral_2_eq_2 intro!: bexI [of _ 2])
  qed
  ultimately show ?thesis by (simp add: apply_writes_def)
qed

text \<open>
  C25. The tables of a snapshot fit together after any sequence of operations: as many read-write sets as
  transactions, a result for exactly the applied transactions, and no entry of the write table with a
  sequence number beyond the applied transactions.
\<close>

datatype snap_op =
    Apply TxSimContext ExecOrderTxType bool bool | BulkWrites go_runtime "TxWrite list" | SealIt | SetPre "SnapshotImpl option"

primrec snap_do :: "snap_op \<Rightarrow> SnapshotImpl \<Rightarrow> SnapshotImpl" where
  "snap_do (Apply sim ty ok special) s = snd (ApplyTxSimContext sim ty ok special s)"
| "snap_do (BulkWrites rt ws) s = ApplyWritesToWriteTable rt ws s"
| "snap_do SealIt s = Seal s"
| "snap_do (SetPre pre) s = SetPreSnapshot pre s"

theorem snapshot_tables_fit:
  "wf_snap (fold snap_do ops (makeSnapshotImpl store ver))"
proof -
  have "wf_snap s \<Longrightarrow> wf_snap (snap_do op s)" for op s
    by (cases op) (auto simp: wf_ApplyTxSimContext)
  then have "wf_snap s \<Longrightarrow> wf_snap (fold snap_do ops s)" for s
    by (induction ops arbitrary: s) simp_all
  then show ?thesis by simp
qed

text \<open>
  C26. A sealed snapshot takes no further transaction: an application from the worker pool, of a normal
  or a special transaction, is refused, and neither it nor a bulk application of writes changes anything.
\<close>

theorem sealed_refuses:
  assumes "IsSealed s" and "specialTxType \<noteq> ExecOrderTxTypeChargeGas"
  shows "ApplyTxSimContext sim specialTxType ok False s = ((False, GetSnapshotSize s), s) \<and> ApplyWritesToWriteTable rt ws s = s"
  using assms
  by (cases specialTxType) (simp_all add: ApplyTxSimContext_def applyIteratorFirstRun_def applyNormalTxSimContext_def dealSZTx_def
      ApplyWritesToWriteTable_def Let_def)

theorem sealed_refuses_witness:
  "ApplyTxSimContext demo_sim ExecOrderTxTypeNormal True False (Seal demo_snapshot) =
     ((False, GetSnapshotSize (Seal demo_snapshot)), Seal demo_snapshot)"
  using sealed_refuses [of "Seal demo_snapshot" ExecOrderTxTypeNormal demo_sim True default_runtime "[]"]
  by (simp add: Seal_def IsSealed_def)

section \<open>Keys and contracts\<close>

text \<open>
  C27. PDCC loses a write where one transaction writes the same key string in two contracts: the
  transaction is committed in a round of its own, the second write is in the state, the first is not, since the
  writes of a round are merged by the key without the contract.
\<close>

theorem pdcc_loses_write:
  assumes "wf_runtime rt" and "wf_snap s" and "\<not> IsSealed s" and "bs > 0"
    and "ex (GetKey s) t = (\<lparr>rw_TxId = TxId t, TxReads = rs,
      TxWrites = [\<lparr>w_ContractName = c, w_Key = k, w_Value = x\<rparr>, \<lparr>w_ContractName = c', w_Key = k, w_Value = y\<rparr>]\<rparr>, res)"
    and "c \<noteq> c'"
  defines "st \<equiv> pdcc_round rt ex bs
      \<lparr>st_txBatch = [t], st_blockTxs = [], st_txRWSetMap = [], st_snapshot = s, st_roundCommittedTxs = []\<rparr>"
  shows "st_blockTxs st = [set_result res t] \<and> st_txBatch st = [] \<and>
    GetKey (st_snapshot st) c' k = Inr y \<and> GetKey (st_snapshot st) c k = GetKey s c k"
proof -
  let ?w = "\<lparr>w_ContractName = c', w_Key = k, w_Value = y\<rparr>"
  have flags: "round_flags (round_infos ex s [t]) = [False]"
    using round_flags_iff [OF tagged_round_infos [of ex s "[t]"]] by (auto simp: list_eq_iff_nth_eq)
  have one: "map_order rt [?w] = [?w]"
    using assms(1) by (metis mset_single_iff_right mset.simps wf_runtime_def)
  have "st_blockTxs st = [set_result res t] \<and> st_txBatch st = [] \<and> st_snapshot st = ApplyWritesToWriteTable rt [?w] s"
    using flags assms(4,5) one
    by (simp add: st_def pdcc_round_def select_txs_def round_infos_def tag_versions_def execute_txs_def exec_info_def
        commit_writes_def commit_info_def apply_merged_def reset_txs_def Let_def)
  moreover have "GetKey (ApplyWritesToWriteTable rt [?w] s) = apply_writes (GetKey s) [?w]"
    using ApplyWrites_refines [OF assms(1) _ assms(3), of "[?w]"] assms(2) by (simp add: wf_snap_def)
  ultimately show ?thesis
    using assms(6) by (auto simp: apply_writes_def constructKey_def)
qed

definition two_contracts :: exec_fun where
  "two_contracts v t = (\<lparr>rw_TxId = TxId t, TxReads = [],
     TxWrites = [\<lparr>w_ContractName = ''c'', w_Key = ''k'', w_Value = Some ''1''\<rparr>, \<lparr>w_ContractName = ''d'', w_Key = ''k'', w_Value = Some ''2''\<rparr>]\<rparr>,
     None)"

theorem pdcc_loses_write_witness:
  "GetKey (st_snapshot (pdcc_round default_runtime two_contracts 10
     \<lparr>st_txBatch = [demo_tx ''t1'' ''a''], st_blockTxs = [], st_txRWSetMap = [], st_snapshot = demo_snapshot,
      st_roundCommittedTxs = []\<rparr>)) ''c'' ''k'' = Inr None"
  using pdcc_loses_write [of default_runtime demo_snapshot 10 two_contracts "demo_tx ''t1'' ''a''" "[]" "''c''" "''k''" "Some ''1''" "''d''" "Some ''2''" None]
  by (simp add: two_contracts_def)

text \<open>
  C28. Table keys are ambiguous: the contract name and the key are joined without a separator, so two pairs share
  a table key exactly where one contract name extends the other by a prefix of its key. A write to the one is then read
  from the other.
\<close>

theorem joined_keys_alias:
  assumes "constructKey c k = constructKey c' k'" and "wf_snap s" and "\<not> IsSealed s" and "wf_runtime rt"
  shows "GetKey (ApplyWritesToWriteTable rt [\<lparr>w_ContractName = c, w_Key = k, w_Value = x\<rparr>] s) c' k' = Inr x \<and>
    (\<exists>u. c' = c @ u \<and> k = u @ k' \<or> c = c' @ u \<and> k' = u @ k)"
proof -
  have "GetKey (ApplyWritesToWriteTable rt [\<lparr>w_ContractName = c, w_Key = k, w_Value = x\<rparr>] s) =
      apply_writes (GetKey s) [\<lparr>w_ContractName = c, w_Key = k, w_Value = x\<rparr>]"
    using ApplyWrites_refines [OF assms(4) _ assms(3), of "[\<lparr>w_ContractName = c, w_Key = k, w_Value = x\<rparr>]"] assms(2)
    by (simp add: wf_snap_def)
  then show ?thesis
    using assms(1) by (auto simp: apply_writes_def constructKey_def append_eq_append_conv2)
qed

theorem joined_keys_alias_witness:
  "GetKey (ApplyWritesToWriteTable default_runtime [\<lparr>w_ContractName = ''ab'', w_Key = ''c'', w_Value = Some ''1''\<rparr>] demo_snapshot) ''a'' ''bc''
     = Inr (Some ''1'')"
  using joined_keys_alias [of "''ab''" "''c''" "''a''" "''bc''" demo_snapshot default_runtime "Some ''1''"]
  by (simp add: constructKey_def)

section \<open>The serial scheduler\<close>



text \<open>
  C30. A block of the serial scheduler verifies: where gas is not charged at the end of the block, replaying the
  transactions of the block, which carry the proposer's results, on the same committed state returns for every one of
  them the result it carries and the read-write set the proposer stored, whatever the contract caches and the time at which the
  proposer's schedule ended.
\<close>

theorem serial_block_verifies:
  assumes "unambiguous U" and "total_view (ReadObject store)" and "\<not> IsOptimizeChargeGasEnabled h"
    and "\<forall>t\<in>set txs. payer_fixed h t \<and> (\<forall>r. vm_covered h (set_result r t) \<and> vm_pairs_within h (v235 + d) U (set_result r t))"
    and "distinct (map TxId txs)" and "coherent h cache" and "coherent h cache'" and "\<forall>n. how \<noteq> HaltedAfter n"
  shows "\<exists>res res' rm. serial_schedule h (v235 + d) ModeSchedule how txs cache (makeSnapshotImpl store ver) = Inr res \<and>
    map bare_tx (sr_Txs res) = map bare_tx (take (handled how txs) txs) \<and>
    serial_schedule h (v235 + d) ModeSimulate Runs (sr_Txs res) cache' (makeSnapshotImpl store ver') = Inr res' \<and>
    sr_txResultMap res' = Some rm \<and>
    (\<forall>t\<in>set (sr_Txs res). rm (TxId t) = Some (tx_Result t) \<and>
       map_of (sr_txRWSetMap res) (TxId t) \<noteq> None \<and> map_of (sr_txRWSetMap res') (TxId t) = map_of (sr_txRWSetMap res) (TxId t))"
  by (rule serial_replay_agrees [OF assms])

theorem serial_block_verifies_witness:
  "\<exists>res res' rm. serial_schedule demo_helper (v235 + 300) ModeSchedule Runs demo_txs [] (makeSnapshotImpl demo_store 2030800) = Inr res \<and>
    length (sr_Txs res) = 2 \<and>
    serial_schedule demo_helper (v235 + 300) ModeSimulate Runs (sr_Txs res) [] (makeSnapshotImpl demo_store 2030800) = Inr res' \<and>
    sr_txResultMap res' = Some rm \<and> (\<forall>t\<in>set (sr_Txs res). rm (TxId t) = Some (tx_Result t))"
proof -
  have "distinct (map TxId demo_txs)" by (simp add: demo_txs_def demo_tx_def)
  from serial_block_verifies [OF demo_unambiguous demo_store_total demo_opt(1) demo_serial_batch this coherent_Nil coherent_Nil,
      of Runs 2030800 2030800]
  obtain res res' rm where r: "serial_schedule demo_helper (v235 + 300) ModeSchedule Runs demo_txs [] (makeSnapshotImpl demo_store 2030800) = Inr res"
      "map bare_tx (sr_Txs res) = map bare_tx demo_txs"
      "serial_schedule demo_helper (v235 + 300) ModeSimulate Runs (sr_Txs res) [] (makeSnapshotImpl demo_store 2030800) = Inr res'"
      "sr_txResultMap res' = Some rm" "\<forall>t\<in>set (sr_Txs res). rm (TxId t) = Some (tx_Result t)"
    by auto
  have "length (sr_Txs res) = 2" using arg_cong [OF r(2), of length] by (simp add: demo_txs_def)
  with r show ?thesis by blast
qed

lemma GetTxRWSet_SetTxResult [simp]: "GetTxRWSet ok (SetTxResult x c) = GetTxRWSet ok c"
proof -
  have "collectReadSetAndKey (SetTxResult x c) = collectReadSetAndKey c"
    "collectWriteSetAndKey (SetTxResult x c) = collectWriteSetAndKey c"
    "writes_by_contract n (SetTxResult x c) = writes_by_contract n c"
    "sc_tx (SetTxResult x c) = sc_tx c" "sc_blockVersion (SetTxResult x c) = sc_blockVersion c" for n
    by (simp_all add: collectReadSetAndKey_def collectWriteSetAndKey_def writes_by_contract_def SetTxResult_def)
  then show ?thesis unfolding GetTxRWSet_def by (simp only:)
qed

text \<open>
  C31. Where gas is charged at the end of the block, a transaction that is charged for and has no gas limit runs
  differently for the proposer and the verifier. Without a result, as the deterministic schedulers of a proposer see it,
  it runs in the virtual machine; with a result, as a verifier sees it, it is refused.
\<close>

theorem gas_limit_guard_differs:
  assumes "IsOptimizeChargeGasEnabled h" and "2300 \<le> version" and "p_Limit (tx_Payload t) = None"
    and "CheckNativeFilter h (p_ContractName (tx_Payload t)) (p_Method (tx_Payload t)) t v"
  shows "vm_exec h version cache v (set_result (Some r) t) =
      (GetTxRWSet False (NewTxSimContext t version), Some (guard_result GAS_LIMIT_NOT_SET ErrMsgOfGasLimitNotSet)) \<and>
    snd (vm_exec h version cache v (set_result None t)) =
      Some (vo_result (run_version h version cache v (set_result None t) (NewTxSimContext (set_result None t) version)))"
proof -
  have "CheckNativeFilter h (p_ContractName (tx_Payload t)) (p_Method (tx_Payload t)) (set_result x t) v" for x
    using assms(4) by simp
  then have "guard_version h version v (set_result (Some r) t) = (False,
      SetTxResult (Some (guard_result GAS_LIMIT_NOT_SET ErrMsgOfGasLimitNotSet)) (with_res (Some r) (NewTxSimContext t version)), set_result (Some r) t)"
    "guard_version h version v (set_result None t) = (True, NewTxSimContext (set_result None t) version, set_result None t)"
    using assms by (simp_all add: guard_version_def GuardForExecuteTx2300_def NewTxSimContext_result Let_def)
  then show ?thesis
    by (simp add: vm_exec_def ExecuteTx_run guarded_run_def Let_def) (simp add: SetTxResult_def)
qed

theorem gas_limit_guard_differs_witness:
  "map_option res_Code (snd (vm_exec demo_gas_helper 2030800 [] (\<lambda>_ _. Inr None) (set_result (Some demo_used) (demo_tx ''t1'' ''a'')))) = Some GAS_LIMIT_NOT_SET \<and>
   map_option res_Code (snd (vm_exec demo_gas_helper 2030800 [] (\<lambda>_ _. Inr None) (demo_tx ''t1'' ''a''))) = Some SUCCESS"
proof -
  let ?tx = "demo_tx ''t1'' ''a''"
  let ?v = "\<lambda>_ _. Inr None"
  have run: "fst (run_prog demo_env ?v (RunContract demo_env pl c ''a'' ps g ty) (NewTxSimContext ?tx 2030800)) =
      (demo_result, ExecOrderTxTypeNormal, SUCCESS)" for pl c ps g ty
    by (simp add: demo_env_def run_prog_steps sim_Get_def sim_Put_def getFromWriteSet_def getFromReadSet_def
        getFromRelyCache_def NewTxSimContext_def PutIntoReadSet_def putIntoWriteSet_def update_current_def
        empty_rwSet_def maxKeyLength_def)
  have "map_option res_Code (snd (vm_exec demo_gas_helper 2030800 [] ?v ?tx)) = Some SUCCESS"
    using run
    by (simp add: vm_exec_def ExecuteTx_def guarded_run_def guard_version_def run_version_def GuardForExecuteTx2300_def Let_def
        CheckGasEnable_def IsOptimizeChargeGasEnabled_def check_refund_gas_def GetTxGasLimit_def split_beta
        RunVM2300_def prepare_vm_def ParseParameter2220_def GetContractFromCache_def GetContractBytecode_def
        finish_2300_def call_contract_of_def demo_gas_helper_def demo_helper_def demo_tx_def vm_done_def SetTxResult_def init_result_def)
  moreover have "p_Limit (tx_Payload ?tx) = None" "p_ContractName (tx_Payload ?tx) = ''c''" by (simp_all add: demo_tx_def)
  ultimately show ?thesis
    using gas_limit_guard_differs [of demo_gas_helper 2030800 ?tx ?v "[]" demo_used]
    by (simp add: CheckNativeFilter_def IsNativeContract_def SystemContract_names_def guard_result_def)
qed

section \<open>The worker pool\<close>

text \<open>
  C32. The window counts conflicts exactly: whatever the outcomes so far, the number it holds is that of
  the conflicts among the last 64 of them.
\<close>

theorem conflicts_counted:
  "conflictsNum (snd (fold adjustPoolSize vs (cap, NewConflictsBitWindow n))) =
     int (length (filter (\<lambda>v. v = ConflictTx) (take 64 (rev vs))))"
  using history_run [of vs cap n] card_history by (simp add: window_ok_def)



text \<open>
  C34. Dispatching by sender, with payers that can be told and keep their key: at every moment the transactions
  with the workers belong to different senders, those of a sender are applied in the order of the batch, the sending goroutine never
  panics, and as long as it has not been told to end all transactions can still be applied.
\<close>

theorem sender_groups_dispatch:
  assumes "group_reach key (group_start order window (getSenderTxsMap key txs [])) st"
    and "\<forall>t\<in>set txs. key t \<noteq> []" and "\<And>l. mset (order l) = mset l"
  shows "distinct (map key (sg_running st)) \<and>
    (\<forall>k. k \<noteq> [] \<longrightarrow> (\<exists>later. filter (\<lambda>t. key t = k) txs = filter (\<lambda>t. key t = k) (sg_applied st) @ later)) \<and>
    (\<forall>k q. sg_doneTxKeyC st = k # q \<longrightarrow> send_done k (st\<lparr>sg_doneTxKeyC := q\<rparr>) \<noteq> None) \<and>
    (\<not> sg_returned st \<and> [] \<notin> set (sg_doneTxKeyC st) \<longrightarrow>
       (\<exists>st'. group_reach key st st' \<and> (\<forall>k. k \<noteq> [] \<longrightarrow> filter (\<lambda>t. key t = k) (sg_applied st') = filter (\<lambda>t. key t = k) txs)))"
proof -
  have inv: "group_inv key txs st"
    by (rule group_inv_reach [OF assms(1) group_inv_start [OF assms(2,3)] assms(2)])
  have "distinct (map key (sg_running st))"
  proof (rule distinct_keys_one)
    show "of_key key (key t) (R1 @ R2) = []" if "sg_running st = R1 @ t # R2" for R1 t R2
      using running_one [OF inv that] by blast
  qed
  moreover have "\<exists>later. of_key key k txs = of_key key k (sg_applied st) @ later" if "k \<noteq> []" for k
  proof -
    have "group_ok key txs st k" using inv that by (simp add: group_inv_def)
    then show ?thesis by (auto simp: group_ok_def Let_def split: option.splits) metis+
  qed
  moreover have "\<exists>st'. group_reach key st st' \<and> (\<forall>k. k \<noteq> [] \<longrightarrow> of_key key k (sg_applied st') = of_key key k txs)"
    if on: "\<not> sg_returned st" "[] \<notin> set (sg_doneTxKeyC st)"
  proof -
    obtain st' where st': "group_reach key st st'" "sg_running st' = []" "sg_doneTxKeyC st' = []"
      using group_drains [OF inv on assms(2)] by blast
    show ?thesis using st' group_all_applied [OF group_inv_reach [OF st'(1) inv assms(2)] st'(2,3)] by blast
  qed
  ultimately show ?thesis using group_send_enabled [OF inv] by (simp add: of_key_def)
qed

theorem sender_groups_dispatch_witness:
  "\<exists>st'. group_reach (getPayerHashKey demo_helper (\<lambda>_ _. Inr None))
      (group_start rev None (getSenderTxsMap (getPayerHashKey demo_helper (\<lambda>_ _. Inr None)) demo_txs [])) st' \<and>
    filter (\<lambda>t. getPayerHashKey demo_helper (\<lambda>_ _. Inr None) t = ''addr'') (sg_applied st') = demo_txs"
proof -
  let ?key = "getPayerHashKey demo_helper (\<lambda>_ _. Inr None)"
  let ?st = "group_start rev None (getSenderTxsMap ?key demo_txs [])"
  have key: "?key t = ''addr''" for t by (simp add: getPayerHashKey_def demo_helper_def)
  have "\<exists>st'. group_reach ?key ?st st' \<and> (\<forall>k. k \<noteq> [] \<longrightarrow> filter (\<lambda>t. ?key t = k) (sg_applied st') = filter (\<lambda>t. ?key t = k) demo_txs)"
    using sender_groups_dispatch [of ?key rev None demo_txs ?st, OF group_reach.here] key by (simp add: group_start_def)
  then show ?thesis by (auto simp: key dest!: spec [of _ "''addr''"])
qed



section \<open>Block synchronisation\<close>

text \<open>
  C36. Whatever peers send, blocks are synchronised in order and none is lost, as long as the
  synchronisation is not stopped: in every reachable state the processor passes only the block after the last committed one on
  to verification, after which the ledger is where it was or one further; and a height
  above the ledger's that the scheduler counts as received is in the processor's queue, on the way there, or on the way back as failed.
\<close>

theorem sync_in_order:
  assumes "sync_reach cfg (\<lambda>ev. ev \<noteq> StopSync) (sync_start (newScheduler l now c timeOut threshold batch lag lagTime nodes) l) st"
    and "verdicts_ok (cfg_env cfg)"
  shows "(\<forall>h>sys_ledger st. map_of (blockStates (sys_sched st)) h = Some receivedBlock \<longrightarrow> held st h) \<and>
    (\<forall>h status peer l' pro'. handleProcessBlockMsg (cfg_fastSync cfg) (cfg_env cfg) (sys_ledger st) (sys_proc st) =
        (Some (h, status, peer), l', pro') \<longrightarrow>
      h = sys_ledger st + 1 \<and> (status = status_ok \<and> l' = h \<or> status \<in> {validateFailed, addErr} \<and> l' = sys_ledger st))"
proof -
  have inv: "kept_inv st"
    by (rule kept_inv_reach [OF assms(1) kept_inv_start assms(2)]) simp
  then have keys: "queue_keys (sys_proc st)" by (simp add: kept_inv_def)
  show ?thesis
  proof (intro conjI allI impI)
    show "held st h" if "sys_ledger st < h" "map_of (blockStates (sys_sched st)) h = Some receivedBlock" for h
      using inv that by (simp add: kept_inv_def)
  next
    fix h status peer l' pro'
    assume "handleProcessBlockMsg (cfg_fastSync cfg) (cfg_env cfg) (sys_ledger st) (sys_proc st) = (Some (h, status, peer), l', pro')"
    from process_block_resp [OF this keys assms(2)]
    show "h = sys_ledger st + 1" "status = status_ok \<and> l' = h \<or> status \<in> {validateFailed, addErr} \<and> l' = sys_ledger st" by auto
  qed
qed

theorem sync_in_order_witness:
  "\<exists>st. sync_reach sync_demo_cfg (\<lambda>ev. ev \<noteq> StopSync) sync_demo_one st \<and>
     map_of (blockStates (sys_sched st)) 1 = Some receivedBlock \<and> held st 1"
proof -
  obtain ds st where st: "sync_do_all sync_demo_cfg ds sync_demo_one = Some st" "map_of (blockStates (sys_sched st)) 1 = Some receivedBlock"
      "sys_ledger st = 0"
    using sync_demo_received by blast
  have r: "sync_reach sync_demo_cfg (\<lambda>ev. ev \<noteq> StopSync) sync_demo_one st"
    by (rule sync_reach_mono [OF sync_do_all_reach [OF st(1) sync_reach.here]]) simp
  then show ?thesis using sync_in_order [OF r [unfolded sync_demo_one_def] sync_demo_verdicts] st(2,3) by auto
qed

text \<open>
  C37. With one block per request, which is the default, the synchronisation never gets stuck: from every
  state that can be reached without stopping it, whatever other peers have sent and left unanswered, one
  answer with a valid next block and the node's own timers and tasks are enough for the ledger to grow.
\<close>

theorem sync_not_stuck:
  assumes "sync_reach cfg (\<lambda>ev. ev \<noteq> StopSync) (sync_start (newScheduler l now c timeOut threshold 1 lag lagTime nodes) l) st"
    and "verdicts_ok (cfg_env cfg)" and "c \<ge> 1" and "sys_ledger st + c < MaxUint64" and "\<not> stopSyncBlock (sys_sched st)"
    and "blk_Header b = Some (sys_ledger st + 1)" and "VerifyBlock (cfg_env cfg) (sys_ledger st) b = Accepts"
    and "VerifyBlockWithRwSets (cfg_env cfg) (sys_ledger st) b rws = Accepts" and "AddBlock (cfg_env cfg) (sys_ledger st) b = Accepts"
  shows "\<exists>st'. sync_reach cfg (\<lambda>ev. own_event ev \<or> ev = Outside (SyncedBlockMsg peer (Some (BlockinfoBatch [(b, rws)], w)))) st st' \<and>
    sys_ledger st' > sys_ledger st"
proof -
  let ?ok = "\<lambda>ev. own_event ev \<or> ev = Outside (SyncedBlockMsg peer (Some (BlockinfoBatch [(b, rws)], w)))"
  have inv: "run_inv c st" by (rule run_inv_reach [OF assms(1) run_inv_start [OF assms(3)] assms(2)]) simp
  then obtain st1 where st1: "sync_reach cfg own_event st st1" "drained st st1"
    using drain_tasks [of st cfg] by (auto simp: run_inv_def kept_inv_def)
  have inv1: "run_inv c st1" by (rule run_inv_reach [OF st1(1) inv assms(2) own_no_stop])
  obtain st2 where st2: "sync_reach cfg own_event st1 st2" "sys_ledger st2 > sys_ledger st1 \<or>
      drained st1 st2 \<and> map_of (pro_queue (sys_proc st2)) (sys_ledger st1 + 1) = None"
    using process_next [OF inv1 assms(2) st1(2)] by blast
  have inv2: "run_inv c st2" by (rule run_inv_reach [OF st2(1) inv1 assms(2) own_no_stop])
  have r2: "sync_reach cfg ?ok st st2"
    by (rule sync_reach_mono [OF sync_reach_trans [OF st2(1) st1(1)]]) simp
  show ?thesis
  proof (cases "sys_ledger st2 > sys_ledger st1")
    case True
    then show ?thesis using r2 st1(2) by (auto simp: drained_def)
  next
    case False
    then have d: "drained st1 st2" "map_of (pro_queue (sys_proc st2)) (sys_ledger st1 + 1) = None" using st2(2) by auto
    have l: "sys_ledger st2 = sys_ledger st" "sys_ledger st1 = sys_ledger st" "\<not> stopSyncBlock (sys_sched st2)"
      using st1(2) d(1) assms(5) by (simp_all add: drained_def)
    obtain st' where "sync_reach cfg ?ok st2 st'" "sys_ledger st' > sys_ledger st"
      using block_commits [OF d(1) inv2, of b cfg rws peer w] assms(4,6-9) d(2) l by auto
    then show ?thesis using sync_reach_trans r2 by blast
  qed
qed

theorem sync_not_stuck_witness:
  "\<exists>st st'. sync_reach sync_demo_cfg (\<lambda>ev. ev \<noteq> StopSync) sync_demo_one st \<and> map_of (blockStates (sys_sched st)) 1 = Some receivedBlock \<and>
     sync_reach sync_demo_cfg (\<lambda>ev. own_event ev \<or> ev = Outside (SyncedBlockMsg ''q'' (Some (BlockinfoBatch [(sync_demo_block 1, [])], False)))) st st' \<and>
     sys_ledger st' > 0"
proof -
  obtain ds st where st: "sync_do_all sync_demo_cfg ds sync_demo_one = Some st" "map_of (blockStates (sys_sched st)) 1 = Some receivedBlock"
      "sys_ledger st = 0" "\<not> stopSyncBlock (sys_sched st)"
    using sync_demo_received by blast
  have r: "sync_reach sync_demo_cfg (\<lambda>ev. ev \<noteq> StopSync) sync_demo_one st"
    by (rule sync_reach_mono [OF sync_do_all_reach [OF st(1) sync_reach.here]]) simp
  have "\<exists>st'. sync_reach sync_demo_cfg (\<lambda>ev. own_event ev \<or> ev = Outside (SyncedBlockMsg ''q'' (Some (BlockinfoBatch [(sync_demo_block 1, [])], False)))) st st' \<and>
     sys_ledger st' > sys_ledger st"
    by (rule sync_not_stuck [OF r [unfolded sync_demo_one_def] sync_demo_verdicts])
      (simp_all add: st MaxUint64_def sync_demo_block_def sync_demo_cfg_def)
  then show ?thesis using r st by auto
qed

text \<open>
  C38. With several blocks per request the synchronisation can lock up. A node that asks for three blocks at a
  time and holds at most two reaches a state in which it has received three later blocks and not the next one; from then
  on every answer is dropped, and without the consensus or a restart of the synchronisation the ledger never grows.
\<close>

theorem sync_locks_up:
  "\<exists>st. sync_reach sync_demo_cfg (\<lambda>ev. ev \<noteq> StopSync \<and> ev \<noteq> Consensus) sync_demo_three st \<and> sys_ledger st = 0 \<and>
     \<not> (\<exists>st'. sync_reach sync_demo_cfg (\<lambda>ev. ev \<noteq> StopSync \<and> ev \<noteq> Consensus) st st' \<and> sys_ledger st' \<noteq> 0)"
proof -
  obtain ds st where st: "sync_do_all sync_demo_cfg ds sync_demo_three = Some st" "locked st" "sys_ledger st = 0"
    using sync_demo_locked by blast
  then show ?thesis using sync_do_all_reach [OF st(1) sync_reach.here] locked_reach [of sync_demo_cfg st] by fastforce
qed

section \<open>The quick path\<close>



text \<open>
  C40. Updates of one block do not see each other: a transaction that brings its own parameters has, at any place of
  the block, the result and the read-write set it has alone on the state before the block. So the nonce of an object, meant to
  grow with every update, is not checked against the other transactions of the block.
\<close>

theorem quick_updates_isolated:
  assumes "i < length txs" and "{''bizId'', ''businessType'', ''nonce''} \<subseteq> fst ` set (p_Parameters (tx_Payload (txs ! i)))"
  shows "quick_loop v version txs m ! i = fst (runContract v version (txs ! i) [])"
  using quick_loop_nth [OF assms(1), of v version m] runContract_own_params [OF assms(2), of v version] by metis

theorem quick_updates_isolated_witness:
  "let t = (\<lambda>i. quick_demo_tx i [(''bizId'', Some ''a''), (''businessType'', Some ''b''), (''nonce'', Some ''5'')]);
       v = (\<lambda>_ _. Inr None); outs = quick_loop v v235 [t ''t1'', t ''t2''] []
   in outs ! 0 = fst (runContract v v235 (t ''t1'') []) \<and> outs ! 1 = fst (runContract v v235 (t ''t2'') []) \<and>
      map (\<lambda>(r, rw). (res_Code r, map w_Value (TxWrites rw))) outs = [(SUCCESS, [Some ''5'']), (SUCCESS, [Some ''5''])]"
proof -
  let ?t = "\<lambda>i. quick_demo_tx i [(''bizId'', Some ''a''), (''businessType'', Some ''b''), (''nonce'', Some ''5'')]"
  let ?txs = "[?t ''t1'', ?t ''t2'']" and ?v = "\<lambda>_ _. Inr None"
  have "quick_loop ?v v235 ?txs [] ! 0 = fst (runContract ?v v235 (?txs ! 0) [])"
    by (rule quick_updates_isolated) (simp_all add: quick_demo_tx_def)
  moreover have "quick_loop ?v v235 ?txs [] ! 1 = fst (runContract ?v v235 (?txs ! 1) [])"
    by (rule quick_updates_isolated) (simp_all add: quick_demo_tx_def)
  ultimately show ?thesis using quick_updates_same_nonce by (simp add: Let_def)
qed

end
